(* ===== verification/Rws_Prelude.thy ===== *)
theory Rws_Prelude
  imports Main "HOL-Library.Word" "HOL-Library.Monad_Syntax" "HOL-Library.Stream"
begin

text \<open>
  Shared vocabulary of the development: names for the C integer types, the fact collections
  that carry the component proofs, and generic lemmas on lists, options and words.

  Conventions used in every theory.  A C function that may read or write memory is a HOL function
  that takes the program state and returns an \<open>option\<close>: \<open>None\<close> is an execution that has no
  defined result (undefined behaviour, or a loop that never ends), \<open>Some\<close> carries the returned
  value and the new state.  The errors the library itself reports (\<open>rws_false\<close>, \<open>NULL\<close>, an
  error object) are ordinary values.
\<close>

unbundle bit_operations_syntax

section \<open>Machine integers\<close>

type_synonym u8 = "8 word"
type_synonym u32 = "32 word"

text \<open>
  Values of type \<open>size_t\<close> are natural numbers.  Every sum of sizes in the code adds the sizes of
  objects that are alive together, so it stays below the size of the address space; the one
  subtraction of sizes that could wrap is written with its wrap-around.
\<close>

definition size_sub :: "nat \<Rightarrow> nat \<Rightarrow> nat" where
  "size_sub a b = (if b \<le> a then a - b else 2 ^ 64 - (b - a))"

lemma size_sub_le [simp]: "b \<le> a \<Longrightarrow> size_sub a b = a - b"
  by (simp add: size_sub_def)

section \<open>Fact collections\<close>

named_theorems mem_simps \<open>rewrite rules for memory accesses\<close>
named_theorems run_simps \<open>symbolic execution of operations\<close>
named_theorems frame_simps \<open>the frame codec\<close>

section \<open>Options and lists\<close>

lemma those_map_Some [simp]: "those (map Some xs) = Some xs"
  by (induction xs) auto

lemma length_those: "those xs = Some ys \<Longrightarrow> length ys = length xs"
  by (induction xs arbitrary: ys) (auto split: option.splits)

lemma those_eq_Some: "those xs = Some ys \<longleftrightarrow> xs = map Some ys"
  by (induction xs arbitrary: ys) (auto split: option.splits)

lemma bind_SomeE:
  assumes "Option.bind x f = Some y"
  obtains z where "x = Some z" "f z = Some y"
  using assms by (auto simp: Option.bind_eq_Some_conv)

lemma take_append_exact [simp]: "n = length xs \<Longrightarrow> take n (xs @ ys) = xs"
  by simp

lemma drop_append_exact [simp]: "n = length xs \<Longrightarrow> drop n (xs @ ys) = ys"
  by simp

section \<open>Bytes of a 32-bit word\<close>

definition le_bytes :: "u32 \<Rightarrow> u8 list" where
  "le_bytes w = [ucast w, ucast (drop_bit 8 w), ucast (drop_bit 16 w), ucast (drop_bit 24 w)]"

lemma length_le_bytes [simp]: "length (le_bytes w) = 4"
  by (simp add: le_bytes_def)

section \<open>Byte and word arithmetic\<close>

text \<open>
  The codec shifts, masks and ors bytes; these lemmas read each such expression as a number.
\<close>

lemma mult_or_nat:
  assumes "b < 2 ^ k"
  shows "a * 2 ^ k OR b = a * 2 ^ k + (b::nat)"
proof -
  have b: "take_bit k b = b" using assms by (simp add: take_bit_nat_eq_self_iff)
  have "push_bit k a AND take_bit k b = 0"
    by (rule bit_eqI) (auto simp: bit_simps)
  then show ?thesis by (simp add: disjunctive_add_eq_or b push_bit_eq_mult)
qed

lemma unat_u8_less: "unat (b::u8) < 256"
proof -
  have "unat b < 2 ^ LENGTH(8)" by (rule unsigned_less)
  then show ?thesis by simp
qed

lemma unat_ucast8_32 [simp]: "unat (ucast (b::u8) :: u32) = unat b"
  using unat_u8_less [of b] by (simp add: unsigned_ucast_eq take_bit_nat_eq_self_iff)

lemma unat_shifts [simp]:
  "unat (push_bit 8 (ucast (b::u8)) :: u32) = unat b * 256"
  "unat (push_bit 16 (ucast (b::u8)) :: u32) = unat b * 65536"
  "unat (push_bit 24 (ucast (b::u8)) :: u32) = unat b * 16777216"
  using unat_u8_less [of b] by (simp_all add: push_bit_eq_mult unat_word_ariths)

lemma unat_be16: "unat (push_bit 8 (ucast a) OR ucast b :: u32) = 256 * unat (a::u8) + unat (b::u8)"
  using mult_or_nat [of "unat b" 8 "unat a"] unat_u8_less [of b] by (simp add: unsigned_or_eq)

lemma unat_be32: "unat (push_bit 24 (ucast a) OR push_bit 16 (ucast b) OR push_bit 8 (ucast c) OR ucast d :: u32)
   = 16777216 * unat (a::u8) + 65536 * unat (b::u8) + 256 * unat (c::u8) + unat (d::u8)"
proof -
  let ?A = "unat a" and ?B = "unat b" and ?C = "unat c" and ?D = "unat d"
  have bd: "?B < 256" "?C < 256" "?D < 256" by (simp_all add: unat_u8_less)
  have 1: "?C * 256 OR ?D = ?C * 256 + ?D" using mult_or_nat [of ?D 8 ?C] bd by simp
  have 2: "?B * 65536 OR (?C * 256 + ?D) = ?B * 65536 + (?C * 256 + ?D)"
    using mult_or_nat [of "?C * 256 + ?D" 16 ?B] bd by simp
  have 3: "?A * 16777216 OR (?B * 65536 + (?C * 256 + ?D)) = ?A * 16777216 + (?B * 65536 + (?C * 256 + ?D))"
    using mult_or_nat [of "?B * 65536 + (?C * 256 + ?D)" 24 ?A] bd by simp
  have "unat (push_bit 24 (ucast a) OR push_bit 16 (ucast b) OR push_bit 8 (ucast c) OR ucast d :: u32)
      = ?A * 16777216 OR (?B * 65536 OR (?C * 256 OR ?D))"
    by (simp add: unsigned_or_eq or.assoc)
  then show ?thesis unfolding 1 2 3 by simp
qed

lemma unat_and_7f [simp]: "unat ((ucast (b::u8) :: u32) AND 0x7f) = unat b mod 128"
proof -
  have "(ucast b :: u32) AND 0x7f = take_bit 7 (ucast b)"
    by (simp add: take_bit_eq_mask mask_eq_exp_minus_1)
  then have "unat ((ucast b :: u32) AND 0x7f) = take_bit 7 (unat b)" by (simp only: unsigned_take_bit_eq unat_ucast8_32)
  then show ?thesis by (simp add: take_bit_eq_mod)
qed
lemma unat_and_0f [simp]: "unat ((b::u8) AND 0x0f) = unat b mod 16"
proof -
  have "b AND 0x0f = take_bit 4 b"
    by (simp add: take_bit_eq_mask mask_eq_exp_minus_1)
  then have "unat (b AND 0x0f) = take_bit 4 (unat b)" by (simp only: unsigned_take_bit_eq)
  then show ?thesis by (simp add: take_bit_eq_mod)
qed

lemma bit7: "drop_bit 7 (b::u8) AND 1 \<noteq> 0 \<longleftrightarrow> 128 \<le> unat b"
proof -
  have "drop_bit 7 b AND 1 \<noteq> 0 \<longleftrightarrow> odd (unat (drop_bit 7 b))" 
    unfolding word_unat_eq_iff by (simp add: and_one_eq unat_mod odd_iff_mod_2_eq_one)
  also have "\<dots> \<longleftrightarrow> odd (unat b div 128)"
    by (simp add: drop_bit_eq_div unat_div)
  also have "\<dots> \<longleftrightarrow> 128 \<le> unat b"
  proof (cases "128 \<le> unat b")
    case True
    then have "unat b div 128 = 1" using unat_u8_less [of b] by (intro div_nat_eqI) auto
    with True show ?thesis by simp
  qed simp
  finally show ?thesis .
qed

lemma unat_ucast32_8 [simp]: "unat (ucast (x::u32) :: u8) = unat x mod 256"
  by (simp add: unsigned_ucast_eq take_bit_eq_mod)

lemma ucast_and_ff [simp]: "ucast ((x::u32) AND 0xff) = (ucast x :: u8)"
proof -
  have "x AND 0xff = take_bit 8 x" by (simp add: take_bit_eq_mask mask_eq_exp_minus_1)
  then show ?thesis by (simp add: word_unat_eq_iff unat_mod take_bit_eq_mod)
qed

lemma or_0x80_nat: "(n::nat) < 128 \<Longrightarrow> 128 OR n = 128 + n"
  using mult_or_nat [of n 7 1] by simp

lemma unat_or_0x80: "unat (x::u32) < 128 \<Longrightarrow> unat (0x80 OR x) = 128 + unat x"
  by (simp add: unsigned_or_eq or_0x80_nat)

lemma first_byte:
  assumes "unat (x::u32) < 16"
  shows "unat (ucast (0x80 OR x) :: u8) = 128 + unat x"
  using assms by (simp add: unat_or_0x80)

lemma unat_drop8: "unat (drop_bit n (x::u32)) = unat x div 2 ^ n"
  by (subst unat_drop_bit_eq) (rule drop_bit_eq_div)

lemma len_byte: "unat (x::u32) < 126 \<Longrightarrow> unat (ucast ((x AND 0xff) OR (if k then 0x80 else 0)) :: u8) = unat x + (if k then 128 else 0)"
proof -
  assume "unat x < 126"
  then have "take_bit 8 x = x" 
    by (simp add: word_unat_eq_iff unsigned_take_bit_eq take_bit_nat_eq_self_iff)
  then have "x AND 0xff = x" by (simp add: take_bit_eq_mask mask_eq_exp_minus_1)
  with \<open>unat x < 126\<close> show ?thesis using unat_or_0x80 [of x] by (simp add: or.commute)
qed
lemma xor_twice [simp]: "(x XOR k) XOR k = (x :: u8)"
  by (simp add: xor.assoc)

end
