(* ===== verification/Rws_Types.thy ===== *)
theory Rws_Types
  imports Rws_Prelude
begin

text \<open>
  The data types of the headers: pointers, the C structs of \<open>rws_frame.h\<close>, \<open>rws_list.h\<close>,
  \<open>rws_error.h\<close> and \<open>rws_thread.c\<close>, the enums of \<open>librws.h\<close> and \<open>rws_frame.h\<close>, and the
  objects that live on the heap.
\<close>

section \<open>Pointers\<close>

text \<open>
  A pointer is \<open>NULL\<close>, a byte offset into a heap block, or a byte offset into a NUL-terminated
  byte array outside the heap: a string literal of the source or of the caller, or a local buffer a
  function has filled.  Only a heap pointer with offset 0 is an address \<open>malloc\<close> returned.
\<close>

datatype ptr = NULL | Ptr nat nat | Lit "u8 list" nat

fun ptr_add :: "ptr \<Rightarrow> nat \<Rightarrow> ptr" where
  "ptr_add NULL n = NULL"
| "ptr_add (Ptr b off) n = Ptr b (off + n)"
| "ptr_add (Lit bs off) n = Lit bs (off + n)"

text \<open>The heap block a pointer points into.\<close>

primrec ptr_blks :: "ptr \<Rightarrow> nat set" where
  "ptr_blks NULL = {}"
| "ptr_blks (Ptr b off) = {b}"
| "ptr_blks (Lit bs off) = {}"

section \<open>Frames\<close>

text \<open>
  \<open>rws_opcode\<close> is a C enum, so an integer: the receiver casts any 4-bit value to it.
\<close>

type_synonym rws_opcode = u32

abbreviation rws_opcode_continuation :: rws_opcode where "rws_opcode_continuation \<equiv> 0x0"
abbreviation rws_opcode_text_frame :: rws_opcode where "rws_opcode_text_frame \<equiv> 0x1"
abbreviation rws_opcode_binary_frame :: rws_opcode where "rws_opcode_binary_frame \<equiv> 0x2"
abbreviation rws_opcode_connection_close :: rws_opcode where "rws_opcode_connection_close \<equiv> 0x8"
abbreviation rws_opcode_ping :: rws_opcode where "rws_opcode_ping \<equiv> 0x9"
abbreviation rws_opcode_pong :: rws_opcode where "rws_opcode_pong \<equiv> 0xA"

record rws_frame =
  f_data :: ptr
  f_data_size :: nat
  f_opcode :: rws_opcode
  f_mask :: "u8 list"
  f_is_masked :: bool
  f_is_finished :: bool
  f_header_size :: u8

text \<open>The struct as \<open>memset(mem, 0, size)\<close> leaves it.\<close>

definition zero_frame :: rws_frame where
  "zero_frame = \<lparr>f_data = NULL, f_data_size = 0, f_opcode = 0, f_mask = [0, 0, 0, 0],
     f_is_masked = False, f_is_finished = False, f_header_size = 0\<rparr>"

section \<open>List nodes\<close>

text \<open>The library stores only the \<open>object\<close> member of the value union.\<close>

record rws_node =
  n_value :: ptr
  n_next :: ptr

definition zero_node :: rws_node where
  "zero_node = \<lparr>n_value = NULL, n_next = NULL\<rparr>"

section \<open>Errors\<close>

record rws_error_struct =
  e_code :: int
  e_http_error :: int
  e_description :: ptr

definition zero_error :: rws_error_struct where
  "zero_error = \<lparr>e_code = 0, e_http_error = 0, e_description = NULL\<rparr>"

abbreviation rws_error_code_none :: int where "rws_error_code_none \<equiv> 0"
abbreviation rws_error_code_missed_parameter :: int where "rws_error_code_missed_parameter \<equiv> 1"
abbreviation rws_error_code_send_handshake :: int where "rws_error_code_send_handshake \<equiv> 2"
abbreviation rws_error_code_parse_handshake :: int where "rws_error_code_parse_handshake \<equiv> 3"
abbreviation rws_error_code_read_write_socket :: int where "rws_error_code_read_write_socket \<equiv> 4"
abbreviation rws_error_code_connect_to_host :: int where "rws_error_code_connect_to_host \<equiv> 5"
abbreviation rws_error_code_connection_closed :: int where "rws_error_code_connection_closed \<equiv> 6"

section \<open>Heap objects\<close>

text \<open>
  A byte block holds cells: \<open>None\<close> is a byte \<open>malloc\<close> left uninitialised.  A mutex is its
  recursive lock count.  The socket's own fields are kept in the program state (theory
  \<open>Rws_Socket\<close>); its block records that the object is allocated.
\<close>

type_synonym cell = "u8 option"

datatype obj =
    OBytes "cell list"
  | OFrame rws_frame
  | ONode rws_node
  | OError rws_error_struct
  | OMutex nat
  | OSocket

end
