(* ===== verification/Rws_Memory.thy ===== *)
theory Rws_Memory
  imports Rws_Types
begin

text \<open>
  The heap and \<open>rws_memory.c\<close>.  Blocks are typed and get fresh numbers, so an address is never
  reused: any access to a freed block, past the end of a block, through \<open>NULL\<close> or at the wrong
  type has no result, and freeing anything but the start of a live block has none either.  A failed
  \<open>malloc\<close> ends the program at the \<open>assert\<close> of \<open>rws_malloc\<close>; the model follows the runs
  where it succeeds.
\<close>

section \<open>State\<close>

record mem =
  blocks :: "nat \<Rightarrow> obj option"
  next_blk :: nat
  rands :: "nat stream"

text \<open>Every live block has a number below the next one to be given out.\<close>

definition fresh_ok :: "'a mem_scheme \<Rightarrow> bool" where
  "fresh_ok m \<longleftrightarrow> (\<forall>b. blocks m b \<noteq> None \<longrightarrow> b < next_blk m)"

lemma fresh_unused: "fresh_ok m \<Longrightarrow> blocks m (next_blk m) = None"
  by (auto simp: fresh_ok_def)

section \<open>Allocation and release\<close>

definition alloc :: "obj \<Rightarrow> 'a mem_scheme \<Rightarrow> ptr \<times> 'a mem_scheme" where
  "alloc x m = (Ptr (next_blk m) 0,
     m\<lparr>blocks := (blocks m)(next_blk m \<mapsto> x), next_blk := Suc (next_blk m)\<rparr>)"

definition rws_malloc :: "nat \<Rightarrow> 'a mem_scheme \<Rightarrow> ptr \<times> 'a mem_scheme" where
  "rws_malloc n m = (if 0 < n then alloc (OBytes (replicate n None)) m else (NULL, m))"

text \<open>\<open>rws_malloc_zero(sizeof(T))\<close>: the zeroed struct is given as the object.\<close>

definition rws_malloc_zero :: "obj \<Rightarrow> 'a mem_scheme \<Rightarrow> ptr \<times> 'a mem_scheme" where
  "rws_malloc_zero zero_struct m = alloc zero_struct m"

definition rws_free :: "ptr \<Rightarrow> 'a mem_scheme \<Rightarrow> 'a mem_scheme option" where
  "rws_free p m = (case p of
       NULL \<Rightarrow> Some m
     | Ptr b off \<Rightarrow> (if off = 0 \<and> blocks m b \<noteq> None
                     then Some (m\<lparr>blocks := (blocks m)(b := None)\<rparr>) else None)
     | Lit _ _ \<Rightarrow> None)"

text \<open>\<open>rws_free_clean(&p)\<close>: the caller stores the returned pointer, \<open>NULL\<close>, back in \<open>p\<close>.\<close>

definition rws_free_clean :: "ptr \<Rightarrow> 'a mem_scheme \<Rightarrow> (ptr \<times> 'a mem_scheme) option" where
  "rws_free_clean p m = do { m \<leftarrow> rws_free p m; Some (NULL, m) }"

section \<open>Byte access\<close>

text \<open>All cells from a pointer to the end of its object; a string constant ends with its NUL.\<close>

definition cells_from :: "ptr \<Rightarrow> 'a mem_scheme \<Rightarrow> cell list option" where
  "cells_from p m = (case p of
       NULL \<Rightarrow> None
     | Ptr b off \<Rightarrow> (case blocks m b of
           Some (OBytes cs) \<Rightarrow> (if off \<le> length cs then Some (drop off cs) else None)
         | _ \<Rightarrow> None)
     | Lit bs off \<Rightarrow> (if off \<le> Suc (length bs) then Some (drop off (map Some bs @ [Some 0])) else None))"

definition load :: "ptr \<Rightarrow> nat \<Rightarrow> 'a mem_scheme \<Rightarrow> cell list option" where
  "load p n m = do {
     cs \<leftarrow> cells_from p m;
     if n \<le> length cs then Some (take n cs) else None }"

definition load_bytes :: "ptr \<Rightarrow> nat \<Rightarrow> 'a mem_scheme \<Rightarrow> u8 list option" where
  "load_bytes p n m = do { cs \<leftarrow> load p n m; those cs }"

definition rd_byte :: "ptr \<Rightarrow> nat \<Rightarrow> 'a mem_scheme \<Rightarrow> u8 option" where
  "rd_byte p i m = do {
     cs \<leftarrow> cells_from p m;
     if i < length cs then cs ! i else None }"

definition store :: "ptr \<Rightarrow> cell list \<Rightarrow> 'a mem_scheme \<Rightarrow> 'a mem_scheme option" where
  "store p vs m = (case p of
       Ptr b off \<Rightarrow> (case blocks m b of
           Some (OBytes cs) \<Rightarrow>
             (if off + length vs \<le> length cs
              then Some (m\<lparr>blocks := (blocks m)(b \<mapsto>
                     OBytes (take off cs @ vs @ drop (off + length vs) cs))\<rparr>)
              else None)
         | _ \<Rightarrow> None)
     | _ \<Rightarrow> None)"

definition memcpy :: "ptr \<Rightarrow> ptr \<Rightarrow> nat \<Rightarrow> 'a mem_scheme \<Rightarrow> 'a mem_scheme option" where
  "memcpy dst src n m = do { cs \<leftarrow> load src n m; store dst cs m }"

section \<open>Struct access\<close>

definition obj_at :: "ptr \<Rightarrow> 'a mem_scheme \<Rightarrow> obj option" where
  "obj_at p m = (case p of Ptr b off \<Rightarrow> (if off = 0 then blocks m b else None) | _ \<Rightarrow> None)"

definition set_obj :: "ptr \<Rightarrow> obj \<Rightarrow> 'a mem_scheme \<Rightarrow> 'a mem_scheme" where
  "set_obj p x m = (case p of Ptr b _ \<Rightarrow> m\<lparr>blocks := (blocks m)(b \<mapsto> x)\<rparr> | _ \<Rightarrow> m)"

definition get_frame :: "ptr \<Rightarrow> 'a mem_scheme \<Rightarrow> rws_frame option" where
  "get_frame p m = (case obj_at p m of Some (OFrame f) \<Rightarrow> Some f | _ \<Rightarrow> None)"

definition put_frame :: "ptr \<Rightarrow> rws_frame \<Rightarrow> 'a mem_scheme \<Rightarrow> 'a mem_scheme option" where
  "put_frame p f m = do { _ \<leftarrow> get_frame p m; Some (set_obj p (OFrame f) m) }"

definition get_node :: "ptr \<Rightarrow> 'a mem_scheme \<Rightarrow> rws_node option" where
  "get_node p m = (case obj_at p m of Some (ONode x) \<Rightarrow> Some x | _ \<Rightarrow> None)"

definition put_node :: "ptr \<Rightarrow> rws_node \<Rightarrow> 'a mem_scheme \<Rightarrow> 'a mem_scheme option" where
  "put_node p x m = do { _ \<leftarrow> get_node p m; Some (set_obj p (ONode x) m) }"

definition get_err :: "ptr \<Rightarrow> 'a mem_scheme \<Rightarrow> rws_error_struct option" where
  "get_err p m = (case obj_at p m of Some (OError e) \<Rightarrow> Some e | _ \<Rightarrow> None)"

definition put_err :: "ptr \<Rightarrow> rws_error_struct \<Rightarrow> 'a mem_scheme \<Rightarrow> 'a mem_scheme option" where
  "put_err p e m = do { _ \<leftarrow> get_err p m; Some (set_obj p (OError e) m) }"

section \<open>Symbolic execution of the primitives\<close>

text \<open>
  Every primitive that changes the heap leaves a state \<open>set_heap B n m\<close>; the rules below merge
  a sequence of primitives into one such update.
\<close>

definition set_heap :: "(nat \<Rightarrow> obj option) \<Rightarrow> nat \<Rightarrow> 'a mem_scheme \<Rightarrow> 'a mem_scheme" where
  "set_heap B n m = m\<lparr>blocks := B, next_blk := n\<rparr>"

lemma set_heap_simps [simp]:
  "blocks (set_heap B n m) = B"
  "next_blk (set_heap B n m) = n"
  "rands (set_heap B n m) = rands m"
  "mem.more (set_heap B n m) = mem.more m"
  "set_heap B' n' (set_heap B n m) = set_heap B' n' m"
  "(set_heap B n m)\<lparr>rands := r\<rparr> = set_heap B n (m\<lparr>rands := r\<rparr>)"
  "set_heap (blocks m) (next_blk m) m = m"
  by (simp_all add: set_heap_def)

lemma alloc_run [run_simps]:
  "alloc x m = (Ptr (next_blk m) 0, set_heap ((blocks m)(next_blk m \<mapsto> x)) (Suc (next_blk m)) m)"
  by (simp add: alloc_def set_heap_def)

lemma fresh_ok_alloc [simp]:
  "fresh_ok m \<Longrightarrow> fresh_ok (set_heap ((blocks m)(next_blk m \<mapsto> x)) (Suc (next_blk m)) m)"
  by (auto simp: fresh_ok_def less_Suc_eq)

lemma ptr_add_0 [simp]: "ptr_add p 0 = p"
  by (cases p) auto

lemma ptr_add_add [simp]: "ptr_add (ptr_add p a) b = ptr_add p (a + b)"
  by (cases p) (auto simp: add.assoc)

lemma ptr_add_eq_NULL [simp]: "ptr_add p n = NULL \<longleftrightarrow> p = NULL"
  by (cases p) auto

lemma rws_malloc_0 [run_simps]: "rws_malloc 0 m = (NULL, m)"
  by (simp add: rws_malloc_def)

lemma rws_malloc_pos [run_simps]: "0 < n \<Longrightarrow> rws_malloc n m = alloc (OBytes (replicate n None)) m"
  by (simp add: rws_malloc_def)

lemma rws_free_NULL [run_simps]: "rws_free NULL m = Some m"
  by (simp add: rws_free_def)

lemma rws_free_live [run_simps]:
  "blocks m b = Some x \<Longrightarrow> rws_free (Ptr b 0) m = Some (set_heap ((blocks m)(b := None)) (next_blk m) m)"
  by (simp add: rws_free_def set_heap_def)

lemma rws_free_bad:
  "blocks m b = None \<Longrightarrow> rws_free (Ptr b off) m = None"
  "0 < off \<Longrightarrow> rws_free (Ptr b off) m = None"
  "rws_free (Lit bs off) m = None"
  by (auto simp: rws_free_def)

lemma get_frame_Ptr [mem_simps]: "get_frame (Ptr b 0) m = Some f \<longleftrightarrow> blocks m b = Some (OFrame f)"
  by (auto simp: get_frame_def obj_at_def split: option.splits obj.splits)

lemma get_node_Ptr [mem_simps]: "get_node (Ptr b 0) m = Some x \<longleftrightarrow> blocks m b = Some (ONode x)"
  by (auto simp: get_node_def obj_at_def split: option.splits obj.splits)

lemma get_err_Ptr [mem_simps]: "get_err (Ptr b 0) m = Some e \<longleftrightarrow> blocks m b = Some (OError e)"
  by (auto simp: get_err_def obj_at_def split: option.splits obj.splits)

lemma obj_at_SomeD: "obj_at p m = Some x \<Longrightarrow> \<exists>b. p = Ptr b 0 \<and> blocks m b = Some x"
  by (auto simp: obj_at_def split: ptr.splits if_splits)

lemma get_err_SomeD: "get_err p m = Some e \<Longrightarrow> \<exists>b. p = Ptr b 0 \<and> blocks m b = Some (OError e)"
  by (auto simp: get_err_def dest: obj_at_SomeD split: option.splits obj.splits)

lemma get_NULL [simp]: "get_frame NULL m = None" "get_node NULL m = None" "get_err NULL m = None"
  by (simp_all add: get_frame_def get_node_def get_err_def obj_at_def)

lemma put_frame_live [run_simps]:
  "blocks m b = Some (OFrame f) \<Longrightarrow>
   put_frame (Ptr b 0) g m = Some (set_heap ((blocks m)(b \<mapsto> OFrame g)) (next_blk m) m)"
  by (simp add: put_frame_def get_frame_def obj_at_def set_obj_def set_heap_def)

lemma put_node_live [run_simps]:
  "blocks m b = Some (ONode x) \<Longrightarrow>
   put_node (Ptr b 0) y m = Some (set_heap ((blocks m)(b \<mapsto> ONode y)) (next_blk m) m)"
  by (simp add: put_node_def get_node_def obj_at_def set_obj_def set_heap_def)

lemma put_err_live [run_simps]:
  "blocks m b = Some (OError e) \<Longrightarrow>
   put_err (Ptr b 0) e' m = Some (set_heap ((blocks m)(b \<mapsto> OError e')) (next_blk m) m)"
  by (simp add: put_err_def get_err_def obj_at_def set_obj_def set_heap_def)

lemma get_frame_live [run_simps]: "blocks m b = Some (OFrame f) \<Longrightarrow> get_frame (Ptr b 0) m = Some f"
  by (simp add: mem_simps)

lemma get_node_live [run_simps]: "blocks m b = Some (ONode x) \<Longrightarrow> get_node (Ptr b 0) m = Some x"
  by (simp add: mem_simps)

lemma get_err_live [run_simps]: "blocks m b = Some (OError e) \<Longrightarrow> get_err (Ptr b 0) m = Some e"
  by (simp add: mem_simps)

subsection \<open>Bytes\<close>

lemma cells_from_block [run_simps]:
  "blocks m b = Some (OBytes cs) \<Longrightarrow> off \<le> length cs \<Longrightarrow> cells_from (Ptr b off) m = Some (drop off cs)"
  by (simp add: cells_from_def)

lemma cells_from_ptr_add:
  "cells_from p m = Some cs \<Longrightarrow> n \<le> length cs \<Longrightarrow> cells_from (ptr_add p n) m = Some (drop n cs)"
  by (auto simp: cells_from_def add.commute simp del: drop_append
      split: ptr.splits option.splits obj.splits if_splits)

lemma load_SomeD: "load p n m = Some cs \<Longrightarrow> length cs = n"
  by (auto simp: load_def Option.bind_eq_Some_conv split: if_splits)

lemma load_bytes_SomeD: "load_bytes p n m = Some bs \<Longrightarrow> length bs = n"
  by (auto simp: load_bytes_def Option.bind_eq_Some_conv dest: load_SomeD length_those)

lemma load_bytes_eq: "load_bytes p n m = Some bs \<longleftrightarrow> load p n m = Some (map Some bs)"
  by (auto simp: load_bytes_def Option.bind_eq_Some_conv those_eq_Some)

lemma load_block [run_simps]:
  "blocks m b = Some (OBytes cs) \<Longrightarrow> off + n \<le> length cs \<Longrightarrow>
   load (Ptr b off) n m = Some (take n (drop off cs))"
  by (simp add: load_def cells_from_block)

lemma load_bytes_block [run_simps]:
  "blocks m b = Some (OBytes cs) \<Longrightarrow> off + n \<le> length cs \<Longrightarrow>
   load_bytes (Ptr b off) n m = those (take n (drop off cs))"
  by (simp add: load_bytes_def load_block)

lemma load_past_end:
  "blocks m b = Some (OBytes cs) \<Longrightarrow> length cs < off + n \<Longrightarrow> load (Ptr b off) n m = None"
  by (auto simp: load_def cells_from_def)

lemma load_bytes_prefix:
  assumes "load_bytes p n m = Some bs" and "k \<le> n"
  shows "load_bytes p k m = Some (take k bs)"
proof -
  from assms(1) obtain cs where cs: "cells_from p m = Some cs" "n \<le> length cs"
      "take n cs = map Some bs"
    by (auto simp: load_bytes_eq load_def Option.bind_eq_Some_conv split: if_splits)
  have "take k cs = take k (take n cs)" using assms(2) by simp
  then show ?thesis
    using cs assms(2) by (simp add: load_bytes_eq load_def take_map)
qed

lemma load_bytes_shift:
  assumes "load_bytes p n m = Some bs" and "i + k \<le> n"
  shows "load_bytes (ptr_add p i) k m = Some (take k (drop i bs))"
proof -
  from assms(1) obtain cs where cs: "cells_from p m = Some cs" "n \<le> length cs"
      "take n cs = map Some bs"
    by (auto simp: load_bytes_eq load_def Option.bind_eq_Some_conv split: if_splits)
  have "take k (drop i cs) = take k (drop i (take n cs))"
    using assms(2) by (simp add: drop_take)
  then have "take k (drop i cs) = map Some (take k (drop i bs))"
    by (simp add: cs(3) drop_map take_map)
  moreover have "cells_from (ptr_add p i) m = Some (drop i cs)"
    using cs assms(2) by (intro cells_from_ptr_add) auto
  ultimately show ?thesis
    using cs(2) assms(2) by (simp add: load_bytes_eq load_def)
qed

lemma rd_byte_bytes:
  assumes "load_bytes p n m = Some bs" and "i < n"
  shows "rd_byte p i m = Some (bs ! i)"
proof -
  from assms obtain cs where cs: "cells_from p m = Some cs" "n \<le> length cs"
      "take n cs = map Some bs"
    by (auto simp: load_bytes_eq load_def Option.bind_eq_Some_conv split: if_splits)
  have "cs ! i = (take n cs) ! i" using assms(2) by simp
  also have "\<dots> = Some (bs ! i)"
    using assms load_bytes_SomeD [OF assms(1)] by (simp add: cs(3))
  finally show ?thesis using cs assms(2) by (simp add: rd_byte_def)
qed

lemma store_block [run_simps]:
  "blocks m b = Some (OBytes cs) \<Longrightarrow> off + length vs \<le> length cs \<Longrightarrow>
   store (Ptr b off) vs m = Some (set_heap ((blocks m)(b \<mapsto>
     OBytes (take off cs @ vs @ drop (off + length vs) cs))) (next_blk m) m)"
  by (simp add: store_def set_heap_def)

text \<open>What was readable stays readable while only newer blocks change.\<close>

lemma cells_from_old:
  assumes "fresh_ok m" and "cells_from p m = Some cs"
    and "\<And>b. b < next_blk m \<Longrightarrow> blocks m' b = blocks m b"
  shows "cells_from p m' = Some cs"
proof (cases p)
  case (Ptr b off)
  with assms(2) have "blocks m b \<noteq> None" by (auto simp: cells_from_def split: option.splits)
  with assms(1) have "b < next_blk m" by (auto simp: fresh_ok_def)
  with Ptr assms(2,3) show ?thesis by (simp add: cells_from_def)
qed (use assms(2) in \<open>auto simp: cells_from_def\<close>)

lemma load_old:
  assumes "fresh_ok m" and "load p n m = Some cs"
    and "\<And>b. b < next_blk m \<Longrightarrow> blocks m' b = blocks m b"
  shows "load p n m' = Some cs"
proof -
  from assms(2) obtain ds where ds: "cells_from p m = Some ds"
      "(if n \<le> length ds then Some (take n ds) else None) = Some cs"
    by (auto simp: load_def Option.bind_eq_Some_conv)
  from cells_from_old [OF assms(1) ds(1) assms(3)] ds(2) show ?thesis by (simp add: load_def)
qed

lemma load_bytes_old:
  assumes "fresh_ok m" and "load_bytes p n m = Some bs"
    and "\<And>b. b < next_blk m \<Longrightarrow> blocks m' b = blocks m b"
  shows "load_bytes p n m' = Some bs"
  using assms load_old [OF assms(1) _ assms(3)] by (auto simp: load_bytes_eq)

lemma load_alloc:
  assumes "fresh_ok m" and "load p n m = Some cs"
  shows "load p n (set_heap ((blocks m)(next_blk m \<mapsto> x)) k m) = Some cs"
  using assms(1,2) by (rule load_old) simp

lemma load_blocks_cong:
  assumes "p = NULL \<or> (\<exists>bs off. p = Lit bs off) \<or> (\<exists>b off. p = Ptr b off \<and> blocks m' b = blocks m b)"
  shows "cells_from p m' = cells_from p m" "load p n m' = load p n m"
    "load_bytes p n m' = load_bytes p n m" "rd_byte p i m' = rd_byte p i m"
proof -
  show *: "cells_from p m' = cells_from p m"
    using assms by (auto simp: cells_from_def split: ptr.splits)
  then show "load p n m' = load p n m" "load_bytes p n m' = load_bytes p n m"
    "rd_byte p i m' = rd_byte p i m"
    by (simp_all add: load_def load_bytes_def rd_byte_def)
qed

section \<open>What an operation leaves alone\<close>

text \<open>
  Operations of the lower layers change only the heap part of a state: every field a larger state
  record adds is unchanged.
\<close>

definition heap_only :: "'a mem_scheme \<Rightarrow> 'a mem_scheme \<Rightarrow> bool" where
  "heap_only m m' \<longleftrightarrow>
     m' = m\<lparr>blocks := blocks m', next_blk := next_blk m', rands := rands m'\<rparr>"

lemma heap_only_more: "heap_only m m' \<longleftrightarrow> mem.more m' = mem.more m"
  by (cases m; cases m') (auto simp: heap_only_def)

lemma heap_only_refl [simp, intro]: "heap_only m m"
  by (simp add: heap_only_more)

lemma heap_only_trans [trans]: "heap_only a b \<Longrightarrow> heap_only b c \<Longrightarrow> heap_only a c"
  by (simp add: heap_only_more)

lemma heap_only_updates [simp]:
  "heap_only m (m'\<lparr>blocks := B\<rparr>) = heap_only m m'"
  "heap_only m (m'\<lparr>next_blk := n\<rparr>) = heap_only m m'"
  "heap_only m (m'\<lparr>rands := r\<rparr>) = heap_only m m'"
  by (simp_all add: heap_only_more)

lemma heap_only_set_heap [simp]: "heap_only m (set_heap B n m') = heap_only m m'"
  by (simp add: heap_only_more)

lemma heap_only_free: "rws_free p m = Some m' \<Longrightarrow> heap_only m m'"
  by (auto simp: rws_free_def split: ptr.splits if_splits)

lemma heap_only_store: "store p vs m = Some m' \<Longrightarrow> heap_only m m'"
  by (auto simp: store_def split: ptr.splits if_splits option.splits obj.splits)

text \<open>
  The leak check of an operation: \<open>live m\<close> is the set of live blocks.
\<close>

definition live :: "'a mem_scheme \<Rightarrow> nat set" where
  "live m = {b. blocks m b \<noteq> None}"

lemma live_upd [simp]:
  "live (m\<lparr>blocks := B\<rparr>) = {b. B b \<noteq> None}"
  "live (m\<lparr>next_blk := n\<rparr>) = live m"
  by (simp_all add: live_def)

lemma rws_free_removes: "rws_free (Ptr b off) m = Some m' \<Longrightarrow> live m' = live m - {b}"
  by (auto simp: rws_free_def live_def split: if_splits)

lemma alloc_adds: "fresh_ok m \<Longrightarrow> alloc x m = (p, m') \<Longrightarrow>
    p = Ptr (next_blk m) 0 \<and> next_blk m \<notin> live m \<and> live m' = insert (next_blk m) (live m) \<and> fresh_ok m'"
  using fresh_unused [of m] by (auto simp: alloc_def live_def fresh_ok_def less_Suc_eq)

text \<open>After a free, every further use of the block is undefined: no double free, no stale read.\<close>

lemma freed_unusable:
  assumes "rws_free (Ptr b 0) m = Some m'"
  shows "rws_free (Ptr b off) m' = None" "load (Ptr b off) n m' = None" "store (Ptr b off) vs m' = None"
    "get_frame (Ptr b off) m' = None" "get_node (Ptr b off) m' = None"
  using assms by (auto simp: rws_free_def load_def cells_from_def store_def get_frame_def get_node_def
      obj_at_def split: if_splits)

section \<open>Concrete states\<close>

text \<open>A heap with the given objects, for the examples: object \<open>i\<close> is block \<open>i\<close>.\<close>

definition heap_of :: "obj list \<Rightarrow> mem" where
  "heap_of xs = \<lparr>blocks = (\<lambda>b. if b < length xs then Some (xs ! b) else None),
     next_blk = length xs, rands = sconst 0\<rparr>"

lemma heap_of_simps [simp]:
  "blocks (heap_of xs) b = (if b < length xs then Some (xs ! b) else None)"
  "next_blk (heap_of xs) = length xs" "rands (heap_of xs) = sconst 0" "fresh_ok (heap_of xs)"
  by (simp_all add: heap_of_def fresh_ok_def)

lemma load_bytes_Lit [simp]: "n \<le> length bs \<Longrightarrow> load_bytes (Lit bs 0) n m = Some (take n bs)"
  by (simp add: load_bytes_eq load_def cells_from_def take_map)

end
