(* ===== verification/Rws_List.thy ===== *)
theory Rws_List
  imports Rws_Memory
begin

text \<open>
  \<open>rws_list.c\<close>: singly linked lists.  The loops follow \<open>next\<close> pointers, so they are partial
  functions; on a well-formed list (\<open>nodes_at\<close>) they are proved to return.
\<close>

section \<open>Operations\<close>

definition rws_list_create :: "'a mem_scheme \<Rightarrow> ptr \<times> 'a mem_scheme" where
  "rws_list_create m = rws_malloc_zero (ONode zero_node) m"

partial_function (option) rws_list_delete :: "ptr \<Rightarrow> 'a mem_scheme \<Rightarrow> 'a mem_scheme option" where
  "rws_list_delete cur m =
     (if cur \<noteq> NULL then do {
        x \<leftarrow> get_node cur m;
        m \<leftarrow> rws_free cur m;
        rws_list_delete (n_next x) m }
      else Some m)"

definition rws_list_delete_clean :: "ptr \<Rightarrow> 'a mem_scheme \<Rightarrow> (ptr \<times> 'a mem_scheme) option" where
  "rws_list_delete_clean list m = do { m \<leftarrow> rws_list_delete list m; Some (NULL, m) }"

text \<open>The loop \<open>while (cur->next) cur = cur->next\<close> of \<open>rws_list_append\<close>.\<close>

partial_function (option) list_last :: "ptr \<Rightarrow> 'a mem_scheme \<Rightarrow> ptr option" where
  "list_last cur m = do {
     x \<leftarrow> get_node cur m;
     if n_next x \<noteq> NULL then list_last (n_next x) m else Some cur }"

definition rws_list_append :: "ptr \<Rightarrow> ptr \<Rightarrow> 'a mem_scheme \<Rightarrow> 'a mem_scheme option" where
  "rws_list_append list v m =
     (if list \<noteq> NULL then do {
        cur \<leftarrow> list_last list m;
        let (p, m) = rws_malloc_zero (ONode zero_node) m;
        x \<leftarrow> get_node cur m;
        m \<leftarrow> put_node cur (x\<lparr>n_next := p\<rparr>) m;
        x \<leftarrow> get_node cur m;
        y \<leftarrow> get_node (n_next x) m;
        put_node (n_next x) (y\<lparr>n_value := v\<rparr>) m }
      else Some m)"

section \<open>Lists in memory\<close>

text \<open>
  \<open>nodes_at B p xs\<close>: from \<open>p\<close>, the chain of nodes in the heap \<open>B\<close> ends with \<open>NULL\<close> and has the
  node blocks and values \<open>xs\<close>.
\<close>

fun nodes_at :: "(nat \<Rightarrow> obj option) \<Rightarrow> ptr \<Rightarrow> (nat \<times> ptr) list \<Rightarrow> bool" where
  "nodes_at B p [] \<longleftrightarrow> p = NULL"
| "nodes_at B p ((b, v) # xs) \<longleftrightarrow> p = Ptr b 0 \<and>
     (case B b of Some (ONode x) \<Rightarrow> n_value x = v \<and> nodes_at B (n_next x) xs | _ \<Rightarrow> False)"

abbreviation node_blks :: "(nat \<times> ptr) list \<Rightarrow> nat set" where
  "node_blks xs \<equiv> fst ` set xs"

lemma nodes_at_Cons: "nodes_at B p ((b, v) # xs) \<longleftrightarrow>
    (\<exists>x. p = Ptr b 0 \<and> B b = Some (ONode x) \<and> n_value x = v \<and> nodes_at B (n_next x) xs)"
  by (auto split: option.splits obj.splits)

declare nodes_at.simps(2) [simp del]
declare nodes_at_Cons [simp]

lemma nodes_at_NULL [simp]: "nodes_at B NULL xs \<longleftrightarrow> xs = []"
  by (cases xs) auto

lemma nodes_at_cong:
  "(\<And>b. b \<in> node_blks xs \<Longrightarrow> B' b = B b) \<Longrightarrow> nodes_at B' p xs = nodes_at B p xs"
  by (induction xs arbitrary: p) auto

lemma nodes_at_live: "nodes_at B p xs \<Longrightarrow> b \<in> node_blks xs \<Longrightarrow> B b \<noteq> None"
proof (induction xs arbitrary: p)
  case (Cons x xs)
  then show ?case by (cases x) auto
qed simp

lemma nodes_at_unique: "nodes_at B p xs \<Longrightarrow> nodes_at B p ys \<Longrightarrow> xs = ys"
proof (induction xs arbitrary: p ys)
  case Nil then show ?case by (cases ys) auto
next
  case (Cons x xs)
  then show ?case by (cases x; cases ys) auto
qed

lemma nodes_at_suffix: "nodes_at B p (xs @ (b, v) # ys) \<Longrightarrow> nodes_at B (Ptr b 0) ((b, v) # ys)"
proof (induction xs arbitrary: p)
  case (Cons x xs)
  then show ?case by (cases x) auto
qed auto

lemma nodes_at_distinct: "nodes_at B p xs \<Longrightarrow> distinct (map fst xs)"
proof (induction xs arbitrary: p)
  case (Cons x xs)
  obtain b v where x: "x = (b, v)" by (cases x)
  have "b \<notin> node_blks xs"
  proof
    assume "b \<in> node_blks xs"
    then obtain ys w zs where "xs = ys @ (b, w) # zs" by (auto dest!: split_list)
    with Cons.prems x have "nodes_at B (Ptr b 0) ((b, w) # zs)"
      using nodes_at_suffix [of B p "x # ys" b w zs] by simp
    moreover have "nodes_at B (Ptr b 0) (x # xs)" using Cons.prems x by simp
    ultimately have "x # xs = (b, w) # zs" by (metis nodes_at_unique)
    with \<open>xs = ys @ (b, w) # zs\<close> show False by simp
  qed
  moreover have "distinct (map fst xs)"
    using Cons x by (auto split: option.splits obj.splits)
  ultimately show ?case using x by simp
qed simp

section \<open>Behaviour\<close>

lemma list_last_run: "nodes_at (blocks m) p (xs @ [(b, v)]) \<Longrightarrow> list_last p m = Some (Ptr b 0)"
proof (induction xs arbitrary: p)
  case Nil
  then show ?case
    by (subst list_last.simps) (auto simp: run_simps)
next
  case (Cons x xs)
  obtain c w where x: "x = (c, w)" by (cases x)
  from Cons.prems x obtain n where n: "p = Ptr c 0" "blocks m c = Some (ONode n)"
      "nodes_at (blocks m) (n_next n) (xs @ [(b, v)])"
    by (auto split: option.splits obj.splits)
  then have "n_next n \<noteq> NULL" by auto
  with n Cons.IH show ?case by (subst list_last.simps) (simp add: run_simps)
qed

lemma nodes_at_snoc:
  assumes "nodes_at B p (xs @ [(b, v)])" and "c \<notin> node_blks (xs @ [(b, v)])"
    and "B' b = Some (ONode \<lparr>n_value = v, n_next = Ptr c 0\<rparr>)"
    and "B' c = Some (ONode \<lparr>n_value = w, n_next = NULL\<rparr>)"
    and "\<And>a. a \<noteq> b \<Longrightarrow> a \<noteq> c \<Longrightarrow> B' a = B a"
  shows "nodes_at B' p (xs @ [(b, v), (c, w)])"
  using assms(1,2)
proof (induction xs arbitrary: p)
  case Nil
  then show ?case using assms(3,4) by simp
next
  case (Cons x xs)
  obtain a u where x: "x = (a, u)" by (cases x)
  have "a \<noteq> b" using nodes_at_distinct [OF Cons.prems(1)] x by auto
  with Cons x assms(5) show ?case by (auto split: option.splits obj.splits)
qed

lemma nodes_at_last: "nodes_at B p (xs @ [(b, v)]) \<Longrightarrow> B b = Some (ONode \<lparr>n_value = v, n_next = NULL\<rparr>)"
proof (induction xs arbitrary: p)
  case Nil
  then show ?case by (auto intro!: rws_node.equality)
next
  case (Cons x xs)
  then show ?case by (cases x) (auto split: option.splits obj.splits)
qed

text \<open>
  Appending to a non-empty list adds one node at the end: the other nodes keep their order and
  values, and only the last node and the new block change.
\<close>

lemma rws_list_append_run:
  assumes fresh: "fresh_ok m" and nodes: "nodes_at (blocks m) p (xs @ [(b, v)])"
  shows "rws_list_append p w m = Some (set_heap ((blocks m)
      (b \<mapsto> ONode \<lparr>n_value = v, n_next = Ptr (next_blk m) 0\<rparr>,
       next_blk m \<mapsto> ONode \<lparr>n_value = w, n_next = NULL\<rparr>)) (Suc (next_blk m)) m)"
    and "nodes_at ((blocks m)
      (b \<mapsto> ONode \<lparr>n_value = v, n_next = Ptr (next_blk m) 0\<rparr>,
       next_blk m \<mapsto> ONode \<lparr>n_value = w, n_next = NULL\<rparr>)) p (xs @ [(b, v), (next_blk m, w)])"
proof -
  have new: "a \<noteq> next_blk m" if "a \<in> node_blks (xs @ [(b, v)])" for a
    using nodes_at_live [OF nodes that] fresh by (auto simp: fresh_ok_def)
  then have nb: "next_blk m \<noteq> b" by auto
  have p: "p \<noteq> NULL" using nodes by auto
  have b: "blocks m b = Some (ONode \<lparr>n_value = v, n_next = NULL\<rparr>)"
    using nodes by (rule nodes_at_last)
  show "rws_list_append p w m = Some (set_heap ((blocks m)
      (b \<mapsto> ONode \<lparr>n_value = v, n_next = Ptr (next_blk m) 0\<rparr>,
       next_blk m \<mapsto> ONode \<lparr>n_value = w, n_next = NULL\<rparr>)) (Suc (next_blk m)) m)"
    using p b nb list_last_run [OF nodes]
    by (simp add: rws_list_append_def rws_malloc_zero_def run_simps fun_upd_twist)
       (simp add: zero_node_def)
  show "nodes_at ((blocks m)
      (b \<mapsto> ONode \<lparr>n_value = v, n_next = Ptr (next_blk m) 0\<rparr>,
       next_blk m \<mapsto> ONode \<lparr>n_value = w, n_next = NULL\<rparr>)) p (xs @ [(b, v), (next_blk m, w)])"
    using new nb by (intro nodes_at_snoc [OF nodes]) auto
qed

text \<open>Deleting a list releases its nodes and nothing else, and always ends.\<close>

lemma rws_list_delete_run:
  "nodes_at (blocks m) p xs \<Longrightarrow>
   rws_list_delete p m = Some (set_heap (\<lambda>b. if b \<in> node_blks xs then None else blocks m b) (next_blk m) m)"
proof (induction xs arbitrary: p m)
  case Nil
  then show ?case by (subst rws_list_delete.simps) simp
next
  case (Cons x xs)
  obtain b v where x: "x = (b, v)" by (cases x)
  from Cons.prems x obtain n where n: "p = Ptr b 0" "blocks m b = Some (ONode n)"
      "nodes_at (blocks m) (n_next n) xs"
    by (auto split: option.splits obj.splits)
  let ?m = "set_heap ((blocks m)(b := None)) (next_blk m) m"
  have "b \<notin> node_blks xs" using nodes_at_distinct [OF Cons.prems] x by auto
  then have "nodes_at (blocks ?m) (n_next n) xs" using n(3) by (subst nodes_at_cong) auto
  then have "rws_list_delete (n_next n) ?m =
      Some (set_heap (\<lambda>a. if a \<in> node_blks xs then None else blocks ?m a) (next_blk m) m)"
    using Cons.IH [of ?m "n_next n"] by (simp only: set_heap_simps)
  moreover have "(\<lambda>a. if a \<in> node_blks xs then None else blocks ?m a) =
      (\<lambda>a. if a \<in> node_blks (x # xs) then None else blocks m a)"
    using x by (auto simp: fun_eq_iff)
  ultimately show ?case using n x by (subst rws_list_delete.simps) (simp add: run_simps)
qed

section \<open>Property\<close>

text \<open>Lists neither lose nor leak nodes: appending a value to a list and deleting the list releases
  exactly the nodes of the list and the new one, and changes no other block.\<close>

lemma list_append_delete:
  assumes "fresh_ok m" and "nodes_at (blocks m) p xs" and "xs \<noteq> []"
  shows "\<exists>m' m'' b. rws_list_append p v m = Some m' \<and> nodes_at (blocks m') p (xs @ [(b, v)]) \<and>
    rws_list_delete_clean p m' = Some (NULL, m'') \<and>
    blocks m'' = (\<lambda>k. if k \<in> node_blks xs then None else blocks m k)"
proof -
  obtain ys b w where xs: "xs = ys @ [(b, w)]" using assms(3) by (cases xs rule: rev_cases) auto
  note run = rws_list_append_run [OF assms(1) assms(2) [unfolded xs], of v]
  have none: "blocks m (next_blk m) = None" by (rule fresh_unused [OF assms(1)])
  define m' where "m' = set_heap ((blocks m)(b \<mapsto> ONode \<lparr>n_value = w, n_next = Ptr (next_blk m) 0\<rparr>,
       next_blk m \<mapsto> ONode \<lparr>n_value = v, n_next = NULL\<rparr>)) (Suc (next_blk m)) m"
  have at: "nodes_at (blocks m') p (xs @ [(next_blk m, v)])" using run(2) by (simp add: m'_def xs)
  have "(\<lambda>k. if k \<in> node_blks (xs @ [(next_blk m, v)]) then None else blocks m' k) =
      (\<lambda>k. if k \<in> node_blks xs then None else blocks m k)"
    using none by (auto simp: fun_eq_iff m'_def xs)
  then have "rws_list_delete_clean p m' = Some (NULL, set_heap (\<lambda>k. if k \<in> node_blks xs then None else blocks m k) (next_blk m') m')"
    using rws_list_delete_run [OF at] by (simp add: rws_list_delete_clean_def)
  with run(1) at show ?thesis unfolding m'_def [symmetric]
    by (intro exI [of _ m'] exI [of _ "set_heap (\<lambda>k. if k \<in> node_blks xs then None else blocks m k) (next_blk m') m'"]) auto
qed

end
