(* ===== verification/Rws_Frame.thy ===== *)
theory Rws_Frame
  imports Rws_List
begin

text \<open>
  \<open>rws_frame.c\<close>: the C functions of the WebSocket frame codec over the heap.  What they compute
  is stated and proved in the theory \<open>Rws_Wire\<close>.
\<close>

section \<open>Operations\<close>

subsection \<open>Header fields of a received frame\<close>

text \<open>The statements \<open>header_size = is_masked ? 6 : 2\<close> and the first \<open>switch (payload)\<close>.\<close>

definition recv_header_size :: "u8 \<Rightarrow> u32 \<Rightarrow> u32" where
  "recv_header_size is_masked payload =
     (let header_size = (if is_masked \<noteq> 0 then 6 else 2)
      in if payload = 126 then header_size + 2
         else if payload = 127 then header_size + 8
         else header_size)"

text \<open>The second \<open>switch (payload)\<close>: \<open>expected_size\<close>.\<close>

definition recv_expected_size :: "ptr \<Rightarrow> u32 \<Rightarrow> 'a mem_scheme \<Rightarrow> u32 option" where
  "recv_expected_size udata payload m =
     (if payload = 126 then do {
        b2 \<leftarrow> rd_byte udata 2 m;
        b3 \<leftarrow> rd_byte udata 3 m;
        Some (push_bit 8 (ucast b2) OR ucast b3) }
      else if payload = 127 then do {
        b6 \<leftarrow> rd_byte udata 6 m;
        b7 \<leftarrow> rd_byte udata 7 m;
        b8 \<leftarrow> rd_byte udata 8 m;
        b9 \<leftarrow> rd_byte udata 9 m;
        Some (push_bit 24 (ucast b6) OR push_bit 16 (ucast b7) OR push_bit 8 (ucast b8) OR ucast b9) }
      else if payload \<le> 125 then Some payload
      else Some 0)"

text \<open>The \<open>mask_pos\<close> assignments of the same switch.\<close>

definition recv_mask_pos :: "u32 \<Rightarrow> nat" where
  "recv_mask_pos payload =
     (if payload = 126 then 4 else if payload = 127 then 10 else if payload \<le> 125 then 2 else 0)"

definition rws_check_recv_frame_size :: "ptr \<Rightarrow> nat \<Rightarrow> 'a mem_scheme \<Rightarrow> nat option" where
  "rws_check_recv_frame_size data data_size m =
     (if data \<noteq> NULL \<and> 2 \<le> data_size then do {
        b1 \<leftarrow> rd_byte data 1 m;
        let is_masked = drop_bit 7 b1 AND 0x01;
        let payload = (ucast b1 :: u32) AND 0x7f;
        let header_size = recv_header_size is_masked payload;
        if data_size < unat header_size then Some 0
        else do {
          expected_size \<leftarrow> recv_expected_size data payload m;
          let nPackSize = expected_size + header_size;
          Some (if unat nPackSize \<le> data_size then unat nPackSize else 0) } }
      else Some 0)"

subsection \<open>Creation and release\<close>

text \<open>
  \<open>rand()\<close> yields numbers up to \<open>RAND_MAX\<close> (2147483647 in glibc).  The product is an \<open>int\<close>
  product that may exceed the range of \<open>int\<close>, which C leaves undefined; the model takes the wrap-around
  of the compilers the library is built with.  Its conversion to \<open>unsigned int\<close> and the layout of the
  union (little-endian) give the four mask bytes.
\<close>

definition RAND_MAX :: nat where
  "RAND_MAX = 2147483647"

definition rand_mask :: "nat \<Rightarrow> nat \<Rightarrow> u8 list" where
  "rand_mask r1 r2 = le_bytes (word_of_nat ((r1 div (RAND_MAX div 2) + 1) * r2))"

definition rws_frame_create :: "'a mem_scheme \<Rightarrow> ptr \<times> 'a mem_scheme" where
  "rws_frame_create m =
     (let r1 = shd (rands m);
          r2 = shd (stl (rands m))
      in rws_malloc_zero (OFrame (zero_frame\<lparr>f_mask := rand_mask r1 r2\<rparr>))
           (m\<lparr>rands := stl (stl (rands m))\<rparr>))"

definition rws_frame_delete :: "ptr \<Rightarrow> 'a mem_scheme \<Rightarrow> 'a mem_scheme option" where
  "rws_frame_delete f m =
     (if f \<noteq> NULL then do {
        x \<leftarrow> get_frame f m;
        m \<leftarrow> rws_free (f_data x) m;
        rws_free f m }
      else Some m)"

definition rws_frame_delete_clean :: "ptr \<Rightarrow> 'a mem_scheme \<Rightarrow> (ptr \<times> 'a mem_scheme) option" where
  "rws_frame_delete_clean f m = do { m \<leftarrow> rws_frame_delete f m; Some (NULL, m) }"

subsection \<open>Receiving\<close>

text \<open>The loop \<open>for (index = 0; index < size; index++) *p ^= mask[index & 0x3]\<close>, from \<open>index\<close> on.\<close>

fun xor_loop :: "u8 list \<Rightarrow> nat \<Rightarrow> u8 list \<Rightarrow> u8 list" where
  "xor_loop key index [] = []"
| "xor_loop key index (b # bs) = (b XOR key ! (index AND 3)) # xor_loop key (index + 1) bs"

text \<open>The fields set from the header: opcode, final flag, header size and mask.\<close>

definition recv_frame_header ::
    "ptr \<Rightarrow> ptr \<Rightarrow> rws_opcode \<Rightarrow> u8 \<Rightarrow> u8 \<Rightarrow> nat \<Rightarrow> u32 \<Rightarrow> 'a mem_scheme \<Rightarrow> 'a mem_scheme option" where
  "recv_frame_header frame data opcode is_finshd is_masked mask_pos header_size m = do {
     f \<leftarrow> get_frame frame m;
     let f = f\<lparr>f_opcode := opcode\<rparr>;
     let f = (if is_finshd \<noteq> 0 then f\<lparr>f_is_finished := True\<rparr> else f);
     let f = f\<lparr>f_header_size := ucast header_size\<rparr>;
     if is_masked \<noteq> 0 then do {
       key \<leftarrow> load_bytes (ptr_add data mask_pos) 4 m;
       put_frame frame (f\<lparr>f_is_masked := True, f_mask := key\<rparr>) m }
     else put_frame frame f m }"

text \<open>The payload, unmasked while it is copied.\<close>

definition recv_frame_data ::
    "ptr \<Rightarrow> ptr \<Rightarrow> u8 \<Rightarrow> u8 \<Rightarrow> u32 \<Rightarrow> u32 \<Rightarrow> 'a mem_scheme \<Rightarrow> 'a mem_scheme option" where
  "recv_frame_data frame data is_finshd is_masked header_size expected_size m = do {
     f \<leftarrow> get_frame frame m;
     let f = (if is_finshd = 0 then f\<lparr>f_is_finished := False\<rparr> else f);
     if 0 < expected_size then do {
       let (d, m) = rws_malloc (unat expected_size) m;
       m \<leftarrow> put_frame frame (f\<lparr>f_data := d, f_data_size := unat expected_size\<rparr>) m;
       let actual_udata = ptr_add data (unat header_size);
       if is_masked \<noteq> 0 then do {
         bs \<leftarrow> load_bytes actual_udata (unat expected_size) m;
         store d (map Some (xor_loop (f_mask f) 0 bs)) m }
       else memcpy d actual_udata (unat expected_size) m }
     else put_frame frame f m }"

definition rws_frame_create_with_recv_data ::
    "ptr \<Rightarrow> nat \<Rightarrow> 'a mem_scheme \<Rightarrow> (ptr \<times> 'a mem_scheme) option" where
  "rws_frame_create_with_recv_data data data_size m =
     (if data \<noteq> NULL \<and> 2 \<le> data_size then do {
        b0 \<leftarrow> rd_byte data 0 m;
        b1 \<leftarrow> rd_byte data 1 m;
        let opcode = (ucast (b0 AND 0x0f) :: rws_opcode);
        let is_finshd = drop_bit 7 b0 AND 0x01;
        let is_masked = drop_bit 7 b1 AND 0x01;
        let payload = (ucast b1 :: u32) AND 0x7f;
        let header_size = recv_header_size is_masked payload;
        if data_size < unat header_size then Some (NULL, m)
        else do {
          expected_size \<leftarrow> recv_expected_size data payload m;
          let mask_pos = recv_mask_pos payload;
          let (frame, m) = rws_frame_create m;
          m \<leftarrow> recv_frame_header frame data opcode is_finshd is_masked mask_pos header_size m;
          if opcode = rws_opcode_connection_close \<or> opcode = rws_opcode_pong
          then Some (frame, m)
          else do {
            m \<leftarrow> recv_frame_data frame data is_finshd is_masked header_size expected_size m;
            Some (frame, m) } } }
      else Some (NULL, m))"

subsection \<open>Sending\<close>

text \<open>
  \<open>rws_frame_create_header\<close> writes into the caller's \<open>header\<close> array; the model returns the bytes
  written, in order, and the frame with its \<open>header_size\<close>.
\<close>

definition rws_frame_create_header :: "rws_frame \<Rightarrow> nat \<Rightarrow> u8 list \<times> rws_frame" where
  "rws_frame_create_header f data_size =
     (let size = (word_of_nat data_size :: u32);
          mbit = (if f_is_masked f then 0x80 else 0 :: u32);
          first = (ucast (0x80 OR f_opcode f) :: u8);
          (header, f) =
            (if size < 126 then
               ([first, ucast ((size AND 0xff) OR mbit)], f\<lparr>f_header_size := 2\<rparr>)
             else if size < 65536 then
               ([first, ucast (126 OR mbit), ucast (drop_bit 8 size AND 0xff), ucast (size AND 0xff)],
                f\<lparr>f_header_size := 4\<rparr>)
             else
               ([first, ucast (127 OR mbit), 0, 0, 0, 0,
                 ucast (drop_bit 24 size AND 0xff), ucast (drop_bit 16 size AND 0xff),
                 ucast (drop_bit 8 size AND 0xff), ucast (size AND 0xff)],
                f\<lparr>f_header_size := 10\<rparr>))
      in if f_is_masked f
         then (header @ f_mask f, f\<lparr>f_header_size := f_header_size f + 4\<rparr>)
         else (header, f))"

definition rws_frame_fill_with_send_data ::
    "ptr \<Rightarrow> ptr \<Rightarrow> nat \<Rightarrow> 'a mem_scheme \<Rightarrow> 'a mem_scheme option" where
  "rws_frame_fill_with_send_data fp data data_size m = do {
     f \<leftarrow> get_frame fp m;
     let (header, f) = rws_frame_create_header f data_size;
     let f = f\<lparr>f_data_size := data_size + unat (f_header_size f)\<rparr>;
     let (d, m) = rws_malloc (f_data_size f) m;
     let f = f\<lparr>f_data := d\<rparr>;
     m \<leftarrow> put_frame fp f m;
     m \<leftarrow> store d (map Some (take (unat (f_header_size f)) header)) m;
     m \<leftarrow> (if data \<noteq> NULL then do {
             let frame = ptr_add d (unat (f_header_size f));
             m \<leftarrow> memcpy frame data data_size m;
             if f_is_masked f then do {
               bs \<leftarrow> load_bytes frame data_size m;
               store frame (map Some (xor_loop (f_mask f) 0 bs)) m }
             else Some m }
           else Some m);
     f \<leftarrow> get_frame fp m;
     put_frame fp (f\<lparr>f_is_finished := True\<rparr>) m }"

subsection \<open>Combining fragments\<close>

text \<open>
  \<open>comb_data\<close> is advanced by \<open>to->data_size\<close> before it is stored in \<open>to->data\<close>: the pointer
  kept is the one past the first part.
\<close>

definition rws_frame_combine_datas :: "ptr \<Rightarrow> ptr \<Rightarrow> 'a mem_scheme \<Rightarrow> 'a mem_scheme option" where
  "rws_frame_combine_datas to from m = do {
     t \<leftarrow> get_frame to m;
     r \<leftarrow> get_frame from m;
     let (comb_data, m) = rws_malloc (f_data_size t + f_data_size r) m;
     (comb_data, m) \<leftarrow> (if comb_data \<noteq> NULL then do {
         m \<leftarrow> (if f_data t \<noteq> NULL \<and> f_data_size t \<noteq> 0
               then memcpy comb_data (f_data t) (f_data_size t) m else Some m);
         let comb_data = ptr_add comb_data (f_data_size t);
         m \<leftarrow> (if f_data r \<noteq> NULL \<and> f_data_size r \<noteq> 0
               then memcpy comb_data (f_data r) (f_data_size r) m else Some m);
         Some (comb_data, m) }
       else Some (comb_data, m));
     m \<leftarrow> rws_free (f_data t) m;
     put_frame to (t\<lparr>f_data := comb_data, f_data_size := f_data_size t + f_data_size r\<rparr>) m }"

end
