(* ===== verification/Rws_Wire.thy ===== *)
theory Rws_Wire
  imports Rws_Frame
begin

text \<open>
  The WebSocket wire format over byte lists and numbers, and the lemmas that the functions of
  \<open>rws_frame.c\<close> (theory \<open>Rws_Frame\<close>) compute exactly that format inside the bounds of their
  buffers: the frame-size check, the construction of a received frame, the header and buffer of a
  frame to send, the release of a frame and the combination of fragments.
\<close>

section \<open>The wire format\<close>

text \<open>
  RFC 6455 over byte lists and numbers: the second byte holds the mask bit and a 7-bit length;
  126 and 127 announce a 16-bit and a 64-bit length.  The receiver uses the low 32 bits of the
  latter (\<open>low_len\<close>); \<open>rfc_len\<close> is the announced length.
\<close>

definition masked_bit :: "u8 list \<Rightarrow> bool" where
  "masked_bit bs \<longleftrightarrow> 128 \<le> unat (bs ! 1)"

definition len7 :: "u8 list \<Rightarrow> nat" where
  "len7 bs = unat (bs ! 1) mod 128"

definition hdr_len :: "u8 list \<Rightarrow> nat" where
  "hdr_len bs = (if masked_bit bs then 6 else 2) +
     (if len7 bs = 126 then 2 else if len7 bs = 127 then 8 else 0)"

fun be_nat :: "u8 list \<Rightarrow> nat" where
  "be_nat [] = 0"
| "be_nat (b # bs) = unat b * 256 ^ length bs + be_nat bs"

definition low_len :: "u8 list \<Rightarrow> nat" where
  "low_len bs = (if len7 bs = 126 then be_nat (take 2 (drop 2 bs))
     else if len7 bs = 127 then be_nat (take 4 (drop 6 bs)) else len7 bs)"

definition rfc_len :: "u8 list \<Rightarrow> nat" where
  "rfc_len bs = (if len7 bs = 126 then be_nat (take 2 (drop 2 bs))
     else if len7 bs = 127 then be_nat (take 8 (drop 2 bs)) else len7 bs)"

text \<open>What \<open>rws_check_recv_frame_size\<close> computes of the bytes received so far.\<close>

definition check_size :: "u8 list \<Rightarrow> nat" where
  "check_size bs =
     (if length bs < 2 \<or> length bs < hdr_len bs then 0
      else let t = (low_len bs + hdr_len bs) mod 2 ^ 32 in if t \<le> length bs then t else 0)"

definition mask_at :: "u8 list \<Rightarrow> u8 list" where
  "mask_at bs = take 4 (drop (hdr_len bs - 4) bs)"

definition payload_at :: "u8 list \<Rightarrow> u8 list" where
  "payload_at bs =
     (let raw = take (low_len bs) (drop (hdr_len bs) bs)
      in if masked_bit bs then xor_loop (mask_at bs) 0 raw else raw)"

subsection \<open>Numbers of the format\<close>

lemma len7_less [simp]: "len7 bs < 128"
  by (simp add: len7_def)

lemma hdr_len_bounds: "2 \<le> hdr_len bs" "hdr_len bs \<le> 14" "masked_bit bs \<Longrightarrow> 6 \<le> hdr_len bs"
  by (auto simp: hdr_len_def)

lemma be_nat_less: "be_nat bs < 256 ^ length bs"
proof (induction bs)
  case (Cons b bs)
  have "unat b * 256 ^ length bs + be_nat bs < unat b * 256 ^ length bs + 256 ^ length bs"
    using Cons.IH by simp
  also have "\<dots> = Suc (unat b) * 256 ^ length bs" by simp
  also have "\<dots> \<le> 256 * 256 ^ length bs"
    using unat_u8_less [of b] by (intro mult_le_mono1) simp
  finally show ?case by simp
qed simp

lemma be_nat_append: "be_nat (xs @ ys) = be_nat xs * 256 ^ length ys + be_nat ys"
  by (induction xs) (auto simp: algebra_simps power_add)

lemma low_len_rfc: "low_len bs = rfc_len bs mod 2 ^ 32" if "14 \<le> length bs \<or> hdr_len bs \<le> length bs"
proof (cases "len7 bs = 127")
  case True
  with that have "10 \<le> length bs" by (auto simp: hdr_len_def split: if_splits)
  then have "take 8 (drop 2 bs) = take 4 (drop 2 bs) @ take 4 (drop 6 bs)"
    using take_add [of 4 4 "drop 2 bs"] by simp
  moreover have "be_nat (take 4 (drop 6 bs)) < 2 ^ 32"
    using be_nat_less [of "take 4 (drop 6 bs)"] \<open>10 \<le> length bs\<close> by simp
  ultimately show ?thesis
    using True \<open>10 \<le> length bs\<close> by (simp add: low_len_def rfc_len_def be_nat_append)
next
  case False
  have "be_nat (take 2 (drop 2 bs)) < 2 ^ 32"
    using be_nat_less [of "take 2 (drop 2 bs)"]
      power_increasing [of "length (take 2 (drop 2 bs))" 2 "256 :: nat"]
    by simp
  moreover have "len7 bs < 2 ^ 32" by (rule less_trans [OF len7_less]) simp
  ultimately show ?thesis using False by (simp add: low_len_def rfc_len_def)
qed

lemma low_len_less: "low_len bs < 2 ^ 32"
proof -
  have "be_nat (take n (drop k bs)) < 2 ^ 32" if "n \<le> 4" for n k
  proof -
    have "be_nat (take n (drop k bs)) < 256 ^ length (take n (drop k bs))" by (rule be_nat_less)
    also have "\<dots> \<le> 256 ^ 4" using that by (intro power_increasing) auto
    finally show ?thesis by simp
  qed
  moreover have "len7 bs < 2 ^ 32" by (rule less_trans [OF len7_less]) simp
  ultimately show ?thesis by (simp add: low_len_def)
qed

subsection \<open>The header reads compute the format\<close>

lemma nth_take_drop2:
  "k + 2 \<le> length bs \<Longrightarrow> take 2 (drop k bs) = [bs ! k, bs ! (k + 1)]"
  by (simp add: list_eq_iff_nth_eq nth_Cons split: nat.splits)

lemma nth_take_drop4:
  "k + 4 \<le> length bs \<Longrightarrow> take 4 (drop k bs) = [bs ! k, bs ! (k + 1), bs ! (k + 2), bs ! (k + 3)]"
  by (simp add: list_eq_iff_nth_eq nth_Cons split: nat.splits)
     (auto simp: less_Suc_eq numeral_eq_Suc)

lemma payload_cases [simp]:
  "((ucast (b :: u8) :: u32) AND 0x7f = 126) = (unat b mod 128 = 126)"
  "((ucast b :: u32) AND 0x7f = 127) = (unat b mod 128 = 127)"
  "((ucast b :: u32) AND 0x7f \<le> 125) = (unat b mod 128 \<le> 125)"
  by (simp_all add: word_unat_eq_iff word_le_nat_alt del: unat_and_7f)
     (simp_all only: unat_and_7f)

lemma recv_header_size_run:
  "unat (recv_header_size (drop_bit 7 (bs ! Suc 0) AND 0x01) (ucast (bs ! Suc 0) AND 0x7f)) = hdr_len bs"
  by (simp add: recv_header_size_def bit7 hdr_len_def masked_bit_def len7_def)

lemma recv_expected_size_run:
  assumes "load_bytes p n m = Some bs" and "2 \<le> n" and "hdr_len bs \<le> n"
  obtains w where "recv_expected_size p (ucast (bs ! 1) AND 0x7f) m = Some w" and "unat w = low_len bs"
proof -
  have len: "length bs = n" using assms(1) by (rule load_bytes_SomeD)
  note rd = rd_byte_bytes [OF assms(1)]
  consider "len7 bs = 126" | "len7 bs = 127" | "len7 bs \<le> 125" using len7_less [of bs] by linarith
  then show thesis
  proof cases
    case 1
    then have "4 \<le> n" using assms(3) by (auto simp: hdr_len_def split: if_splits)
    with 1 rd show thesis
      by (intro that [of "push_bit 8 (ucast (bs ! 2)) OR ucast (bs ! 3)"])
         (simp_all add: recv_expected_size_def low_len_def unat_be16 nth_take_drop2 len len7_def
           numeral_3_eq_3)
  next
    case 2
    then have "10 \<le> n" using assms(3) by (auto simp: hdr_len_def split: if_splits)
    with 2 rd show thesis
      by (intro that [of "push_bit 24 (ucast (bs ! 6)) OR push_bit 16 (ucast (bs ! 7)) OR
            push_bit 8 (ucast (bs ! 8)) OR ucast (bs ! 9)"])
         (simp_all add: recv_expected_size_def low_len_def unat_be32 nth_take_drop4 len len7_def)
  next
    case 3
    then show thesis
      by (intro that [of "ucast (bs ! 1) AND 0x7f"])
         (simp_all add: recv_expected_size_def low_len_def len7_def)
  qed
qed

text \<open>
  The frame-size check is exact: on readable data it computes \<open>check_size\<close> of the bytes, for
  every input.
\<close>

lemma check_recv_frame_size_run:
  assumes "load_bytes p n m = Some bs"
  shows "rws_check_recv_frame_size p n m = Some (check_size bs)"
proof -
  have len: "length bs = n" using assms by (rule load_bytes_SomeD)
  have p: "p \<noteq> NULL" using assms by (auto simp: load_bytes_def load_def cells_from_def)
  show ?thesis
  proof (cases "2 \<le> n \<and> hdr_len bs \<le> n")
    case True
    then obtain w where w: "recv_expected_size p (ucast (bs ! 1) AND 0x7f) m = Some w"
        "unat w = low_len bs"
      using assms by (auto elim: recv_expected_size_run)
    have "unat (w + recv_header_size (drop_bit 7 (bs ! 1) AND 0x01) (ucast (bs ! 1) AND 0x7f))
        = (low_len bs + hdr_len bs) mod 2 ^ 32"
      by (simp add: unat_word_ariths w(2) recv_header_size_run)
    with True p w(1) rd_byte_bytes [OF assms, of 1] len show ?thesis
      by (simp add: rws_check_recv_frame_size_def check_size_def recv_header_size_run Let_def)
  next
    case False
    with p rd_byte_bytes [OF assms, of 1] len show ?thesis
      by (auto simp: rws_check_recv_frame_size_def check_size_def recv_header_size_run Let_def)
  qed
qed

lemma check_recv_frame_size_NULL [run_simps]: "rws_check_recv_frame_size NULL n m = Some 0"
  by (simp add: rws_check_recv_frame_size_def)

subsection \<open>The receiver builds the frame the bytes describe\<close>

text \<open>The frame object for received bytes, with data pointer and size still to be given.\<close>

definition recv_frame :: "u8 list \<Rightarrow> 'a mem_scheme \<Rightarrow> rws_frame" where
  "recv_frame bs m = \<lparr>f_data = NULL, f_data_size = 0, f_opcode = ucast (bs ! 0 AND 0x0f),
     f_mask = (if masked_bit bs then mask_at bs else rand_mask (shd (rands m)) (shd (stl (rands m)))),
     f_is_masked = masked_bit bs, f_is_finished = (128 \<le> unat (bs ! 0)),
     f_header_size = of_nat (hdr_len bs)\<rparr>"

definition skip_rands :: "'a mem_scheme \<Rightarrow> 'a mem_scheme" where
  "skip_rands m = m\<lparr>rands := stl (stl (rands m))\<rparr>"

lemma skip_rands_simps [simp]:
  "blocks (skip_rands m) = blocks m" "next_blk (skip_rands m) = next_blk m"
  "mem.more (skip_rands m) = mem.more m" "fresh_ok (skip_rands m) = fresh_ok m"
  "heap_only m (skip_rands m') = heap_only m m'"
  "skip_rands (set_heap B n m) = set_heap B n (skip_rands m)"
  by (simp_all add: skip_rands_def fresh_ok_def)

lemma rws_frame_create_run [run_simps]:
  "rws_frame_create m = (Ptr (next_blk m) 0,
     set_heap ((blocks m)(next_blk m \<mapsto>
       OFrame (zero_frame\<lparr>f_mask := rand_mask (shd (rands m)) (shd (stl (rands m)))\<rparr>)))
       (Suc (next_blk m)) (skip_rands m))"
  by (simp add: rws_frame_create_def rws_malloc_zero_def alloc_run skip_rands_def)

lemma xor_loop_length [simp]: "length (xor_loop key i bs) = length bs"
  by (induction bs arbitrary: i) auto

text \<open>Masking twice with the same key gives the bytes back.\<close>

lemma xor_loop_twice: "xor_loop key i (xor_loop key i bs) = bs"
  by (induction bs arbitrary: i) auto

abbreviation (input) carries_data :: "u8 list \<Rightarrow> bool" where
  "carries_data bs \<equiv> unat (bs ! 0) mod 16 \<notin> {8, 10} \<and> 0 < low_len bs"

lemma opcode_cases:
  "(ucast ((b::u8) AND 0x0f) = rws_opcode_connection_close) = (unat b mod 16 = 8)"
  "(ucast (b AND 0x0f) = rws_opcode_pong) = (unat b mod 16 = 10)"
  by (simp_all add: word_unat_eq_iff)

lemma mask_pos_run:
  "masked_bit bs \<Longrightarrow> recv_mask_pos (ucast (bs ! Suc 0) AND 0x7f) = hdr_len bs - 4"
  using len7_less [of bs] by (auto simp: recv_mask_pos_def hdr_len_def len7_def)

lemma recv_create_short:
  assumes "load_bytes p n m = Some bs" and "n < 2 \<or> n < hdr_len bs"
  shows "rws_frame_create_with_recv_data p n m = Some (NULL, m)"
proof (cases "n < 2")
  case False
  have len: "length bs = n" using assms(1) by (rule load_bytes_SomeD)
  have p: "p \<noteq> NULL" using assms by (auto simp: load_bytes_def load_def cells_from_def)
  from False assms(2) p rd_byte_bytes [OF assms(1), of 0] rd_byte_bytes [OF assms(1), of 1]
  show ?thesis
    by (auto simp: rws_frame_create_with_recv_data_def recv_header_size_run Let_def)
qed (simp add: rws_frame_create_with_recv_data_def)

lemma load_shift_old:
  assumes "fresh_ok m" and "load_bytes p n m = Some bs" and "i + k \<le> n"
    and "\<And>b. b < next_blk m \<Longrightarrow> blocks m' b = blocks m b"
  shows "load_bytes (ptr_add p i) k m' = Some (take k (drop i bs))"
    and "load (ptr_add p i) k m' = Some (map Some (take k (drop i bs)))"
  using load_bytes_shift [OF load_bytes_old [OF assms(1,2,4)] assms(3)]
  by (simp_all add: load_bytes_eq)

lemma is_masked_iff: "drop_bit 7 (bs ! Suc 0) AND 1 \<noteq> 0 \<longleftrightarrow> masked_bit bs"
    "drop_bit 7 (bs ! Suc 0) AND 1 = 0 \<longleftrightarrow> \<not> masked_bit bs"
  using bit7 [of "bs ! 1"] by (auto simp: masked_bit_def)

lemma is_finshd_iff: "drop_bit 7 (bs ! 0 :: u8) AND 1 = 0 \<longleftrightarrow> \<not> 128 \<le> unat (bs ! 0)"
  using bit7 [of "bs ! 0"] by auto

lemma recv_header_size_byte:
  "ucast (recv_header_size (drop_bit 7 (bs ! Suc 0) AND 1) (ucast (bs ! Suc 0) AND 0x7f))
      = (of_nat (hdr_len bs) :: u8)"
  by (simp add: unat_of_nat word_unat_eq_iff recv_header_size_run)

text \<open>The state once the frame object and its header fields are there.\<close>

definition after_header :: "u8 list \<Rightarrow> 'a mem_scheme \<Rightarrow> 'a mem_scheme" where
  "after_header bs m =
     set_heap ((blocks m)(next_blk m \<mapsto> OFrame (recv_frame bs m))) (Suc (next_blk m)) (skip_rands m)"

lemma recv_frame_header_run:
  assumes fresh: "fresh_ok m" and ld: "load_bytes p n m = Some bs" and n: "2 \<le> n" "hdr_len bs \<le> n"
    and pos: "masked_bit bs \<Longrightarrow> pos = hdr_len bs - 4"
  shows "recv_frame_header (Ptr (next_blk m) 0) p (ucast (bs ! 0 AND 0x0f)) (drop_bit 7 (bs ! 0) AND 1)
      (drop_bit 7 (bs ! Suc 0) AND 1) pos
      (recv_header_size (drop_bit 7 (bs ! Suc 0) AND 1) (ucast (bs ! Suc 0) AND 0x7f))
      (snd (rws_frame_create m)) = Some (after_header bs m)"
proof -
  let ?m = "snd (rws_frame_create m)"
  have mask: "masked_bit bs \<Longrightarrow> load_bytes (ptr_add p pos) 4 ?m = Some (mask_at bs)"
    using load_shift_old(1) [OF fresh ld, of pos 4 ?m] hdr_len_bounds(3) [of bs] n(2) pos
    by (simp add: mask_at_def run_simps)
  show ?thesis
  proof (cases "masked_bit bs")
    case True
    then show ?thesis
      using mask by (auto simp: recv_frame_header_def run_simps is_masked_iff is_finshd_iff recv_header_size_byte
          after_header_def recv_frame_def zero_frame_def Let_def)
  next
    case False
    then show ?thesis
      by (auto simp: recv_frame_header_def run_simps is_masked_iff is_finshd_iff recv_header_size_byte
          after_header_def recv_frame_def zero_frame_def Let_def)
  qed
qed

lemma recv_create_header_step:
  assumes fresh: "fresh_ok m" and ld: "load_bytes p n m = Some bs" and n: "2 \<le> n" "hdr_len bs \<le> n"
  obtains w where "unat w = low_len bs" and "rws_frame_create_with_recv_data p n m =
    (if unat (bs ! 0) mod 16 \<in> {8, 10} then Some (Ptr (next_blk m) 0, after_header bs m)
     else do {
       m' \<leftarrow> recv_frame_data (Ptr (next_blk m) 0) p (drop_bit 7 (bs ! 0) AND 1)
         (drop_bit 7 (bs ! Suc 0) AND 1)
         (recv_header_size (drop_bit 7 (bs ! Suc 0) AND 1) (ucast (bs ! Suc 0) AND 0x7f)) w
         (after_header bs m);
       Some (Ptr (next_blk m) 0, m') })"
proof -
  have p: "p \<noteq> NULL" using ld by (auto simp: load_bytes_def load_def cells_from_def)
  from ld n obtain w where w: "recv_expected_size p (ucast (bs ! 1) AND 0x7f) m = Some w"
      "unat w = low_len bs"
    by (rule recv_expected_size_run)
  show thesis
  proof (rule that [OF w(2)])
    show "rws_frame_create_with_recv_data p n m =
      (if unat (bs ! 0) mod 16 \<in> {8, 10} then Some (Ptr (next_blk m) 0, after_header bs m)
       else do {
         m' \<leftarrow> recv_frame_data (Ptr (next_blk m) 0) p (drop_bit 7 (bs ! 0) AND 1)
           (drop_bit 7 (bs ! Suc 0) AND 1)
           (recv_header_size (drop_bit 7 (bs ! Suc 0) AND 1) (ucast (bs ! Suc 0) AND 0x7f)) w
           (after_header bs m);
         Some (Ptr (next_blk m) 0, m') })"
      using p n w(1) rd_byte_bytes [OF ld, of 0] rd_byte_bytes [OF ld, of 1]
        recv_frame_header_run [OF fresh ld n, OF mask_pos_run]
      by (simp add: rws_frame_create_with_recv_data_def recv_header_size_run Let_def opcode_cases
          rws_frame_create_run)
  qed
qed

lemma recv_create_header_only:
  assumes fresh: "fresh_ok m" and ld: "load_bytes p n m = Some bs"
    and n: "2 \<le> n" "hdr_len bs \<le> n" and nodata: "\<not> carries_data bs"
  shows "rws_frame_create_with_recv_data p n m = Some (Ptr (next_blk m) 0, after_header bs m)"
proof -
  obtain w where w: "unat w = low_len bs" and step: "rws_frame_create_with_recv_data p n m =
    (if unat (bs ! 0) mod 16 \<in> {8, 10} then Some (Ptr (next_blk m) 0, after_header bs m)
     else do {
       m' \<leftarrow> recv_frame_data (Ptr (next_blk m) 0) p (drop_bit 7 (bs ! 0) AND 1)
         (drop_bit 7 (bs ! Suc 0) AND 1)
         (recv_header_size (drop_bit 7 (bs ! Suc 0) AND 1) (ucast (bs ! Suc 0) AND 0x7f)) w
         (after_header bs m);
       Some (Ptr (next_blk m) 0, m') })"
    by (rule recv_create_header_step [OF fresh ld n])
  have "0 < w \<longleftrightarrow> 0 < low_len bs" by (simp add: word_less_nat_alt w)
  moreover have "recv_frame bs m\<lparr>f_is_finished := False\<rparr> = recv_frame bs m" if "\<not> 128 \<le> unat (bs ! 0)"
    using that by (simp add: recv_frame_def)
  ultimately show ?thesis
    using nodata unfolding step
    by (auto simp: recv_frame_data_def after_header_def run_simps is_finshd_iff fun_upd_idem_iff)
qed

lemma recv_create_data:
  assumes fresh: "fresh_ok m" and ld: "load_bytes p n m = Some bs"
    and n: "2 \<le> n" "hdr_len bs + low_len bs \<le> n" and data: "carries_data bs"
  shows "rws_frame_create_with_recv_data p n m = Some (Ptr (next_blk m) 0,
    set_heap ((blocks m)
      (next_blk m \<mapsto> OFrame (recv_frame bs m
         \<lparr>f_data := Ptr (Suc (next_blk m)) 0, f_data_size := low_len bs\<rparr>),
       Suc (next_blk m) \<mapsto> OBytes (map Some (payload_at bs))))
      (Suc (Suc (next_blk m))) (skip_rands m))"
proof -
  have n': "hdr_len bs \<le> n" using n by simp
  have len: "length bs = n" using ld by (rule load_bytes_SomeD)
  obtain w where w: "unat w = low_len bs" and step: "rws_frame_create_with_recv_data p n m =
    (if unat (bs ! 0) mod 16 \<in> {8, 10} then Some (Ptr (next_blk m) 0, after_header bs m)
     else do {
       m' \<leftarrow> recv_frame_data (Ptr (next_blk m) 0) p (drop_bit 7 (bs ! 0) AND 1)
         (drop_bit 7 (bs ! Suc 0) AND 1)
         (recv_header_size (drop_bit 7 (bs ! Suc 0) AND 1) (ucast (bs ! Suc 0) AND 0x7f)) w
         (after_header bs m);
       Some (Ptr (next_blk m) 0, m') })"
    by (rule recv_create_header_step [OF fresh ld n(1) n'])
  have w0: "0 < w" using data by (simp add: word_less_nat_alt w)
  let ?f = "recv_frame bs m\<lparr>f_data := Ptr (Suc (next_blk m)) 0, f_data_size := low_len bs\<rparr>"
  let ?m = "set_heap ((blocks m)(next_blk m \<mapsto> OFrame ?f,
      Suc (next_blk m) \<mapsto> OBytes (replicate (low_len bs) None))) (Suc (Suc (next_blk m))) (skip_rands m)"
  have fin: "recv_frame bs m\<lparr>f_is_finished := False\<rparr> = recv_frame bs m" if "\<not> 128 \<le> unat (bs ! 0)"
    using that by (simp add: recv_frame_def)
  note ld' = load_shift_old [OF fresh ld n(2), of ?m, simplified]
  show ?thesis
  proof (cases "masked_bit bs")
    case True
    then have "f_mask (recv_frame bs m) = mask_at bs" by (simp add: recv_frame_def)
    with True w0 data ld' fin len n(2) show ?thesis unfolding step
      by (auto simp: recv_frame_data_def after_header_def run_simps is_finshd_iff is_masked_iff w
          recv_header_size_run fun_upd_twist payload_at_def Let_def)
  next
    case False
    with w0 data ld' fin len n(2) show ?thesis unfolding step
      by (auto simp: recv_frame_data_def after_header_def run_simps is_finshd_iff is_masked_iff w
          recv_header_size_run fun_upd_twist payload_at_def Let_def memcpy_def)
  qed
qed

section \<open>The sender writes the format\<close>

text \<open>
  \<open>header_bytes op key n\<close> is the header of a final frame with opcode \<open>op\<close> and \<open>n\<close> payload
  bytes, masked with \<open>key\<close> or unmasked; \<open>encode_frame\<close> is the whole frame.
\<close>

definition header_bytes :: "nat \<Rightarrow> u8 list option \<Rightarrow> nat \<Rightarrow> u8 list" where
  "header_bytes op key n =
     (let mb = (if key = None then 0 else 128) in
      [of_nat (128 + op)] @
      (if n < 126 then [of_nat (n + mb)]
       else if n < 65536 then [of_nat (126 + mb), of_nat (n div 256), of_nat n]
       else [of_nat (127 + mb), 0, 0, 0, 0,
             of_nat (n div 16777216), of_nat (n div 65536), of_nat (n div 256), of_nat n]) @
      (case key of None \<Rightarrow> [] | Some k \<Rightarrow> k))"

definition mask_with :: "u8 list option \<Rightarrow> u8 list \<Rightarrow> u8 list" where
  "mask_with key bs = (case key of None \<Rightarrow> bs | Some k \<Rightarrow> xor_loop k 0 bs)"

definition encode_frame :: "nat \<Rightarrow> u8 list option \<Rightarrow> u8 list \<Rightarrow> u8 list" where
  "encode_frame op key payload = header_bytes op key (length payload) @ mask_with key payload"

definition frame_key :: "rws_frame \<Rightarrow> u8 list option" where
  "frame_key f = (if f_is_masked f then Some (f_mask f) else None)"

lemma length_mask_with [simp]: "length (mask_with key bs) = length bs"
  by (simp add: mask_with_def split: option.split)

lemma length_header_bytes:
  "(\<And>k. key = Some k \<Longrightarrow> length k = 4) \<Longrightarrow> length (header_bytes op key n) =
     (if n < 126 then 2 else if n < 65536 then 4 else 10) + (if key = None then 0 else 4)"
  by (auto simp: header_bytes_def split: option.split)

lemma length_header_le: "(\<And>k. key = Some k \<Longrightarrow> length k = 4) \<Longrightarrow> length (header_bytes op key n) \<le> 14"
  by (auto simp: length_header_bytes)

lemma u8_eq_iff: "(x :: u8) = y \<longleftrightarrow> unat x = unat y"
  by (rule word_unat_eq_iff)

lemma u8_of_natI: "unat (x :: u8) = n \<Longrightarrow> x = of_nat n"
  by auto

lemma first_byte_eq: "unat (x :: u32) < 16 \<Longrightarrow> (ucast (0x80 OR x) :: u8) = of_nat (128 + unat x)"
  by (rule u8_of_natI) (rule first_byte)

lemma len_byte_eq:
  "unat (x :: u32) < 126 \<Longrightarrow>
   (ucast ((x AND 0xff) OR (if k then 0x80 else 0)) :: u8) = of_nat (unat x + (if k then 128 else 0))"
  by (rule u8_of_natI) (rule len_byte)

lemma size_byte_eq:
  "(ucast (drop_bit 8 (x :: u32)) :: u8) = of_nat (unat x div 256)"
  "(ucast (drop_bit 16 x) :: u8) = of_nat (unat x div 65536)"
  "(ucast (drop_bit 24 x) :: u8) = of_nat (unat x div 16777216)"
  unfolding u8_eq_iff unat_ucast32_8 unat_drop8 by (simp_all add: unat_of_nat)

text \<open>The header code writes \<open>header_bytes\<close>, for the size truncated to 32 bits as in the code.\<close>

lemma create_header_run:
  assumes op: "unat (f_opcode f) < 16" and key: "f_is_masked f \<Longrightarrow> length (f_mask f) = 4"
  shows "rws_frame_create_header f n =
    (header_bytes (unat (f_opcode f)) (frame_key f) (n mod 2 ^ 32),
     f\<lparr>f_header_size := of_nat (length (header_bytes (unat (f_opcode f)) (frame_key f) (n mod 2 ^ 32)))\<rparr>)"
proof -
  define s where "s = (word_of_nat n :: u32)"
  have us: "n mod 2 ^ 32 = unat s" by (simp add: s_def unat_of_nat)
  have hs: "(word_of_nat n :: u32) = s" by (simp add: s_def)
  have lt: "s < 126 \<longleftrightarrow> unat s < 126" "s < 65536 \<longleftrightarrow> unat s < 65536"
    by (simp_all add: word_less_nat_alt)
  note simps = rws_frame_create_header_def header_bytes_def frame_key_def Let_def hs lt
    first_byte_eq [OF op] size_byte_eq
  show ?thesis
  proof (cases "unat s < 126")
    case True
    then show ?thesis unfolding us
      using len_byte_eq [OF True, of "f_is_masked f"] key
      by (cases "f_is_masked f") (simp_all add: simps)
  next
    case False
    then show ?thesis unfolding us
      using key by (cases "f_is_masked f"; cases "unat s < 65536") (simp_all add: simps)
  qed
qed

subsection \<open>The receiver's view of a header the sender wrote\<close>

text \<open>A mask key is four bytes.\<close>

definition key_ok :: "u8 list option \<Rightarrow> bool" where
  "key_ok key \<longleftrightarrow> (case key of None \<Rightarrow> True | Some k \<Rightarrow> length k = 4)"

lemma unat_u8_of_nat: "k < 256 \<Longrightarrow> unat (word_of_nat k :: u8) = k"
  by (simp add: unat_of_nat)

lemma header_second:
  "unat ((header_bytes op key n @ rest) ! Suc 0) = (if n < 126 then n else if n < 65536 then 126 else 127)
     + (if key = None then 0 else 128)" (is "_ = ?k")
proof -
  have "(header_bytes op key n @ rest) ! Suc 0 = word_of_nat ?k"
    by (simp add: header_bytes_def Let_def)
  moreover have "?k < 256" by auto
  ultimately show ?thesis by (simp only: unat_u8_of_nat)
qed

lemma header_first: "(header_bytes op key n @ rest) ! 0 = of_nat (128 + op)"
  by (simp add: header_bytes_def Let_def)

lemma header_masked: "masked_bit (header_bytes op key n @ rest) \<longleftrightarrow> key \<noteq> None"
  unfolding masked_bit_def One_nat_def header_second by auto

lemma header_len7:
  "len7 (header_bytes op key n @ rest) = (if n < 126 then n else if n < 65536 then 126 else 127)"
  unfolding len7_def One_nat_def header_second by auto

lemma header_hdr_len:
  "key_ok key \<Longrightarrow> hdr_len (header_bytes op key n @ rest) = length (header_bytes op key n)"
  unfolding hdr_len_def header_masked header_len7
  using length_header_bytes [of key op n] by (auto simp: key_ok_def)

lemma be_nat_2: "n < 65536 \<Longrightarrow> be_nat [of_nat (n div 256), of_nat n] = n"
  by (simp add: unat_of_nat)

lemma be_nat_4:
  assumes "n < 2 ^ 32"
  shows "be_nat [of_nat (n div 16777216), of_nat (n div 65536), of_nat (n div 256), of_nat n] = n"
proof -
  have "n div 16777216 < 256" using assms by (simp add: less_mult_imp_div_less)
  moreover have "n div 65536 = 256 * (n div 16777216) + (n div 65536) mod 256"
    using mult_div_mod_eq [of 256 "n div 65536"] by (simp add: div_mult2_eq [symmetric])
  moreover have "n div 256 = 256 * (n div 65536) + (n div 256) mod 256"
    using mult_div_mod_eq [of 256 "n div 256"] by (simp add: div_mult2_eq [symmetric])
  moreover have "n = 256 * (n div 256) + n mod 256" by simp
  moreover have "be_nat [of_nat (n div 16777216), of_nat (n div 65536), of_nat (n div 256), of_nat n] =
      (n div 16777216) mod 256 * 16777216 + (n div 65536) mod 256 * 65536 +
      (n div 256) mod 256 * 256 + n mod 256"
    by (simp add: unat_of_nat)
  ultimately show ?thesis by (simp only: mod_less)
qed

lemma header_low_len:
  assumes "n < 2 ^ 32"
  shows "low_len (header_bytes op key n @ rest) = n" "rfc_len (header_bytes op key n @ rest) = n"
proof -
  show "low_len (header_bytes op key n @ rest) = n"
    using assms be_nat_2 [of n] be_nat_4 [of n] unfolding low_len_def header_len7
    by (simp add: header_bytes_def Let_def del: be_nat.simps)
  show "rfc_len (header_bytes op key n @ rest) = n"
    using assms be_nat_2 [of n] be_nat_4 [of n] be_nat_append [of "[0,0,0,0]"
        "[of_nat (n div 16777216), of_nat (n div 65536), of_nat (n div 256), of_nat n]"]
    unfolding rfc_len_def header_len7
    by (simp add: header_bytes_def Let_def)
qed

lemma header_mask:
  "length k = 4 \<Longrightarrow> mask_at (header_bytes op (Some k) n @ rest) = k"
  unfolding mask_at_def by (subst header_hdr_len) (auto simp: key_ok_def header_bytes_def Let_def)

text \<open>
  The receiver reads back the payload the sender framed, whatever follows it in the buffer.
\<close>

lemma payload_encode:
  assumes "key_ok key" and "length payload < 2 ^ 32"
  shows "payload_at (encode_frame op key payload @ rest) = payload"
proof -
  note hdr = header_hdr_len [OF assms(1)] and low = header_low_len(1) [OF assms(2)]
  show ?thesis
  proof (cases key)
    case None
    with hdr low show ?thesis
      by (simp add: payload_at_def encode_frame_def header_masked mask_with_def Let_def)
  next
    case (Some k)
    then have "length k = 4" using assms(1) by (simp add: key_ok_def)
    with Some hdr low show ?thesis
      by (simp add: payload_at_def encode_frame_def header_masked mask_with_def Let_def
          header_mask xor_loop_twice)
  qed
qed

lemma encode_hdr:
  assumes "key_ok key" and "length payload < 2 ^ 32"
  shows "hdr_len (encode_frame op key payload @ rest) = length (header_bytes op key (length payload))"
    and "low_len (encode_frame op key payload @ rest) = length payload"
    and "length (encode_frame op key payload) =
      hdr_len (encode_frame op key payload @ rest) + low_len (encode_frame op key payload @ rest)"
  using header_hdr_len [OF assms(1)] header_low_len(1) [OF assms(2)]
  by (simp_all add: encode_frame_def)

lemma check_size_encode:
  assumes "key_ok key" and "length payload < 2 ^ 32 - 14"
  shows "check_size (encode_frame op key payload @ rest) = length (encode_frame op key payload)"
proof -
  have lt: "length payload < 2 ^ 32" using assms(2) by simp
  have "length (header_bytes op key (length payload)) \<le> 14"
    using assms(1) by (intro length_header_le) (auto simp: key_ok_def)
  with assms(2) have "length (encode_frame op key payload) < 2 ^ 32" by (simp add: encode_frame_def)
  with encode_hdr [OF assms(1) lt, of op rest] hdr_len_bounds(1) [of "encode_frame op key payload @ rest"]
  show ?thesis by (simp add: check_size_def)
qed

text \<open>An incomplete frame is never taken for a complete one.\<close>

lemma check_size_prefix:
  assumes "key_ok key" and "length payload < 2 ^ 32 - 14"
    and "k < length (encode_frame op key payload)"
  shows "check_size (take k (encode_frame op key payload)) = 0"
proof -
  let ?e = "encode_frame op key payload" and ?p = "take k (encode_frame op key payload)"
  have lt: "length payload < 2 ^ 32" using assms(2) by simp
  have le: "length ?p = k" using assms(3) by simp
  have "length (header_bytes op key (length payload)) \<le> 14"
    using assms(1) by (intro length_header_le) (auto simp: key_ok_def)
  with assms(2) have small: "length ?e < 2 ^ 32" by (simp add: encode_frame_def)
  have e: "length ?e = hdr_len ?e + low_len ?e"
    using encode_hdr(3) [OF assms(1) lt, of op "[]"] by simp
  show ?thesis
  proof (cases "k < 2 \<or> k < hdr_len ?p")
    case False
    then have k2: "2 \<le> k" and kh: "hdr_len ?p \<le> k" by auto
    have snd: "?p ! 1 = ?e ! 1" using k2 by simp
    then have same: "masked_bit ?p = masked_bit ?e" "len7 ?p = len7 ?e" "hdr_len ?p = hdr_len ?e"
      by (simp_all add: masked_bit_def len7_def hdr_len_def)
    have "low_len ?p = low_len ?e"
    proof -
      have "take 2 (drop 2 ?p) = take 2 (drop 2 ?e)" if "len7 ?e = 126"
      proof -
        from that have "4 \<le> hdr_len ?e" by (simp add: hdr_len_def)
        with kh same(3) show ?thesis by (simp add: drop_take)
      qed
      moreover have "take 4 (drop 6 ?p) = take 4 (drop 6 ?e)" if "len7 ?e = 127"
      proof -
        from that have "10 \<le> hdr_len ?e" by (simp add: hdr_len_def)
        with kh same(3) show ?thesis by (simp add: drop_take)
      qed
      ultimately show ?thesis by (simp add: low_len_def same)
    qed
    then have "low_len ?p + hdr_len ?p = length ?e" using same(3) e by simp
    with small assms(3) False le show ?thesis by (simp add: check_size_def)
  next
    case True
    with le show ?thesis by (auto simp: check_size_def simp del: length_take)
  qed
qed

section \<open>Building a frame to send\<close>

text \<open>The frame object after \<open>rws_frame_fill_with_send_data\<close> with \<open>n\<close> payload bytes.\<close>

definition sent_frame :: "rws_frame \<Rightarrow> nat \<Rightarrow> ptr \<Rightarrow> rws_frame" where
  "sent_frame f n d =
     (let hl = length (header_bytes (unat (f_opcode f)) (frame_key f) (n mod 2 ^ 32))
      in f\<lparr>f_header_size := of_nat hl, f_data_size := n + hl, f_data := d, f_is_finished := True\<rparr>)"

lemma key_ok_frame: "(f_is_masked f \<Longrightarrow> length (f_mask f) = 4) \<Longrightarrow> key_ok (frame_key f)"
  by (simp add: key_ok_def frame_key_def)

lemma header_bytes_le: "key_ok key \<Longrightarrow> length (header_bytes op key n) \<le> 14"
  by (intro length_header_le) (auto simp: key_ok_def)

lemma header_bytes_pos: "0 < length (header_bytes op key n)"
  by (simp add: header_bytes_def Let_def)

text \<open>
  The function allocates one buffer, writes header and payload into it without leaving it, and
  masks the payload with the frame's key.
\<close>

lemma fill_with_send_data_run:
  assumes fresh: "fresh_ok m" and fr: "blocks m b = Some (OFrame f)"
    and op: "unat (f_opcode f) < 16" and key: "f_is_masked f \<Longrightarrow> length (f_mask f) = 4"
    and ld: "load_bytes p n m = Some bs"
  shows "rws_frame_fill_with_send_data (Ptr b 0) p n m = Some (set_heap ((blocks m)
    (b \<mapsto> OFrame (sent_frame f n (Ptr (next_blk m) 0)),
     next_blk m \<mapsto> OBytes (map Some (header_bytes (unat (f_opcode f)) (frame_key f) (n mod 2 ^ 32) @
        mask_with (frame_key f) bs)))) (Suc (next_blk m)) m)"
proof -
  define hb where "hb = header_bytes (unat (f_opcode f)) (frame_key f) (n mod 2 ^ 32)"
  have "key_ok (frame_key f)" using key by (rule key_ok_frame)
  then have "length hb \<le> 14" unfolding hb_def by (rule header_bytes_le)
  then have hl1: "unat (word_of_nat (length hb) :: u8) = length hb" by (intro unat_u8_of_nat) simp
  have "0 < length hb" unfolding hb_def by (rule header_bytes_pos)
  then have hl2: "hb \<noteq> []" by simp
  note hl = hl1 hl2
  have hdr: "rws_frame_create_header f n = (hb, f\<lparr>f_header_size := of_nat (length hb)\<rparr>)"
    using create_header_run [OF op key, of n] by (simp add: hb_def)
  have len: "length bs = n" using ld by (rule load_bytes_SomeD)
  have p: "p \<noteq> NULL" using ld by (auto simp: load_bytes_def load_def cells_from_def)
  have b: "b \<noteq> next_blk m" "next_blk m \<noteq> b" using fresh fr by (auto simp: fresh_ok_def)
  have sent: "sent_frame f n d = f\<lparr>f_header_size := of_nat (length hb), f_data_size := n + length hb,
      f_data := d, f_is_finished := True\<rparr>" for d
    by (simp add: sent_frame_def hb_def Let_def)
  let ?f = "f\<lparr>f_header_size := of_nat (length hb), f_data_size := n + length hb,
      f_data := Ptr (next_blk m) 0\<rparr>"
  have ld': "load p n (set_heap ((blocks m)(next_blk m \<mapsto> OBytes x, b \<mapsto> OFrame ?f)) k m) =
      Some (map Some bs)" for x k
  proof -
    obtain cs where "cells_from p m = Some cs" using ld
      by (auto simp: load_bytes_eq load_def Option.bind_eq_Some_conv)
    then have "cells_from p (set_heap ((blocks m)(next_blk m \<mapsto> OBytes x, b \<mapsto> OFrame ?f)) k m) = Some cs"
      using fr fresh_unused [OF fresh] by (auto simp: cells_from_def split: ptr.splits)
    with \<open>cells_from p m = Some cs\<close> ld show ?thesis by (simp add: load_bytes_eq load_def)
  qed
  note run = rws_frame_fill_with_send_data_def run_simps Let_def hdr hl len p b fr memcpy_def ld' sent
    fun_upd_twist
  show ?thesis unfolding hb_def [symmetric]
  proof (cases "f_is_masked f")
    case True
    then have "mask_with (frame_key f) bs = xor_loop (f_mask f) 0 bs"
      by (simp add: mask_with_def frame_key_def)
    with True show "rws_frame_fill_with_send_data (Ptr b 0) p n m = Some (set_heap ((blocks m)
      (b \<mapsto> OFrame (sent_frame f n (Ptr (next_blk m) 0)),
       next_blk m \<mapsto> OBytes (map Some (hb @ mask_with (frame_key f) bs)))) (Suc (next_blk m)) m)"
      by (simp add: run)
  next
    case False
    then have "mask_with (frame_key f) bs = bs" by (simp add: mask_with_def frame_key_def)
    with False show "rws_frame_fill_with_send_data (Ptr b 0) p n m = Some (set_heap ((blocks m)
      (b \<mapsto> OFrame (sent_frame f n (Ptr (next_blk m) 0)),
       next_blk m \<mapsto> OBytes (map Some (hb @ mask_with (frame_key f) bs)))) (Suc (next_blk m)) m)"
      by (simp add: run)
  qed
qed

section \<open>Frames in memory\<close>

text \<open>
  \<open>frame_at p f D m\<close>: \<open>p\<close> is a frame object \<open>f\<close> whose data pointer is \<open>NULL\<close> or the start of
  a live block; the two occupy exactly the blocks \<open>D\<close>.
\<close>

definition frame_at :: "ptr \<Rightarrow> rws_frame \<Rightarrow> nat list \<Rightarrow> (nat \<Rightarrow> obj option) \<Rightarrow> bool" where
  "frame_at p f D B \<longleftrightarrow> distinct D \<and>
     (case (p, f_data f) of
        (Ptr b off, NULL) \<Rightarrow> off = 0 \<and> D = [b] \<and> B b = Some (OFrame f)
      | (Ptr b off, Ptr d doff) \<Rightarrow> off = 0 \<and> doff = 0 \<and> D = [b, d] \<and> B b = Some (OFrame f) \<and>
          (case B d of Some (OBytes _) \<Rightarrow> True | _ \<Rightarrow> False)
      | _ \<Rightarrow> False)"

lemma frame_at_cong: "(\<And>b. b \<in> set D \<Longrightarrow> B' b = B b) \<Longrightarrow> frame_at p f D B' = frame_at p f D B"
  by (auto simp: frame_at_def split: ptr.splits)

lemma frame_at_Ptr: "frame_at p f D B \<Longrightarrow> \<exists>b E. p = Ptr b 0 \<and> D = b # E \<and> B b = Some (OFrame f)"
  by (auto simp: frame_at_def split: ptr.splits)

lemma frame_at_live: "frame_at p f D B \<Longrightarrow> b \<in> set D \<Longrightarrow> B b \<noteq> None"
  by (auto simp: frame_at_def split: ptr.splits option.splits)

text \<open>Deleting a frame releases the object and its data, and nothing else.\<close>

lemma rws_frame_delete_run:
  assumes "frame_at p f D (blocks m)"
  shows "rws_frame_delete p m =
    Some (set_heap (\<lambda>b. if b \<in> set D then None else blocks m b) (next_blk m) m)"
  using assms
  by (auto simp: rws_frame_delete_def frame_at_def run_simps fun_eq_iff
      intro!: arg_cong [where f = "\<lambda>B. set_heap B _ _"] split: ptr.splits option.splits)

section \<open>Combining fragments\<close>

text \<open>
  The combined buffer is allocated and filled, but \<open>to->data\<close> is left pointing behind the first
  part.  With an empty first part this is the start of the buffer; otherwise it is not, the last
  bytes of the announced length lie outside the block, and the frame cannot be deleted.
\<close>

lemma combine_run:
  assumes fresh: "fresh_ok m"
    and t: "blocks m a = Some (OFrame t)" "f_data t = Ptr x 0" "blocks m x = Some (OBytes (map Some ts))"
      "f_data_size t = length ts" "ts \<noteq> []"
    and r: "blocks m b = Some (OFrame r)" "load_bytes (f_data r) (f_data_size r) m = Some rs"
  shows "rws_frame_combine_datas (Ptr a 0) (Ptr b 0) m = Some (set_heap ((blocks m)
     (a \<mapsto> OFrame (t\<lparr>f_data := Ptr (next_blk m) (length ts), f_data_size := length ts + length rs\<rparr>),
      x := None, next_blk m \<mapsto> OBytes (map Some (ts @ rs)))) (Suc (next_blk m)) m)"
proof -
  have new: "a \<noteq> next_blk m" "next_blk m \<noteq> a" "x \<noteq> next_blk m" "next_blk m \<noteq> x" "a \<noteq> x" "x \<noteq> a"
    using fresh t by (auto simp: fresh_ok_def)
  have lr: "f_data_size r = length rs" using load_bytes_SomeD [OF r(2)] by simp
  have rp: "f_data r \<noteq> NULL" using r(2) by (auto simp: load_bytes_def load_def cells_from_def)
  have ld: "load (f_data r) (length rs) (set_heap ((blocks m)(next_blk m \<mapsto> y)) k m) = Some (map Some rs)" for y k
    using r(2) lr by (intro load_alloc [OF fresh]) (simp add: load_bytes_eq)
  note run = rws_frame_combine_datas_def run_simps Let_def memcpy_def t r(1) lr rp new fun_upd_twist ld
  show ?thesis
  proof (cases "rs = []")
    case True
    have upd: "t\<lparr>f_data := d, f_data_size := length ts\<rparr> = t\<lparr>f_data := d\<rparr>" for d
      using t(4) by (cases t) simp
    show ?thesis using t(5) True by (simp add: run upd)
  next
    case False then show ?thesis using t(5) by (simp add: run)
  qed
qed

end
