(* ===== verification/Rws_Stream.thy ===== *)
theory Rws_Stream
  imports Rws_Prelude
begin

text \<open>
  The interface between a byte stream and the frames it carries.  The receiver of the code keeps
  the bytes received so far and asks a check function how many of them form the first frame; the
  laws it relies on are those of the locale \<open>stream_parser\<close>.  A sender's encoding that agrees with
  the check is a \<open>framing\<close>.  Both are interpreted on the model of \<open>rws_frame.c\<close> in \<open>Rws_Codec\<close>.
\<close>

section \<open>Taking frames off a stream\<close>

text \<open>All frames of a byte list, one after the other, and the incomplete rest.\<close>

function drain :: "(u8 list \<Rightarrow> nat) \<Rightarrow> u8 list \<Rightarrow> u8 list list \<times> u8 list" where
  "drain check bs =
     (if 0 < check bs \<and> check bs \<le> length bs
      then let (fs, r) = drain check (drop (check bs) bs) in (take (check bs) bs # fs, r)
      else ([], bs))"
  by pat_completeness auto
termination
  by (relation "measure (\<lambda>(_, bs). length bs)") auto

declare drain.simps [simp del]

text \<open>One round of the receiver: new bytes arrive, and at most one frame leaves.\<close>

definition take_one :: "(u8 list \<Rightarrow> nat) \<Rightarrow> u8 list \<Rightarrow> u8 list list \<times> u8 list" where
  "take_one check bs = (if 0 < check bs then ([take (check bs) bs], drop (check bs) bs) else ([], bs))"

fun rounds :: "(u8 list \<Rightarrow> nat) \<Rightarrow> u8 list \<Rightarrow> u8 list list \<Rightarrow> u8 list list \<times> u8 list" where
  "rounds check buf [] = ([], buf)"
| "rounds check buf (chunk # chunks) =
     (let (fs, buf) = take_one check (buf @ chunk); (gs, buf) = rounds check buf chunks
      in (fs @ gs, buf))"

section \<open>Stream parsers\<close>

locale stream_parser =
  fixes check :: "u8 list \<Rightarrow> nat"
  assumes within: "check bs \<le> length bs"
    and stable: "0 < check bs \<Longrightarrow> check (bs @ ys) = check bs"
begin

lemma drain_some: "0 < check bs \<Longrightarrow>
    drain check bs = (take (check bs) bs # fst (drain check (drop (check bs) bs)),
                      snd (drain check (drop (check bs) bs)))"
  using within [of bs] by (subst drain.simps) (simp add: case_prod_beta)

lemma drain_none: "check bs = 0 \<Longrightarrow> drain check bs = ([], bs)"
  by (subst drain.simps) simp

text \<open>Nothing is lost, duplicated or reordered.\<close>

lemma drain_concat: "concat (fst (drain check bs)) @ snd (drain check bs) = bs"
proof (induction "length bs" arbitrary: bs rule: less_induct)
  case less
  show ?case
  proof (cases "0 < check bs")
    case True
    have "length (drop (check bs) bs) < length bs" using True within [of bs] by simp
    then show ?thesis using less True by (simp add: drain_some)
  qed (simp add: drain_none)
qed

text \<open>What the bytes so far hold does not depend on the bytes that follow.\<close>

lemma drain_append:
  "drain check (bs @ ys) =
     (fst (drain check bs) @ fst (drain check (snd (drain check bs) @ ys)),
      snd (drain check (snd (drain check bs) @ ys)))"
proof (induction "length bs" arbitrary: bs rule: less_induct)
  case less
  show ?case
  proof (cases "0 < check bs")
    case True
    have "length (drop (check bs) bs) < length bs" using True within [of bs] by simp
    then show ?thesis
      using less True within [of bs] by (simp add: drain_some [of "bs @ ys"] drain_some [of bs] stable)
  qed (simp add: drain_none)
qed

lemma take_one_drain:
  "fst (take_one check bs) @ fst (drain check (snd (take_one check bs))) = fst (drain check bs)"
  "snd (drain check (snd (take_one check bs))) = snd (drain check bs)"
  by (auto simp: take_one_def drain_some)

text \<open>
  However the stream is cut into chunks, the frames handed out and the ones still in the buffer
  are the frames of the whole stream.
\<close>

lemma rounds_drain:
  "(fst (rounds check buf chunks) @ fst (drain check (snd (rounds check buf chunks))),
    snd (drain check (snd (rounds check buf chunks)))) = drain check (buf @ concat chunks)"
proof (induction chunks arbitrary: buf)
  case (Cons chunk chunks)
  let ?b = "snd (take_one check (buf @ chunk))"
  note one = take_one_drain [of "buf @ chunk"]
  have "drain check (buf @ chunk @ concat chunks) =
      (fst (take_one check (buf @ chunk)) @ fst (drain check (?b @ concat chunks)),
       snd (drain check (?b @ concat chunks)))"
    using drain_append [of "buf @ chunk" "concat chunks"] drain_append [of ?b "concat chunks"]
    by (simp add: one(2) flip: one(1))
  then show ?case using Cons.IH [of ?b, symmetric] by (simp add: case_prod_beta Let_def)
qed simp

text \<open>Rounds in which nothing arrives work off the frames still in the buffer.\<close>

lemma rounds_idle:
  "length (fst (drain check buf)) \<le> n \<Longrightarrow> rounds check buf (replicate n []) = drain check buf"
proof (induction n arbitrary: buf)
  case 0
  then show ?case by (cases "0 < check buf") (simp_all add: drain_some drain_none)
next
  case (Suc n)
  show ?case
  proof (cases "0 < check buf")
    case True
    then show ?thesis using Suc by (simp add: take_one_def drain_some case_prod_beta)
  next
    case False
    then have "rounds check buf (replicate n []) = drain check buf"
      using Suc.IH [of buf] by (simp add: drain_none)
    then show ?thesis using False by (simp add: take_one_def drain_none)
  qed
qed

lemma rounds_append:
  "rounds check buf (cs @ ds) = (fst (rounds check buf cs) @ fst (rounds check (snd (rounds check buf cs)) ds),
     snd (rounds check (snd (rounds check buf cs)) ds))"
  by (induction cs arbitrary: buf) (simp_all add: case_prod_beta)

end

section \<open>Framings\<close>

locale framing = stream_parser +
  fixes enc :: "'x \<Rightarrow> u8 list" and fits :: "'x \<Rightarrow> bool"
  assumes complete: "fits x \<Longrightarrow> check (enc x @ ys) = length (enc x)"
    and incomplete: "fits x \<Longrightarrow> k < length (enc x) \<Longrightarrow> check (take k (enc x)) = 0"
    and nonempty: "fits x \<Longrightarrow> enc x \<noteq> []"
begin

text \<open>A stream of encoded frames is taken apart into exactly these frames.\<close>

lemma drain_frames:
  "list_all fits xs \<Longrightarrow> drain check (concat (map enc xs) @ ys) =
     (map enc xs @ fst (drain check ys), snd (drain check ys))"
proof (induction xs)
  case (Cons x xs)
  then have x: "fits x" and xs: "list_all fits xs" by auto
  have "check (enc x @ concat (map enc xs) @ ys) = length (enc x)" using complete [OF x] by simp
  moreover have "0 < length (enc x)" using nonempty [OF x] by simp
  ultimately show ?case using Cons.IH [OF xs] by (simp add: drain_some)
qed simp

lemma drain_partial:
  assumes "list_all fits xs" and "fits x" and "k < length (enc x)"
  shows "drain check (concat (map enc xs) @ take k (enc x)) = (map enc xs, take k (enc x))"
  using drain_frames [OF assms(1)] drain_none [OF incomplete [OF assms(2,3)]] by simp

text \<open>
  With the whole stream received in any chunks, and as many idle rounds after it as there are
  frames, exactly the frames have been handed out and nothing is left.
\<close>

lemma rounds_frames:
  assumes "list_all fits xs" and "concat chunks = concat (map enc xs)" and "length xs \<le> n"
  shows "rounds check [] (chunks @ replicate n []) = (map enc xs, [])"
proof -
  have all: "drain check (concat chunks) = (map enc xs, [])"
    using drain_frames [OF assms(1), of "[]"] drain_none [of "[]"] within [of "[]"] assms(2) by simp
  let ?r = "rounds check [] chunks"
  have part: "fst ?r @ fst (drain check (snd ?r)) = map enc xs" "snd (drain check (snd ?r)) = []"
    using rounds_drain [of "[]" chunks] all by simp_all
  have "length (fst ?r) + length (fst (drain check (snd ?r))) = length xs"
    using arg_cong [OF part(1), of length] by simp
  then have "rounds check (snd ?r) (replicate n []) = drain check (snd ?r)"
    using assms(3) by (intro rounds_idle) simp
  then show ?thesis using part by (simp add: rounds_append prod_eq_iff)
qed

end

end
