(* ===== verification/Rws_Codec.thy ===== *)
theory Rws_Codec
  imports Rws_Wire Rws_Stream
begin

text \<open>
  The codec as a whole: the frame-size check and the encoder satisfy the stream interface
  \<open>framing\<close>, and the properties of \<open>rws_frame.c\<close> that its callers rely on.
\<close>

section \<open>The stream interface\<close>

text \<open>A decision taken on a complete frame does not depend on the bytes behind it.\<close>

lemma hdr_len_append: "2 \<le> length bs \<Longrightarrow> hdr_len (bs @ ys) = hdr_len bs"
    "2 \<le> length bs \<Longrightarrow> masked_bit (bs @ ys) = masked_bit bs"
    "2 \<le> length bs \<Longrightarrow> len7 (bs @ ys) = len7 bs"
  by (simp_all add: hdr_len_def masked_bit_def len7_def nth_append)

lemma low_len_append:
  assumes "2 \<le> length bs" and "hdr_len bs \<le> length bs"
  shows "low_len (bs @ ys) = low_len bs"
proof -
  have "4 \<le> length bs" if "len7 bs = 126" using that assms(2) by (auto simp: hdr_len_def split: if_splits)
  moreover have "10 \<le> length bs" if "len7 bs = 127" using that assms(2) by (auto simp: hdr_len_def split: if_splits)
  ultimately show ?thesis using hdr_len_append [OF assms(1), of ys]
    by (cases "len7 bs = 127"; cases "len7 bs = 126") (simp_all add: low_len_def)
qed

lemma check_size_le: "check_size bs \<le> length bs"
  by (simp add: check_size_def Let_def)

lemma check_size_append:
  assumes "0 < check_size bs"
  shows "check_size (bs @ ys) = check_size bs"
proof -
  have len: "2 \<le> length bs" "hdr_len bs \<le> length bs"
    using assms by (auto simp: check_size_def split: if_splits)
  have "(low_len bs + hdr_len bs) mod 2 ^ 32 \<le> length bs"
    using assms by (auto simp: check_size_def Let_def split: if_splits)
  with len hdr_len_append [OF len(1), of ys] low_len_append [OF len, of ys] show ?thesis
    by (simp add: check_size_def)
qed

definition encodable :: "nat \<times> u8 list option \<times> u8 list \<Rightarrow> bool" where
  "encodable = (\<lambda>(op, key, payload). key_ok key \<and> length payload < 2 ^ 32 - 14)"

definition encode :: "nat \<times> u8 list option \<times> u8 list \<Rightarrow> u8 list" where
  "encode = (\<lambda>(op, key, payload). encode_frame op key payload)"

interpretation wire: framing check_size encode encodable
proof
  show "check_size bs \<le> length bs" for bs by (rule check_size_le)
  show "0 < check_size bs \<Longrightarrow> check_size (bs @ ys) = check_size bs" for bs ys by (rule check_size_append)
  show "encodable x \<Longrightarrow> check_size (encode x @ ys) = length (encode x)" for x ys
    by (auto simp: encodable_def encode_def check_size_encode)
  show "encodable x \<Longrightarrow> k < length (encode x) \<Longrightarrow> check_size (take k (encode x)) = 0" for x k
    by (auto simp: encodable_def encode_def check_size_prefix)
  show "encodable x \<Longrightarrow> encode x \<noteq> []" for x
    using header_bytes_pos by (auto simp: encodable_def encode_def encode_frame_def)
qed


section \<open>A frame on the wire\<close>

lemma opcode_mod: "op < 16 \<Longrightarrow> (128 + op) mod 16 = (op :: nat)"
  using mod_mult_self3 [of 8 16 op] by simp

lemma encode_first:
  assumes "op < 16"
  shows "unat ((encode_frame op key msg @ rest) ! 0) = 128 + op"
    and "ucast ((encode_frame op key msg @ rest) ! 0 AND 0x0f) = (word_of_nat op :: rws_opcode)"
proof -
  have b: "(encode_frame op key msg @ rest) ! 0 = of_nat (128 + op)"
    unfolding encode_frame_def by (simp only: append_assoc header_first)
  show *: "unat ((encode_frame op key msg @ rest) ! 0) = 128 + op"
    unfolding b using assms by (intro unat_u8_of_nat) simp
  have "unat ((encode_frame op key msg @ rest) ! 0 AND 0x0f) = op"
    unfolding unat_and_0f * using assms by (rule opcode_mod)
  then show "ucast ((encode_frame op key msg @ rest) ! 0 AND 0x0f) = (word_of_nat op :: rws_opcode)"
    using assms by (simp add: word_unat_eq_iff unat_of_nat)
qed

text \<open>The buffer of a filled frame holds exactly the encoded frame.\<close>

lemma filled_frame:
  assumes "fresh_ok m" and "blocks m b = Some (OFrame f)"
    and "unat (f_opcode f) < 16" and "f_is_masked f \<Longrightarrow> length (f_mask f) = 4"
    and "load_bytes p (length msg) m = Some msg" and "length msg < 2 ^ 32"
  obtains m1 where "rws_frame_fill_with_send_data (Ptr b 0) p (length msg) m = Some m1"
    and "get_frame (Ptr b 0) m1 = Some (sent_frame f (length msg) (Ptr (next_blk m) 0))"
    and "load_bytes (Ptr (next_blk m) 0) (f_data_size (sent_frame f (length msg) (Ptr (next_blk m) 0))) m1 =
      Some (encode_frame (unat (f_opcode f)) (frame_key f) msg)"
    and "frame_at (Ptr b 0) (sent_frame f (length msg) (Ptr (next_blk m) 0)) [b, next_blk m] (blocks m1)"
proof -
  have new: "b \<noteq> next_blk m" using assms(1,2) by (auto simp: fresh_ok_def)
  let ?f = "sent_frame f (length msg) (Ptr (next_blk m) 0)"
  let ?e = "encode_frame (unat (f_opcode f)) (frame_key f) msg"
  have e: "header_bytes (unat (f_opcode f)) (frame_key f) (length msg mod 2 ^ 32) @
      mask_with (frame_key f) msg = ?e"
    using assms(6) by (simp add: encode_frame_def)
  have size: "f_data_size ?f = length ?e"
    using assms(6) by (simp add: sent_frame_def encode_frame_def Let_def)
  have data: "f_data ?f = Ptr (next_blk m) 0" by (simp add: sent_frame_def Let_def)
  show thesis
  proof (rule that [OF fill_with_send_data_run [OF assms(1-5), unfolded e]])
  qed (use new in \<open>simp_all add: run_simps size data frame_at_def\<close>)
qed

text \<open>A frame object built from an encoded frame: a close frame, a pong and a frame without payload have no data.\<close>

lemma recv_encoded:
  assumes fresh: "fresh_ok m" and op: "op < 16" and key: "key_ok key" and size: "length msg < 2 ^ 32"
    and ld: "load_bytes p (length (encode_frame op key msg)) m = Some (encode_frame op key msg)"
  defines "wire \<equiv> encode_frame op key msg"
  shows "rws_frame_create_with_recv_data p (length wire) m = Some (Ptr (next_blk m) 0,
    if op = 8 \<or> op = 10 \<or> msg = [] then after_header wire m
    else set_heap ((blocks m)
        (next_blk m \<mapsto> OFrame (recv_frame wire m\<lparr>f_data := Ptr (Suc (next_blk m)) 0, f_data_size := length msg\<rparr>),
         Suc (next_blk m) \<mapsto> OBytes (map Some msg)))
      (Suc (Suc (next_blk m))) (skip_rands m))"
proof -
  note hdr = encode_hdr [OF key size, of op "[]", simplified, folded wire_def]
  have pay: "payload_at wire = msg" using payload_encode [OF key size, of op "[]"] by (simp add: wire_def)
  have two: "2 \<le> length wire" using hdr hdr_len_bounds(1) [of wire] by linarith
  have kind: "unat (wire ! 0) mod 16 \<notin> {8, 10} \<and> 0 < low_len wire \<longleftrightarrow> \<not> (op = 8 \<or> op = 10 \<or> msg = [])"
    using encode_first(1) [OF op, of key msg "[]"] hdr opcode_mod [OF op] by (simp add: wire_def)
  have len: "hdr_len wire + low_len wire \<le> length wire" using hdr by simp
  then have hd: "hdr_len wire \<le> length wire" by simp
  show ?thesis
    using recv_create_data [OF fresh ld [folded wire_def] two len] recv_create_header_only [OF fresh ld [folded wire_def] two hd]
      kind pay hdr(2) by auto
qed

section \<open>Arbitrary received bytes\<close>

text \<open>
  Building a frame from readable bytes ends, whatever the bytes are, as long as the announced size
  fits: with no frame and no change, or with a fresh frame object that owns its data.
\<close>

definition new_frame :: "ptr \<Rightarrow> 'a mem_scheme \<Rightarrow> 'a mem_scheme \<Rightarrow> bool" where
  "new_frame q m m' \<longleftrightarrow> (\<exists>f D. frame_at q f D (blocks m') \<and> live m' = live m \<union> set D \<and>
     set D \<inter> live m = {} \<and> (\<forall>b. b \<notin> set D \<longrightarrow> blocks m' b = blocks m b))"

lemma new_frame_delete:
  assumes "new_frame q m m'"
  shows "\<exists>m''. rws_frame_delete q m' = Some m'' \<and> blocks m'' = blocks m"
proof -
  from assms obtain f D where fr: "frame_at q f D (blocks m')" and new: "\<And>b. b \<in> set D \<Longrightarrow> blocks m b = None"
    and eq: "\<And>b. b \<notin> set D \<Longrightarrow> blocks m' b = blocks m b"
    unfolding new_frame_def live_def by blast
  have "(\<lambda>b. if b \<in> set D then None else blocks m' b) = blocks m"
    using new eq by (auto simp: fun_eq_iff)
  then show ?thesis using rws_frame_delete_run [OF fr] by simp
qed

lemma recv_create_outcome:
  assumes fresh: "fresh_ok m" and ld: "load_bytes p n m = Some bs"
    and size: "n < 2 \<or> n < hdr_len bs \<or> hdr_len bs + low_len bs \<le> n"
  shows "\<exists>q m'. rws_frame_create_with_recv_data p n m = Some (q, m') \<and> fresh_ok m' \<and> heap_only m m' \<and>
    (q = NULL \<and> m' = m \<or> new_frame q m m')"
proof -
  consider (short) "n < 2 \<or> n < hdr_len bs"
    | (plain) "2 \<le> n" "hdr_len bs \<le> n" "\<not> carries_data bs"
    | (data) "2 \<le> n" "hdr_len bs + low_len bs \<le> n" "carries_data bs"
    using size by fastforce
  then show ?thesis
  proof cases
    case short
    then show ?thesis using recv_create_short [OF ld] fresh by simp
  next
    case plain
    let ?m = "after_header bs m"
    have "new_frame (Ptr (next_blk m) 0) m ?m"
      unfolding new_frame_def using fresh
      by (intro exI [of _ "recv_frame bs m"] exI [of _ "[next_blk m]"])
        (auto simp: after_header_def frame_at_def recv_frame_def live_def dest: fresh_unused)
    then show ?thesis using recv_create_header_only [OF fresh ld plain] fresh
      by (auto simp: after_header_def fresh_ok_def less_Suc_eq)
  next
    case data
    let ?f = "recv_frame bs m\<lparr>f_data := Ptr (Suc (next_blk m)) 0, f_data_size := low_len bs\<rparr>"
    let ?m = "set_heap ((blocks m)(next_blk m \<mapsto> OFrame ?f,
       Suc (next_blk m) \<mapsto> OBytes (map Some (payload_at bs)))) (Suc (Suc (next_blk m))) (skip_rands m)"
    have "blocks m (Suc (next_blk m)) = None" using fresh by (auto simp: fresh_ok_def)
    then have "new_frame (Ptr (next_blk m) 0) m ?m"
      unfolding new_frame_def using fresh_unused [OF fresh]
      by (intro exI [of _ ?f] exI [of _ "[next_blk m, Suc (next_blk m)]"])
        (auto simp: frame_at_def live_def)
    moreover have "fresh_ok ?m" using fresh by (auto simp: fresh_ok_def less_Suc_eq)
    ultimately show ?thesis using recv_create_data [OF fresh ld data] by auto
  qed
qed

lemma mod_wrap: "a < k \<Longrightarrow> b \<le> k \<Longrightarrow> k \<le> a + b \<Longrightarrow> (a + b) mod k < (b :: nat)"
  by (simp add: le_mod_geq)

text \<open>What the size check accepts satisfies the condition on the size.\<close>

lemma checked_size:
  assumes "t = check_size bs" and "0 < t"
  shows "t < 2 \<or> t < hdr_len (take t bs) \<or> hdr_len (take t bs) + low_len (take t bs) \<le> t"
proof (cases "2 \<le> t \<and> hdr_len (take t bs) \<le> t")
  case True
  have le: "t \<le> length bs" using assms(1) check_size_le [of bs] by simp
  let ?u = "take t bs"
  have u: "2 \<le> length ?u" "hdr_len ?u \<le> length ?u" using True le by simp_all
  have "hdr_len bs = hdr_len ?u" "low_len bs = low_len ?u"
    using hdr_len_append(1) [OF u(1), of "drop t bs"] low_len_append [OF u, of "drop t bs"] by simp_all
  moreover have "t = (low_len bs + hdr_len bs) mod 2 ^ 32"
    using assms by (auto simp: check_size_def Let_def split: if_splits)
  ultimately have t: "t = (low_len ?u + hdr_len ?u) mod 2 ^ 32" by metis
  moreover have "(low_len ?u + hdr_len ?u) mod 2 ^ 32 < hdr_len ?u" if "2 ^ 32 \<le> low_len ?u + hdr_len ?u"
    by (rule mod_wrap [OF low_len_less _ that]) (rule le_trans [OF hdr_len_bounds(2)], simp)
  ultimately have "low_len ?u + hdr_len ?u < 2 ^ 32" using True by (metis leD leI)
  with t have "t = low_len ?u + hdr_len ?u" by (metis mod_less)
  then show ?thesis by linarith
qed auto

section \<open>Properties\<close>

lemma encoded_received:
  assumes "fresh_ok m" and op: "unat (f_opcode f) < 16" and key: "f_is_masked f \<Longrightarrow> length (f_mask f) = 4"
    and size: "length msg < 2 ^ 32 - 14"
    and ld: "load_bytes q (length (encode_frame (unat (f_opcode f)) (frame_key f) msg @ rest)) m =
      Some (encode_frame (unat (f_opcode f)) (frame_key f) msg @ rest)"
  defines "wire \<equiv> encode_frame (unat (f_opcode f)) (frame_key f) msg"
  shows "rws_check_recv_frame_size q (length (wire @ rest)) m = Some (length wire)"
    and "\<exists>r m2 h. rws_frame_create_with_recv_data q (length wire) m = Some (r, m2) \<and> get_frame r m2 = Some h \<and>
      f_opcode h = f_opcode f \<and> f_is_finished h \<and> f_is_masked h = f_is_masked f \<and> (f_is_masked f \<longrightarrow> f_mask h = f_mask f) \<and>
      (if unat (f_opcode f) = 8 \<or> unat (f_opcode f) = 10 \<or> msg = [] then f_data h = NULL \<and> f_data_size h = 0
       else f_data_size h = length msg \<and> load_bytes (f_data h) (length msg) m2 = Some msg)"
proof -
  have ok: "key_ok (frame_key f)" using key by (rule key_ok_frame)
  show "rws_check_recv_frame_size q (length (wire @ rest)) m = Some (length wire)"
    using check_recv_frame_size_run [OF ld] check_size_encode [OF ok size(1)] by (simp add: wire_def)
  have pre: "load_bytes q (length wire) m = Some wire" using load_bytes_prefix [OF ld, of "length wire"] by (simp add: wire_def)
  have lt: "length msg < 2 ^ 32" using size(1) by simp
  have fin: "f_opcode (recv_frame wire m) = f_opcode f" "f_is_finished (recv_frame wire m)"
    using encode_first [OF op, of "frame_key f" msg "[]"] by (simp_all add: recv_frame_def wire_def)
  have "masked_bit wire = f_is_masked f"
    using header_masked [of "unat (f_opcode f)" "frame_key f" "length msg" "mask_with (frame_key f) msg"]
    by (simp add: wire_def encode_frame_def frame_key_def)
  moreover have "mask_at wire = f_mask f" if "f_is_masked f"
    using header_mask [OF key [OF that], of "unat (f_opcode f)" "length msg" "mask_with (frame_key f) msg"] that
    by (simp add: wire_def encode_frame_def frame_key_def)
  ultimately have mask: "f_is_masked (recv_frame wire m) = f_is_masked f" "f_is_masked f \<longrightarrow> f_mask (recv_frame wire m) = f_mask f"
    by (simp_all add: recv_frame_def)
  have "f_data (recv_frame wire m) = NULL" "f_data_size (recv_frame wire m) = 0" by (simp_all add: recv_frame_def)
  then show "\<exists>r m2 h. rws_frame_create_with_recv_data q (length wire) m = Some (r, m2) \<and> get_frame r m2 = Some h \<and>
      f_opcode h = f_opcode f \<and> f_is_finished h \<and> f_is_masked h = f_is_masked f \<and> (f_is_masked f \<longrightarrow> f_mask h = f_mask f) \<and>
      (if unat (f_opcode f) = 8 \<or> unat (f_opcode f) = 10 \<or> msg = [] then f_data h = NULL \<and> f_data_size h = 0
       else f_data_size h = length msg \<and> load_bytes (f_data h) (length msg) m2 = Some msg)"
    using recv_encoded [OF assms(1) op ok lt pre [unfolded wire_def]] fin mask
    by (simp add: wire_def [symmetric] after_header_def run_simps)
qed

text \<open>C6: What one side fills into a frame to send, the other side reads back.  For every opcode, with or without a
  mask and for every payload of less than \<open>2^32 - 14\<close> bytes: on the bytes of the filled frame, followed by anything, the size
  check returns exactly the length of the frame, and the frame built from it is final, has the same opcode, mask bit and masking
  key, and carries the same payload - except that the parser keeps no payload of a close frame (opcode 8) and of a pong (opcode
  10), which come back without data, as a frame does whose payload is empty.\<close>

theorem frame_roundtrip:
  assumes fresh: "fresh_ok m" and fr: "blocks m b = Some (OFrame f)" and op: "unat (f_opcode f) < 16"
    and key: "f_is_masked f \<Longrightarrow> length (f_mask f) = 4"
    and ld: "load_bytes p (length msg) m = Some msg" and size: "length msg < 2 ^ 32 - 14"
  shows "\<exists>m1 g wire. rws_frame_fill_with_send_data (Ptr b 0) p (length msg) m = Some m1 \<and>
     get_frame (Ptr b 0) m1 = Some g \<and> load_bytes (f_data g) (f_data_size g) m1 = Some wire \<and>
     (\<forall>m' q rest. fresh_ok m' \<longrightarrow> load_bytes q (length (wire @ rest)) m' = Some (wire @ rest) \<longrightarrow>
        rws_check_recv_frame_size q (length (wire @ rest)) m' = Some (length wire) \<and>
        (\<exists>r m2 h. rws_frame_create_with_recv_data q (length wire) m' = Some (r, m2) \<and> get_frame r m2 = Some h \<and>
          f_opcode h = f_opcode f \<and> f_is_finished h \<and> f_is_masked h = f_is_masked f \<and> (f_is_masked f \<longrightarrow> f_mask h = f_mask f) \<and>
          (if unat (f_opcode f) = 8 \<or> unat (f_opcode f) = 10 \<or> msg = [] then f_data h = NULL \<and> f_data_size h = 0
           else f_data_size h = length msg \<and> load_bytes (f_data h) (length msg) m2 = Some msg)))"
proof -
  let ?wire = "encode_frame (unat (f_opcode f)) (frame_key f) msg"
  have lt: "length msg < 2 ^ 32" using size by simp
  obtain m1 where m1: "rws_frame_fill_with_send_data (Ptr b 0) p (length msg) m = Some m1"
      "get_frame (Ptr b 0) m1 = Some (sent_frame f (length msg) (Ptr (next_blk m) 0))"
      "load_bytes (f_data (sent_frame f (length msg) (Ptr (next_blk m) 0)))
         (f_data_size (sent_frame f (length msg) (Ptr (next_blk m) 0))) m1 = Some ?wire"
    using filled_frame [OF fresh fr op key ld lt] by (auto simp: sent_frame_def Let_def)
  show ?thesis
    by (rule exI, rule exI, rule exI, intro conjI allI impI, rule m1(1), rule m1(2), rule m1(3))
      (rule encoded_received [OF _ op key size]; assumption)+
qed

theorem frame_roundtrip_witness:
  "\<exists>m1 g wire r m2 h. rws_frame_fill_with_send_data (Ptr 0 0) (Lit [104, 105] 0) 2
      (heap_of [OFrame (zero_frame\<lparr>f_opcode := 1, f_mask := [1, 2, 3, 4], f_is_masked := True\<rparr>)]) = Some m1 \<and>
    get_frame (Ptr 0 0) m1 = Some g \<and> load_bytes (f_data g) (f_data_size g) m1 = Some wire \<and>
    rws_check_recv_frame_size (Lit (wire @ [7]) 0) (length wire + 1) (heap_of []) = Some (length wire) \<and>
    rws_frame_create_with_recv_data (Lit (wire @ [7]) 0) (length wire) (heap_of []) = Some (r, m2) \<and> get_frame r m2 = Some h \<and>
    f_opcode h = 1 \<and> f_is_finished h \<and> f_mask h = [1, 2, 3, 4] \<and> load_bytes (f_data h) 2 m2 = Some [104, 105]"
proof -
  let ?f = "zero_frame\<lparr>f_opcode := 1, f_mask := [1, 2, 3, 4], f_is_masked := True\<rparr>" and ?none = "heap_of []"
  let ?m = "heap_of [OFrame ?f]"
  have pre: "fresh_ok ?m" "blocks ?m 0 = Some (OFrame ?f)" "unat (f_opcode ?f) < 16" "f_is_masked ?f \<Longrightarrow> length (f_mask ?f) = 4"
      "load_bytes (Lit [104, 105] 0) (length [104, 105]) ?m = Some [104, 105]" "length [104, 105 :: u8] < 2 ^ 32 - 14"
    by simp_all
  have fresh: "fresh_ok ?none" by simp
  have ld: "load_bytes (Lit bs 0) (length bs) ?none = Some bs" for bs by simp
  from frame_roundtrip [OF pre] obtain m1 g wire where g: "rws_frame_fill_with_send_data (Ptr 0 0) (Lit [104, 105] 0) (length [104, 105 :: u8]) ?m = Some m1"
      "get_frame (Ptr 0 0) m1 = Some g" "load_bytes (f_data g) (f_data_size g) m1 = Some wire"
      "rws_check_recv_frame_size (Lit (wire @ [7]) 0) (length (wire @ [7])) ?none = Some (length wire) \<and>
        (\<exists>r m2 h. rws_frame_create_with_recv_data (Lit (wire @ [7]) 0) (length wire) ?none = Some (r, m2) \<and> get_frame r m2 = Some h \<and>
          f_opcode h = f_opcode ?f \<and> f_is_finished h \<and> f_is_masked h = f_is_masked ?f \<and> (f_is_masked ?f \<longrightarrow> f_mask h = f_mask ?f) \<and>
          (if unat (f_opcode ?f) = 8 \<or> unat (f_opcode ?f) = 10 \<or> [104, 105 :: u8] = [] then f_data h = NULL \<and> f_data_size h = 0
           else f_data_size h = length [104, 105 :: u8] \<and> load_bytes (f_data h) (length [104, 105 :: u8]) m2 = Some [104, 105]))"
    using fresh ld by blast
  then show ?thesis by (auto simp: numeral_2_eq_2)
qed

text \<open>C9: The receiver is memory safe for every byte sequence an endpoint may send.  The size check
  reads only the received bytes and asks for no more than there are; when it accepts, building the
  frame from that many bytes reads only those, leaves every existing object as it is, and yields
  no frame or a new one, which can be deleted to give back exactly what it took.\<close>

theorem recv_frame_safe:
  assumes "fresh_ok m" and "load_bytes p n m = Some bs"
  shows "\<exists>t. rws_check_recv_frame_size p n m = Some t \<and> t \<le> n \<and>
    (0 < t \<longrightarrow> (\<exists>q m'. rws_frame_create_with_recv_data p t m = Some (q, m') \<and> fresh_ok m' \<and> heap_only m m' \<and>
       (q = NULL \<and> m' = m \<or> new_frame q m m' \<and>
          (\<exists>m''. rws_frame_delete q m' = Some m'' \<and> blocks m'' = blocks m))))"
proof -
  let ?t = "check_size bs"
  have "?t \<le> n" using check_size_le [of bs] load_bytes_SomeD [OF assms(2)] by simp
  moreover have "\<exists>q m'. rws_frame_create_with_recv_data p ?t m = Some (q, m') \<and> fresh_ok m' \<and> heap_only m m' \<and>
       (q = NULL \<and> m' = m \<or> new_frame q m m' \<and>
          (\<exists>m''. rws_frame_delete q m' = Some m'' \<and> blocks m'' = blocks m))" if "0 < ?t"
    using recv_create_outcome [OF assms(1) load_bytes_prefix [OF assms(2) \<open>?t \<le> n\<close>]]
      checked_size [OF refl that] by (auto dest: new_frame_delete)
  ultimately show ?thesis using check_recv_frame_size_run [OF assms(2)] by auto
qed

theorem recv_frame_safe_witness:
  "\<exists>t. rws_check_recv_frame_size (Lit [129, 254, 1, 0, 9] 0) 5 (heap_of []) = Some t \<and> t \<le> 5"
  using recv_frame_safe [of "heap_of []" "Lit [129, 254, 1, 0, 9] 0" 5 "[129, 254, 1, 0, 9]"] by auto

text \<open>C31: For frames whose announced size stays below 4 GiB the size check is exact: it answers the
  size RFC 6455 announces as soon as the whole frame is in the buffer, and 0 before.\<close>

theorem check_recv_frame_size_exact:
  assumes "load_bytes p n m = Some bs" and "2 \<le> n \<Longrightarrow> hdr_len bs \<le> n \<Longrightarrow> hdr_len bs + rfc_len bs < 2 ^ 32"
  shows "rws_check_recv_frame_size p n m =
    Some (if 2 \<le> n \<and> hdr_len bs \<le> n \<and> hdr_len bs + rfc_len bs \<le> n then hdr_len bs + rfc_len bs else 0)"
proof (cases "2 \<le> n \<and> hdr_len bs \<le> n")
  case True
  have len: "length bs = n" using assms(1) by (rule load_bytes_SomeD)
  have small: "hdr_len bs + rfc_len bs < 2 ^ 32" using assms(2) True by simp
  then have "low_len bs = rfc_len bs" using low_len_rfc [of bs] True len by simp
  with small True len show ?thesis
    by (simp add: check_recv_frame_size_run [OF assms(1)] check_size_def add.commute)
next
  case False
  with load_bytes_SomeD [OF assms(1)] show ?thesis
    by (auto simp: check_recv_frame_size_run [OF assms(1)] check_size_def)
qed

theorem check_recv_frame_size_exact_witness:
  "rws_check_recv_frame_size (Lit [129, 2, 72, 105, 7] 0) 5 (heap_of []) = Some 4"
proof -
  have "hdr_len [129, 2, 72, 105, 7] = 2" "rfc_len [129, 2, 72, 105, 7] = 2"
    by (simp_all add: hdr_len_def rfc_len_def masked_bit_def len7_def)
  then show ?thesis
    using check_recv_frame_size_exact [of "Lit [129, 2, 72, 105, 7] 0" 5 "heap_of []" "[129, 2, 72, 105, 7]"]
    by simp
qed

text \<open>The receiver drops the high half of a 64-bit length.  A frame that announces a multiple of
  4 GiB is taken for a frame without payload, so that its payload is parsed as frames; and a frame
  whose header and payload together make up such a multiple is never accepted, however much of it
  has arrived.\<close>

lemma check_len64_truncated:
  assumes "load_bytes p n m = Some bs" and "2 \<le> n" and "hdr_len bs \<le> n"
  shows "(rfc_len bs mod 2 ^ 32 = 0 \<longrightarrow> rws_check_recv_frame_size p n m = Some (hdr_len bs)) \<and>
    ((rfc_len bs + hdr_len bs) mod 2 ^ 32 = 0 \<longrightarrow> rws_check_recv_frame_size p n m = Some 0)"
proof -
  have len: "length bs = n" using assms(1) by (rule load_bytes_SomeD)
  have low: "low_len bs = rfc_len bs mod 2 ^ 32" using low_len_rfc [of bs] assms(3) len by simp
  have "hdr_len bs mod 2 ^ 32 = hdr_len bs"
    using hdr_len_bounds(2) [of bs] by (intro mod_less) simp
  moreover have "(low_len bs + hdr_len bs) mod 2 ^ 32 = (rfc_len bs + hdr_len bs) mod 2 ^ 32"
    unfolding low by (rule mod_add_left_eq)
  moreover have "rws_check_recv_frame_size p n m =
      Some (let t = (low_len bs + hdr_len bs) mod 2 ^ 32 in if t \<le> n then t else 0)"
    unfolding check_recv_frame_size_run [OF assms(1)] check_size_def using assms(2,3) len by simp
  ultimately show ?thesis using low assms(3) by (auto simp: Let_def)
qed

text \<open>C32: The header written for a frame is the one of RFC 6455, in its minimal encoding.  It has two bytes when the payload
  is below 126 bytes, four when it is below 64 KiB and ten otherwise, and four more for the key of a masked frame, so that it fits the
  16-byte array, and \<open>header_size\<close> says so; no other field changes.  The first byte is the opcode with the final bit and no
  reserved bit; the second one the mask bit with the length itself, with 126 or with 127; the length is the number \<open>n\<close> of payload
  bytes, big-endian (\<open>rfc_len\<close>), and the last four bytes are the key.\<close>

theorem create_header_correct:
  assumes op: "unat (f_opcode f) < 16" and key: "f_is_masked f \<Longrightarrow> length (f_mask f) = 4"
    and size: "n < 2 ^ 32" and run: "rws_frame_create_header f n = (h, f')"
  shows "length h = (if n < 126 then 2 else if n < 2 ^ 16 then 4 else 10) + (if f_is_masked f then 4 else 0) \<and>
    unat (f_header_size f') = length h \<and> f' = f\<lparr>f_header_size := f_header_size f'\<rparr> \<and>
    unat (h ! 0) = 128 + unat (f_opcode f) \<and>
    unat (h ! 1) = (if f_is_masked f then 128 else 0) + (if n < 126 then n else if n < 2 ^ 16 then 126 else 127) \<and>
    hdr_len h = length h \<and> rfc_len h = n \<and> (f_is_masked f \<longrightarrow> mask_at h = f_mask f)"
proof -
  have ok: "key_ok (frame_key f)" using key by (rule key_ok_frame)
  have h: "h = header_bytes (unat (f_opcode f)) (frame_key f) n"
    and f': "f' = f\<lparr>f_header_size := of_nat (length h)\<rparr>"
    using create_header_run [OF op key, of n] run size by auto
  have len: "length h = (if n < 126 then 2 else if n < 2 ^ 16 then 4 else 10) + (if f_is_masked f then 4 else 0)"
    using length_header_bytes [of "frame_key f" "unat (f_opcode f)" n] key by (auto simp: h frame_key_def split: if_split_asm)
  have "unat (h ! 0) = 128 + unat (f_opcode f)"
    using header_first [of "unat (f_opcode f)" "frame_key f" n "[]"] op
      unat_u8_of_nat [of "128 + unat (f_opcode f)"] by (simp add: h)
  moreover have "unat (h ! 1) = (if f_is_masked f then 128 else 0) + (if n < 126 then n else if n < 2 ^ 16 then 126 else 127)"
    using header_second [of "unat (f_opcode f)" "frame_key f" n "[]"] by (simp add: h frame_key_def)
  moreover have "mask_at h = f_mask f" if "f_is_masked f"
    using header_mask [OF key, of "unat (f_opcode f)" n "[]"] that by (simp add: h frame_key_def)
  moreover have "hdr_len h = length h" "rfc_len h = n"
    using header_hdr_len [OF ok, of "unat (f_opcode f)" n "[]"]
      header_low_len(2) [OF size, of "unat (f_opcode f)" "frame_key f" "[]"] by (simp_all add: h)
  moreover have "unat (f_header_size f') = length h" using f' len unat_u8_of_nat [of "length h"] by simp
  ultimately show ?thesis using len f' by simp
qed

theorem create_header_correct_witness:
  "\<exists>f'. rws_frame_create_header (zero_frame\<lparr>f_opcode := 1, f_mask := [1, 2, 3, 4], f_is_masked := True\<rparr>) 300 =
      ([129, 254, 1, 44, 1, 2, 3, 4], f') \<and> unat (f_header_size f') = 8 \<and>
    rfc_len [129, 254, 1, 44, 1, 2, 3, 4] = 300 \<and> mask_at [129, 254, 1, 44, 1, 2, 3, 4] = [1, 2, 3, 4]"
proof -
  let ?f = "zero_frame\<lparr>f_opcode := 1, f_mask := [1, 2, 3, 4], f_is_masked := True\<rparr>"
  obtain f' where f': "rws_frame_create_header ?f 300 = ([129, 254, 1, 44, 1, 2, 3, 4], f')"
    by (simp add: rws_frame_create_header_def zero_frame_def)
  then show ?thesis using create_header_correct [OF _ _ _ f'] by (simp add: zero_frame_def)
qed

section \<open>Combined fragments\<close>

text \<open>
  After two non-empty fragments are combined, reading the announced bytes leaves the buffer, and
  the frame cannot be deleted.
\<close>

lemma combine_dangling:
  assumes fresh: "fresh_ok m"
    and t: "blocks m a = Some (OFrame t)" "f_data t = Ptr x 0" "blocks m x = Some (OBytes (map Some ts))"
      "f_data_size t = length ts" "ts \<noteq> []"
    and r: "blocks m b = Some (OFrame r)" "load_bytes (f_data r) (f_data_size r) m = Some rs"
  obtains m' t' where "rws_frame_combine_datas (Ptr a 0) (Ptr b 0) m = Some m'"
    and "blocks m' a = Some (OFrame t')" and "f_data t' = Ptr (next_blk m) (length ts)"
    and "f_data_size t' = length ts + length rs" and "f_opcode t' = f_opcode t"
    and "load_bytes (f_data t') (f_data_size t') m' = None"
    and "rws_free (f_data t') m' = None"
proof -
  have new: "a \<noteq> next_blk m" "x \<noteq> next_blk m" "a \<noteq> x" using fresh t by (auto simp: fresh_ok_def)
  show thesis
    by (rule that [OF combine_run [OF assms], where t' = "t\<lparr>f_data := Ptr (next_blk m) (length ts),
          f_data_size := length ts + length rs\<rparr>"])
      (use new t(5) in \<open>simp_all add: load_bytes_def load_past_end rws_free_bad\<close>)
qed

end
