(* ===== verification/Rws_String.thy ===== *)
theory Rws_String
  imports Rws_Memory
begin

text \<open>
  \<open>rws_string.c\<close>: copies of C strings.  \<open>c_string p bs m\<close> says that \<open>p\<close> points to the
  NUL-terminated string with the bytes \<open>bs\<close>.  A string argument may be a string constant or any
  address in the heap, so aliasing with the library's own strings is visible.
\<close>

section \<open>Operations\<close>

text \<open>\<open>strlen\<close> reads bytes up to the first NUL; past the end of the object there is no result.\<close>

fun strlen_cells :: "cell list \<Rightarrow> nat option" where
  "strlen_cells [] = None"
| "strlen_cells (None # cs) = None"
| "strlen_cells (Some b # cs) = (if b = 0 then Some 0 else map_option Suc (strlen_cells cs))"

definition strlen :: "ptr \<Rightarrow> 'a mem_scheme \<Rightarrow> nat option" where
  "strlen p m = do { cs \<leftarrow> cells_from p m; strlen_cells cs }"

definition rws_string_copy_len :: "ptr \<Rightarrow> nat \<Rightarrow> 'a mem_scheme \<Rightarrow> (ptr \<times> 'a mem_scheme) option" where
  "rws_string_copy_len str len m =
     (let (s, m) = (if str \<noteq> NULL \<and> 0 < len then rws_malloc (len + 1) m else (NULL, m))
      in if s \<noteq> NULL then do {
             m \<leftarrow> memcpy s str len m;
             m \<leftarrow> store (ptr_add s len) [Some 0] m;
             Some (s, m) }
         else Some (NULL, m))"

definition rws_string_copy :: "ptr \<Rightarrow> 'a mem_scheme \<Rightarrow> (ptr \<times> 'a mem_scheme) option" where
  "rws_string_copy str m =
     (if str \<noteq> NULL then do { n \<leftarrow> strlen str m; rws_string_copy_len str n m } else Some (NULL, m))"

definition rws_string_delete :: "ptr \<Rightarrow> 'a mem_scheme \<Rightarrow> 'a mem_scheme option" where
  "rws_string_delete str m = rws_free str m"

definition rws_string_delete_clean :: "ptr \<Rightarrow> 'a mem_scheme \<Rightarrow> (ptr \<times> 'a mem_scheme) option" where
  "rws_string_delete_clean str m = do { m \<leftarrow> rws_free str m; Some (NULL, m) }"

section \<open>Strings in memory\<close>

definition c_string :: "ptr \<Rightarrow> u8 list \<Rightarrow> 'a mem_scheme \<Rightarrow> bool" where
  "c_string p bs m \<longleftrightarrow> 0 \<notin> set bs \<and> load_bytes p (Suc (length bs)) m = Some (bs @ [0])"

lemma c_string_not_NULL: "c_string p bs m \<Longrightarrow> p \<noteq> NULL"
  by (auto simp: c_string_def load_bytes_def load_def cells_from_def)

lemma c_string_Lit [simp]: "c_string (Lit bs 0) cs m \<longleftrightarrow> cs = bs \<and> 0 \<notin> set bs" if "0 \<notin> set bs"
proof
  assume "c_string (Lit bs 0) cs m"
  then have nz: "0 \<notin> set cs" and len: "Suc (length cs) \<le> Suc (length bs)"
    and tk: "take (Suc (length cs)) (map Some bs @ [Some 0]) = map Some (cs @ [0])"
    by (auto simp: c_string_def load_bytes_eq load_def cells_from_def split: if_splits)
  have "length cs = length bs"
  proof (rule ccontr)
    assume "length cs \<noteq> length bs"
    with len have lt: "length cs < length bs" by simp
    then have "(take (Suc (length cs)) (map Some bs @ [Some 0])) ! length cs = Some (bs ! length cs)"
      by (simp add: nth_append)
    then have "bs ! length cs = 0" unfolding tk by (simp add: nth_append)
    with lt that show False by (metis nth_mem)
  qed
  with tk nz show "cs = bs \<and> 0 \<notin> set bs" by (simp add: inj_map_eq_map that)
next
  assume "cs = bs \<and> 0 \<notin> set bs"
  then show "c_string (Lit bs 0) cs m"
    by (simp add: c_string_def load_bytes_eq load_def cells_from_def)
qed

lemma strlen_cells_string:
  "0 \<notin> set bs \<Longrightarrow> strlen_cells (map Some bs @ Some 0 # cs) = Some (length bs)"
  by (induction bs) auto

lemma c_string_cells:
  assumes "c_string p bs m"
  obtains cs where "cells_from p m = Some (map Some bs @ Some 0 # cs)"
proof -
  from assms obtain ds where ds: "cells_from p m = Some ds"
      "take (Suc (length bs)) ds = map Some (bs @ [0])"
    by (auto simp: c_string_def load_bytes_eq load_def Option.bind_eq_Some_conv split: if_splits)
  have "ds = take (Suc (length bs)) ds @ drop (Suc (length bs)) ds" by simp
  then have "ds = map Some bs @ Some 0 # drop (Suc (length bs)) ds" unfolding ds(2) by simp
  with ds(1) that show thesis by metis
qed

lemma strlen_c_string:
  assumes "c_string p bs m"
  shows "strlen p m = Some (length bs)"
proof -
  from assms have "0 \<notin> set bs" by (simp add: c_string_def)
  moreover obtain cs where "cells_from p m = Some (map Some bs @ Some 0 # cs)"
    using assms by (rule c_string_cells)
  ultimately show ?thesis by (simp add: strlen_def strlen_cells_string)
qed

lemma c_string_live:
  assumes "c_string (Ptr b off) bs m"
  shows "\<exists>cs. blocks m b = Some (OBytes cs)"
  using assms by (auto elim!: c_string_cells simp: cells_from_def split: option.splits obj.splits)

text \<open>A string the state holds survives every change to other blocks.\<close>

lemma c_string_unique: "c_string p bs m \<Longrightarrow> c_string p cs m \<Longrightarrow> bs = cs"
proof -
  assume c: "c_string p bs m" "c_string p cs m"
  then have "length bs = length cs" using strlen_c_string [of p bs m] strlen_c_string [of p cs m] by simp
  then show "bs = cs" using c by (simp add: c_string_def)
qed

lemma c_string_cong:
  assumes "\<And>b off. p = Ptr b off \<Longrightarrow> blocks m' b = blocks m b"
  shows "c_string p bs m' = c_string p bs m"
proof -
  have "load_bytes p n m' = load_bytes p n m" for n
    using assms by (intro load_blocks_cong) (cases p; auto)
  then show ?thesis by (simp add: c_string_def)
qed

lemma c_string_block:
  "0 \<notin> set bs \<Longrightarrow> blocks m b = Some (OBytes (map Some (bs @ [0]))) \<Longrightarrow> c_string (Ptr b 0) bs m"
  by (simp add: c_string_def load_bytes_eq load_block)

section \<open>Behaviour of the copies\<close>

lemma rws_string_copy_len_run:
  assumes "fresh_ok m" and "load p n m = Some cs" and "0 < n"
  shows "rws_string_copy_len p n m =
    Some (Ptr (next_blk m) 0,
      set_heap ((blocks m)(next_blk m \<mapsto> OBytes (cs @ [Some 0]))) (Suc (next_blk m)) m)"
proof -
  have p: "p \<noteq> NULL" using assms(2) by (auto simp: load_def cells_from_def)
  have len: "length cs = n" using assms(2) by (rule load_SomeD)
  show ?thesis
    using p assms(3) len load_alloc [OF assms(1,2)]
    by (simp add: rws_string_copy_len_def memcpy_def run_simps)
qed

lemma rws_string_copy_run:
  assumes "fresh_ok m" and "c_string p bs m"
  shows "rws_string_copy p m = (if bs = [] then Some (NULL, m)
     else Some (Ptr (next_blk m) 0,
       set_heap ((blocks m)(next_blk m \<mapsto> OBytes (map Some (bs @ [0])))) (Suc (next_blk m)) m))"
proof -
  have p: "p \<noteq> NULL" using assms(2) by (rule c_string_not_NULL)
  have n: "strlen p m = Some (length bs)" using assms(2) by (rule strlen_c_string)
  have ld: "load p (length bs) m = Some (map Some bs)"
    using load_bytes_prefix [of p "Suc (length bs)" m "bs @ [0]" "length bs"] assms(2)
    by (simp add: c_string_def load_bytes_eq)
  show ?thesis
  proof (cases "bs = []")
    case True
    with p n show ?thesis by (simp add: rws_string_copy_def rws_string_copy_len_def)
  next
    case False
    with p n show ?thesis
      by (simp add: rws_string_copy_def rws_string_copy_len_run [OF assms(1) ld])
  qed
qed

lemma rws_string_copy_NULL [run_simps]: "rws_string_copy NULL m = Some (NULL, m)"
  by (simp add: rws_string_copy_def)

section \<open>Property\<close>

text \<open>Copies of strings are independent: \<open>rws_string_copy\<close> of a non-empty C string returns a new
  block with the same string, every block of the caller is unchanged, and deleting the copy leaves
  exactly the blocks that were there before.  The copy of an empty string and of \<open>NULL\<close> is \<open>NULL\<close>.\<close>

lemma string_copy_independent:
  assumes "fresh_ok m" and "p = NULL \<and> bs = [] \<or> c_string p bs m"
  shows "\<exists>q m' m''. rws_string_copy p m = Some (q, m') \<and> (q = NULL \<longleftrightarrow> bs = []) \<and>
    (bs \<noteq> [] \<longrightarrow> c_string q bs m' \<and> ptr_blks q \<inter> live m = {}) \<and>
    (\<forall>b \<in> live m. blocks m' b = blocks m b) \<and>
    rws_string_delete q m' = Some m'' \<and> blocks m'' = blocks m"
proof -
  have none: "blocks m (next_blk m) = None" by (rule fresh_unused [OF assms(1)])
  from assms(2) show ?thesis
  proof
    assume "p = NULL \<and> bs = []"
    then show ?thesis by (simp add: run_simps rws_string_delete_def)
  next
    assume str: "c_string p bs m"
    then have nz: "0 \<notin> set bs" by (simp add: c_string_def)
    have copy: "c_string (Ptr (next_blk m) 0) bs
        (set_heap ((blocks m)(next_blk m \<mapsto> OBytes (map Some (bs @ [0])))) (Suc (next_blk m)) m)"
      using nz by (intro c_string_block) simp_all
    show ?thesis using none copy rws_string_copy_run [OF assms(1) str]
      by (auto simp: run_simps rws_string_delete_def live_def fun_upd_idem)
  qed
qed

end
