(* ===== verification/Rws_Error.thy ===== *)
theory Rws_Error
  imports Rws_String
begin

text \<open>\<open>rws_error.c\<close>: error objects with a code, an HTTP error and a heap copy of a description.\<close>

section \<open>Operations\<close>

definition rws_error_create :: "'a mem_scheme \<Rightarrow> ptr \<times> 'a mem_scheme" where
  "rws_error_create m = rws_malloc_zero (OError zero_error) m"

definition rws_error_new_code_descr :: "int \<Rightarrow> ptr \<Rightarrow> 'a mem_scheme \<Rightarrow> (ptr \<times> 'a mem_scheme) option" where
  "rws_error_new_code_descr code description m = do {
     let (e, m) = rws_malloc_zero (OError zero_error) m;
     x \<leftarrow> get_err e m;
     m \<leftarrow> put_err e (x\<lparr>e_code := code\<rparr>) m;
     (d, m) \<leftarrow> rws_string_copy description m;
     x \<leftarrow> get_err e m;
     m \<leftarrow> put_err e (x\<lparr>e_description := d\<rparr>) m;
     Some (e, m) }"

definition rws_error_delete :: "ptr \<Rightarrow> 'a mem_scheme \<Rightarrow> 'a mem_scheme option" where
  "rws_error_delete e m =
     (if e \<noteq> NULL then do {
        x \<leftarrow> get_err e m;
        m \<leftarrow> rws_string_delete (e_description x) m;
        rws_free e m }
      else Some m)"

definition rws_error_delete_clean :: "ptr \<Rightarrow> 'a mem_scheme \<Rightarrow> (ptr \<times> 'a mem_scheme) option" where
  "rws_error_delete_clean e m = do { m \<leftarrow> rws_error_delete e m; Some (NULL, m) }"

definition rws_error_get_code :: "ptr \<Rightarrow> 'a mem_scheme \<Rightarrow> int option" where
  "rws_error_get_code e m = (if e \<noteq> NULL then map_option e_code (get_err e m) else Some 0)"

definition rws_error_get_http_error :: "ptr \<Rightarrow> 'a mem_scheme \<Rightarrow> int option" where
  "rws_error_get_http_error e m = (if e \<noteq> NULL then map_option e_http_error (get_err e m) else Some 0)"

definition rws_error_get_description :: "ptr \<Rightarrow> 'a mem_scheme \<Rightarrow> ptr option" where
  "rws_error_get_description e m = (if e \<noteq> NULL then map_option e_description (get_err e m) else Some NULL)"

section \<open>Error objects in memory\<close>

text \<open>
  \<open>error_at e code D m\<close>: \<open>e\<close> is an error object with that code and with HTTP error 0; it and its
  description occupy exactly the blocks \<open>D\<close>.
\<close>

definition error_at :: "ptr \<Rightarrow> int \<Rightarrow> nat list \<Rightarrow> 'a mem_scheme \<Rightarrow> bool" where
  "error_at e code D m \<longleftrightarrow> (case get_err e m of
       None \<Rightarrow> False
     | Some x \<Rightarrow> e_code x = code \<and> e_http_error x = 0 \<and> distinct D \<and>
         (case (e, e_description x) of
            (Ptr b off, NULL) \<Rightarrow> D = [b]
          | (Ptr b off, Ptr d doff) \<Rightarrow> D = [b, d] \<and> doff = 0 \<and> (\<exists>cs. blocks m d = Some (OBytes cs))
          | _ \<Rightarrow> False))"

lemma rws_error_new_run:
  assumes "fresh_ok m" and "c_string descr bs m"
  shows "rws_error_new_code_descr code descr m = Some (Ptr (next_blk m) 0,
    if bs = [] then
      set_heap ((blocks m)(next_blk m \<mapsto> OError (zero_error\<lparr>e_code := code\<rparr>))) (Suc (next_blk m)) m
    else set_heap ((blocks m)
        (next_blk m \<mapsto> OError (zero_error\<lparr>e_code := code, e_description := Ptr (Suc (next_blk m)) 0\<rparr>),
         Suc (next_blk m) \<mapsto> OBytes (map Some (bs @ [0])))) (Suc (Suc (next_blk m))) m)"
proof -
  let ?m = "set_heap ((blocks m)(next_blk m \<mapsto> OError (zero_error\<lparr>e_code := code\<rparr>))) (Suc (next_blk m)) m"
  have "descr = Ptr b off \<Longrightarrow> b \<noteq> next_blk m" for b off
    using c_string_live [of b off bs m] assms fresh_unused [of m] by auto
  then have "c_string descr bs ?m"
    using assms(2) c_string_cong [of descr ?m m bs] by simp
  moreover have "fresh_ok ?m" using assms(1) by simp
  ultimately have copy: "rws_string_copy descr ?m = (if bs = [] then Some (NULL, ?m)
     else Some (Ptr (Suc (next_blk m)) 0,
       set_heap ((blocks ?m)(Suc (next_blk m) \<mapsto> OBytes (map Some (bs @ [0])))) (Suc (Suc (next_blk m))) m))"
    using rws_string_copy_run [of ?m descr bs] by simp
  show ?thesis
    by (simp add: rws_error_new_code_descr_def rws_malloc_zero_def run_simps copy fun_upd_twist)
       (simp add: zero_error_def)
qed

lemma error_at_code: "error_at e code D m \<Longrightarrow> rws_error_get_code e m = Some code"
  by (auto simp: error_at_def rws_error_get_code_def split: option.splits)

lemma error_at_live: "error_at e code D m \<Longrightarrow> set D \<subseteq> live m"
  by (auto simp: error_at_def live_def dest!: get_err_SomeD split: option.splits ptr.splits)

lemma error_at_cong:
  assumes "\<And>b. b \<in> set D \<Longrightarrow> blocks m' b = blocks m b" and "error_at e code D m"
  shows "error_at e code D m'"
proof -
  from assms(2) obtain b x where x: "e = Ptr b 0" "blocks m b = Some (OError x)" "b \<in> set D"
    by (auto simp: error_at_def dest!: get_err_SomeD split: option.splits ptr.splits)
  then have "get_err e m' = get_err e m" using assms(1) by (simp add: get_err_def obj_at_def)
  then show ?thesis using assms by (auto simp: error_at_def split: option.splits ptr.splits)
qed

lemma rws_error_delete_run:
  assumes "error_at e code D m"
  shows "rws_error_delete e m =
    Some (set_heap (\<lambda>b. if b \<in> set D then None else blocks m b) (next_blk m) m)"
proof -
  from assms obtain b x where x: "e = Ptr b 0" "blocks m b = Some (OError x)"
      "(case e_description x of NULL \<Rightarrow> D = [b]
        | Ptr d doff \<Rightarrow> D = [b, d] \<and> b \<noteq> d \<and> doff = 0 \<and> blocks m d \<noteq> None | _ \<Rightarrow> False)"
    by (auto simp: error_at_def dest!: get_err_SomeD split: option.splits ptr.splits)
  then show ?thesis
    by (auto simp: rws_error_delete_def rws_string_delete_def run_simps fun_eq_iff
        intro!: arg_cong [where f = "\<lambda>B. set_heap B _ _"] split: ptr.splits)
qed

section \<open>Property\<close>

text \<open>Every error object can be read and released without a trace: after
  \<open>rws_error_new_code_descr\<close> the accessors return the code, HTTP error 0 and a copy of the
  description (\<open>NULL\<close> for an empty one) that does not depend on the caller's string, and
  \<open>rws_error_delete\<close> then leaves exactly the blocks that were there before.\<close>

lemma error_roundtrip:
  assumes "fresh_ok m" and "c_string descr bs m"
  shows "\<exists>e m' d m''. rws_error_new_code_descr code descr m = Some (e, m') \<and>
    rws_error_get_code e m' = Some code \<and> rws_error_get_http_error e m' = Some 0 \<and>
    rws_error_get_description e m' = Some d \<and>
    (if bs = [] then d = NULL else c_string d bs m' \<and> ptr_blks d \<inter> ptr_blks descr = {}) \<and>
    rws_error_delete e m' = Some m'' \<and> blocks m'' = blocks m \<and> rws_error_delete e m'' = None"
proof -
  let ?n = "next_blk m"
  have none: "blocks m ?n = None" "blocks m (Suc ?n) = None" using assms(1) by (auto simp: fresh_ok_def)
  have nz: "0 \<notin> set bs" using assms(2) by (simp add: c_string_def)
  have descr: "ptr_blks descr \<inter> {Suc ?n} = {}"
    using assms(1,2) c_string_live [of "Suc ?n" _ bs m] none by (cases descr) auto
  show ?thesis
  proof (cases "bs = []")
    case True
    then show ?thesis using none rws_error_new_run [OF assms, of code]
      by (simp add: rws_error_get_code_def rws_error_get_http_error_def rws_error_get_description_def
          rws_error_delete_def rws_string_delete_def run_simps zero_error_def fun_upd_idem get_err_def obj_at_def)
  next
    case False
    let ?B = "(blocks m)(?n \<mapsto> OError (zero_error\<lparr>e_code := code, e_description := Ptr (Suc ?n) 0\<rparr>),
         Suc ?n \<mapsto> OBytes (map Some (bs @ [0])))"
    let ?m1 = "set_heap ?B (Suc (Suc ?n)) m"
    have str: "c_string (Ptr (Suc ?n) 0) bs ?m1" using nz by (intro c_string_block) simp_all
    have undo: "(?B)(Suc ?n := None, ?n := None) = blocks m" using none by (auto simp: fun_eq_iff)
    show ?thesis using str descr undo rws_error_new_run [OF assms, of code] False none
      by (simp add: rws_error_get_code_def rws_error_get_http_error_def rws_error_get_description_def
          rws_error_delete_def rws_string_delete_def run_simps zero_error_def get_err_def obj_at_def Int_commute)
  qed
qed

end
