(* ===== verification/Rws_Thread.thy ===== *)
theory Rws_Thread
  imports Rws_Memory
begin

text \<open>
  The mutexes of \<open>rws_thread.c\<close>.  A recursive mutex object is its lock count; in the execution of
  one thread, locking adds one and unlocking takes one away.  Unlocking a mutex that is not held and
  destroying one that is are undefined, as for \<open>pthread_mutex_t\<close>.
\<close>

definition rws_mutex_create_recursive :: "'a mem_scheme \<Rightarrow> ptr \<times> 'a mem_scheme" where
  "rws_mutex_create_recursive m = rws_malloc_zero (OMutex 0) m"

definition rws_mutex_lock :: "ptr \<Rightarrow> 'a mem_scheme \<Rightarrow> 'a mem_scheme option" where
  "rws_mutex_lock mutex m =
     (if mutex \<noteq> NULL then
        (case obj_at mutex m of Some (OMutex n) \<Rightarrow> Some (set_obj mutex (OMutex (Suc n)) m) | _ \<Rightarrow> None)
      else Some m)"

definition rws_mutex_unlock :: "ptr \<Rightarrow> 'a mem_scheme \<Rightarrow> 'a mem_scheme option" where
  "rws_mutex_unlock mutex m =
     (if mutex \<noteq> NULL then
        (case obj_at mutex m of Some (OMutex (Suc n)) \<Rightarrow> Some (set_obj mutex (OMutex n) m) | _ \<Rightarrow> None)
      else Some m)"

definition rws_mutex_delete :: "ptr \<Rightarrow> 'a mem_scheme \<Rightarrow> 'a mem_scheme option" where
  "rws_mutex_delete mutex m =
     (if mutex \<noteq> NULL then
        (case obj_at mutex m of Some (OMutex 0) \<Rightarrow> rws_free mutex m | _ \<Rightarrow> None)
      else Some m)"

lemma rws_mutex_lock_run [run_simps]:
  "blocks m b = Some (OMutex n) \<Longrightarrow>
   rws_mutex_lock (Ptr b 0) m = Some (set_heap ((blocks m)(b \<mapsto> OMutex (Suc n))) (next_blk m) m)"
  by (simp add: rws_mutex_lock_def obj_at_def set_obj_def set_heap_def)

lemma rws_mutex_unlock_run [run_simps]:
  "blocks m b = Some (OMutex (Suc n)) \<Longrightarrow>
   rws_mutex_unlock (Ptr b 0) m = Some (set_heap ((blocks m)(b \<mapsto> OMutex n)) (next_blk m) m)"
  by (simp add: rws_mutex_unlock_def obj_at_def set_obj_def set_heap_def)

lemma rws_mutex_delete_run [run_simps]:
  "blocks m b = Some (OMutex 0) \<Longrightarrow>
   rws_mutex_delete (Ptr b 0) m = Some (set_heap ((blocks m)(b := None)) (next_blk m) m)"
  by (simp add: rws_mutex_delete_def obj_at_def rws_free_live)

text \<open>Locking and unlocking again leaves the state as it was.\<close>

lemma lock_unlock:
  assumes "blocks m b = Some (OMutex n)"
  shows "do { m' \<leftarrow> rws_mutex_lock (Ptr b 0) m; rws_mutex_unlock (Ptr b 0) m' } = Some m"
proof -
  have "(blocks m)(b \<mapsto> OMutex n) = blocks m" using assms by (simp add: fun_upd_idem)
  then show ?thesis using assms by (simp add: run_simps)
qed

text \<open>Every mutex object of \<open>m\<close> is still there in \<open>m'\<close>, with the same lock count.\<close>

definition keeps_mutexes :: "'a mem_scheme \<Rightarrow> 'b mem_scheme \<Rightarrow> bool" where
  "keeps_mutexes m m' \<longleftrightarrow> (\<forall>k c. blocks m k = Some (OMutex c) \<longrightarrow> blocks m' k = Some (OMutex c))"

lemma keeps_refl [simp]: "keeps_mutexes m m"
  by (simp add: keeps_mutexes_def)

lemma keeps_trans [trans]: "keeps_mutexes m m' \<Longrightarrow> keeps_mutexes m' m'' \<Longrightarrow> keeps_mutexes m m''"
  by (simp add: keeps_mutexes_def)

text \<open>Changes in blocks that hold no mutex, and in new blocks, keep all of them.\<close>

lemma keeps_outside:
  assumes "fresh_ok m" and "\<And>k. k < next_blk m \<Longrightarrow> k \<notin> F \<Longrightarrow> blocks m' k = blocks m k"
    and "\<And>k c. k \<in> F \<Longrightarrow> blocks m k \<noteq> Some (OMutex c)"
  shows "keeps_mutexes m m'"
  unfolding keeps_mutexes_def
proof (intro allI impI)
  fix k c assume k: "blocks m k = Some (OMutex c)"
  then have "k \<notin> F" "k < next_blk m" using assms(1,3) by (auto simp: fresh_ok_def)
  then show "blocks m' k = Some (OMutex c)" using assms(2) k by simp
qed

end
