(* ===== verification/Rws_Socket.thy ===== *)
theory Rws_Socket
  imports Rws_Codec Rws_Error Rws_Thread
begin

text \<open>
  The socket object of \<open>rws_socket.h\<close>, the state of the program around it, and the operations of
  \<open>rws_socketpriv.c\<close> that the others share: the error object, message numbers, closing, sending and
  the classification of write errors.
\<close>

section \<open>State\<close>

abbreviation COMMAND_IDLE :: int where "COMMAND_IDLE \<equiv> -1"
abbreviation COMMAND_NONE :: int where "COMMAND_NONE \<equiv> 0"
abbreviation COMMAND_CONNECT_TO_HOST :: int where "COMMAND_CONNECT_TO_HOST \<equiv> 1"
abbreviation COMMAND_SEND_HANDSHAKE :: int where "COMMAND_SEND_HANDSHAKE \<equiv> 2"
abbreviation COMMAND_WAIT_HANDSHAKE_RESPONCE :: int where "COMMAND_WAIT_HANDSHAKE_RESPONCE \<equiv> 3"
abbreviation COMMAND_INFORM_CONNECTED :: int where "COMMAND_INFORM_CONNECTED \<equiv> 4"
abbreviation COMMAND_INFORM_DISCONNECTED :: int where "COMMAND_INFORM_DISCONNECTED \<equiv> 5"
abbreviation COMMAND_DISCONNECT :: int where "COMMAND_DISCONNECT \<equiv> 6"
abbreviation COMMAND_END :: int where "COMMAND_END \<equiv> 9999"

abbreviation RWS_INVALID_SOCKET :: int where "RWS_INVALID_SOCKET \<equiv> -1"

text \<open>\<open>struct rws_socket_struct\<close>.  A callback is a function pointer: \<open>None\<close> is \<open>NULL\<close>.\<close>

record rws_socket =
  s_port :: int
  s_socket :: int
  s_scheme :: ptr
  s_host :: ptr
  s_path :: ptr
  s_sec_ws_accept :: ptr
  s_work_thread :: ptr
  s_command :: int
  s_next_message_id :: u32
  s_is_connected :: bool
  s_user_object :: ptr
  s_on_connected :: "nat option"
  s_on_disconnected :: "nat option"
  s_on_recvd_text :: "nat option"
  s_on_recvd_bin :: "nat option"
  s_received :: ptr
  s_received_size :: nat
  s_received_len :: nat
  s_send_frames :: ptr
  s_recvd_frames :: ptr
  s_error :: ptr
  s_work_mutex :: ptr
  s_send_mutex :: ptr

text \<open>The object as \<open>rws_malloc_zero\<close> leaves it.\<close>

definition zero_socket :: rws_socket where
  "zero_socket = \<lparr>s_port = 0, s_socket = 0, s_scheme = NULL, s_host = NULL, s_path = NULL,
     s_sec_ws_accept = NULL, s_work_thread = NULL, s_command = 0, s_next_message_id = 0,
     s_is_connected = False, s_user_object = NULL, s_on_connected = None, s_on_disconnected = None,
     s_on_recvd_text = None, s_on_recvd_bin = None, s_received = NULL, s_received_size = 0,
     s_received_len = 0, s_send_frames = NULL, s_recvd_frames = NULL, s_error = NULL,
     s_work_mutex = NULL, s_send_mutex = NULL\<rparr>"

text \<open>
  What the operating system answers, call by call: \<open>send\<close> (result and \<open>errno\<close>), the pending error
  of \<open>getsockopt\<close> (\<open>None\<close> when the call fails), the data a sequence of \<open>recv\<close> calls delivers
  before one returns 0 or -1 (and \<open>errno\<close> then), \<open>getaddrinfo\<close> (result and number of addresses, 0
  for \<open>NULL\<close>), \<open>socket\<close>, and whether \<open>connect\<close> returns 0.  The message tables of \<open>strerror\<close>
  and \<open>gai_strerror\<close> are functions.
\<close>

record env =
  env_send :: "(int \<times> int) stream"
  env_sockopt :: "int option stream"
  env_recv :: "(u8 list list \<times> int) stream"
  env_addrinfo :: "(int \<times> nat) stream"
  env_socket :: "int stream"
  env_connect :: "bool stream"
  env_strerror :: "int \<Rightarrow> u8 list"
  env_gai_strerror :: "int \<Rightarrow> u8 list"

text \<open>What can be seen from outside: bytes put on the wire, descriptors closed, callbacks made.\<close>

datatype event =
    Sent "u8 list"
  | Closed int
  | On_connected
  | On_disconnected int
  | On_text "u8 list"
  | On_bin "u8 list"

record sys = mem +
  sk :: rws_socket
  ev :: env
  trace :: "event list"

lemma set_heap_sys [simp]:
  "sk (set_heap B n s) = sk s" "ev (set_heap B n s) = ev s" "trace (set_heap B n s) = trace s"
  "(set_heap B n s)\<lparr>sk := k\<rparr> = set_heap B n (s\<lparr>sk := k\<rparr>)"
  "(set_heap B n s)\<lparr>ev := e\<rparr> = set_heap B n (s\<lparr>ev := e\<rparr>)"
  "(set_heap B n s)\<lparr>trace := t\<rparr> = set_heap B n (s\<lparr>trace := t\<rparr>)"
  by (simp_all add: set_heap_def)

lemma skip_rands_sys [simp]:
  "sk (skip_rands s) = sk s" "ev (skip_rands s) = ev s" "trace (skip_rands s) = trace s"
  by (simp_all add: skip_rands_def)

lemma fresh_ok_sys [simp]:
  "fresh_ok (s\<lparr>sk := k\<rparr>) = fresh_ok s" "fresh_ok (s\<lparr>ev := e\<rparr>) = fresh_ok s"
  "fresh_ok (s\<lparr>trace := t\<rparr>) = fresh_ok s"
  by (simp_all add: fresh_ok_def)

lemma cells_from_sys [simp]:
  "cells_from p (s\<lparr>sk := k\<rparr>) = cells_from p s" "cells_from p (s\<lparr>ev := e\<rparr>) = cells_from p s"
  "cells_from p (s\<lparr>trace := t\<rparr>) = cells_from p s"
  by (simp_all add: cells_from_def split: ptr.split)

lemma load_sys [simp]:
  "load p n (s\<lparr>sk := k\<rparr>) = load p n s" "load p n (s\<lparr>ev := e\<rparr>) = load p n s"
  "load p n (s\<lparr>trace := t\<rparr>) = load p n s"
  "load_bytes p n (s\<lparr>sk := k\<rparr>) = load_bytes p n s" "load_bytes p n (s\<lparr>ev := e\<rparr>) = load_bytes p n s"
  "load_bytes p n (s\<lparr>trace := t\<rparr>) = load_bytes p n s"
  by (simp_all add: load_def load_bytes_def)

lemma c_string_sys [simp]:
  "c_string p bs (s\<lparr>sk := k\<rparr>) = c_string p bs s" "c_string p bs (s\<lparr>ev := e\<rparr>) = c_string p bs s"
  "c_string p bs (s\<lparr>trace := t\<rparr>) = c_string p bs s"
  by (simp_all add: c_string_def)

text \<open>The bytes of a string literal of the source, and a pointer to it.\<close>

definition cstr :: "string \<Rightarrow> u8 list" where
  "cstr s = map (\<lambda>c. of_nat (of_char c)) s"

definition lit :: "string \<Rightarrow> ptr" where
  "lit s = Lit (cstr s) 0"

section \<open>The operating system\<close>

text \<open>Linux error numbers.\<close>

abbreviation EBADF :: int where "EBADF \<equiv> 9"
abbreviation EAGAIN :: int where "EAGAIN \<equiv> 11"
abbreviation EINPROGRESS :: int where "EINPROGRESS \<equiv> 115"

text \<open>
  The \<open>case\<close> labels of \<open>rws_socket_check_write_error\<close>: \<open>EACCES\<close>, \<open>EBADF\<close>, \<open>ECONNRESET\<close>,
  \<open>EDESTADDRREQ\<close>, \<open>EFAULT\<close>, \<open>EINTR\<close>, \<open>EINVAL\<close>, \<open>EISCONN\<close>, \<open>EMSGSIZE\<close>, \<open>ENOBUFS\<close>,
  \<open>ENOMEM\<close>, \<open>ENOTCONN\<close>, \<open>ENOTSOCK\<close>, \<open>EOPNOTSUPP\<close>, \<open>EPIPE\<close>, \<open>ECONNREFUSED\<close>.
\<close>

definition write_errnos :: "int list" where
  "write_errnos = [13, 9, 104, 89, 14, 4, 22, 106, 90, 105, 12, 107, 88, 95, 32, 111]"

text \<open>
  \<open>send\<close> on the socket; an invalid descriptor is refused with \<open>EBADF\<close>.  The trace records the
  bytes the kernel took.
\<close>

definition sys_send :: "u8 list \<Rightarrow> sys \<Rightarrow> int \<times> int \<times> sys" where
  "sys_send bs s =
     (if s_socket (sk s) = RWS_INVALID_SOCKET then (-1, EBADF, s)
      else let (sended, errno) = shd (env_send (ev s));
               s = s\<lparr>ev := (ev s)\<lparr>env_send := stl (env_send (ev s))\<rparr>\<rparr>;
               s = (if 0 < sended then s\<lparr>trace := trace s @ [Sent (take (nat sended) bs)]\<rparr> else s)
           in (sended, errno, s))"

text \<open>The length \<open>(int)data_size\<close> as \<open>send\<close> receives it, a \<open>size_t\<close> again.\<close>

definition send_len :: "nat \<Rightarrow> nat" where
  "send_len n = (let r = n mod 2 ^ 32 in if r < 2 ^ 31 then r else 2 ^ 64 - 2 ^ 32 + r)"

definition sys_recv :: "sys \<Rightarrow> u8 list list \<times> int \<times> sys" where
  "sys_recv s =
     (if s_socket (sk s) = RWS_INVALID_SOCKET then ([], EBADF, s)
      else let (chunks, errno) = shd (env_recv (ev s))
           in (chunks, errno, s\<lparr>ev := (ev s)\<lparr>env_recv := stl (env_recv (ev s))\<rparr>\<rparr>))"

definition sys_getsockopt_error :: "sys \<Rightarrow> int \<times> sys" where
  "sys_getsockopt_error s =
     (let s' = s\<lparr>ev := (ev s)\<lparr>env_sockopt := stl (env_sockopt (ev s))\<rparr>\<rparr>
      in case shd (env_sockopt (ev s)) of None \<Rightarrow> (0, s') | Some socket_code \<Rightarrow> (socket_code, s'))"

definition c_message :: "u8 list \<Rightarrow> ptr" where
  "c_message bs = Lit (takeWhile (\<lambda>b. b \<noteq> 0) bs) 0"

section \<open>Operations\<close>

definition clean_error :: "sys \<Rightarrow> sys option" where
  "clean_error s = do {
     (e, s) \<leftarrow> rws_error_delete_clean (s_error (sk s)) s;
     Some (s\<lparr>sk := (sk s)\<lparr>s_error := e\<rparr>\<rparr>) }"

definition set_error :: "int \<Rightarrow> ptr \<Rightarrow> sys \<Rightarrow> sys option" where
  "set_error code descr s = do {
     (e, s) \<leftarrow> rws_error_new_code_descr code descr s;
     Some (s\<lparr>sk := (sk s)\<lparr>s_error := e\<rparr>\<rparr>) }"

definition rws_socket_get_next_message_id :: "sys \<Rightarrow> u32 \<times> sys" where
  "rws_socket_get_next_message_id s =
     (let mess_id = s_next_message_id (sk s) + 1;
          next_id = (if 9999999 < mess_id then 0 else mess_id)
      in (mess_id, s\<lparr>sk := (sk s)\<lparr>s_next_message_id := next_id\<rparr>\<rparr>))"

definition rws_socket_close :: "sys \<Rightarrow> sys" where
  "rws_socket_close s =
     (let s = s\<lparr>sk := (sk s)\<lparr>s_received_len := 0\<rparr>\<rparr>;
          s = (if s_socket (sk s) \<noteq> RWS_INVALID_SOCKET
               then s\<lparr>trace := trace s @ [Closed (s_socket (sk s))],
                      sk := (sk s)\<lparr>s_socket := RWS_INVALID_SOCKET\<rparr>\<rparr>
               else s)
      in s\<lparr>sk := (sk s)\<lparr>s_is_connected := False\<rparr>\<rparr>)"

definition rws_socket_check_write_error :: "int \<Rightarrow> sys \<Rightarrow> sys option" where
  "rws_socket_check_write_error error_num s =
     (let (socket_code, s) = (if s_socket (sk s) \<noteq> RWS_INVALID_SOCKET
                              then sys_getsockopt_error s else (0, s));
          code = (if 0 < socket_code then socket_code else error_num)
      in if code \<le> 0 then Some s
         else if code \<in> set write_errnos
         then set_error rws_error_code_read_write_socket (c_message (env_strerror (ev s) code)) s
         else Some s)"

definition rws_socket_send :: "ptr \<Rightarrow> nat \<Rightarrow> sys \<Rightarrow> (bool \<times> sys) option" where
  "rws_socket_send data data_size s = do {
     s \<leftarrow> clean_error s;
     bs \<leftarrow> load_bytes data (send_len data_size) s;
     let (sended, error_number, s) = sys_send bs s;
     if 0 < sended then Some (True, s)
     else do {
       s \<leftarrow> rws_socket_check_write_error error_number s;
       if s_error (sk s) \<noteq> NULL then Some (False, rws_socket_close s)
       else Some (True, s) } }"

text \<open>Decimal digits of \<open>sprintf("%u")\<close>.\<close>

fun utoa :: "nat \<Rightarrow> u8 list" where
  "utoa n = (if n < 10 then [48 + of_nat n] else utoa (n div 10) @ [48 + of_nat (n mod 10)])"

declare utoa.simps [simp del]

section \<open>The error of the socket\<close>

text \<open>
  \<open>err_own s D\<close>: the socket has no error object, or a well-formed one; it occupies the blocks
  \<open>D\<close>.
\<close>

definition err_own :: "sys \<Rightarrow> nat list \<Rightarrow> bool" where
  "err_own s D \<longleftrightarrow> s_error (sk s) = NULL \<and> D = [] \<or> (\<exists>code. error_at (s_error (sk s)) code D s)"

lemma error_at_blocks: "blocks s' = blocks s \<Longrightarrow> error_at e code D s' = error_at e code D s"
  using error_at_cong [of D s' s] error_at_cong [of D s s'] by auto

lemma err_own_NULL [simp]: "s_error (sk s) = NULL \<Longrightarrow> err_own s D \<longleftrightarrow> D = []"
  by (auto simp: err_own_def error_at_def)

lemma err_own_live: "err_own s D \<Longrightarrow> b \<in> set D \<Longrightarrow> blocks s b \<noteq> None"
  by (auto simp: err_own_def live_def dest!: error_at_live)

lemma err_own_cong:
  "s_error (sk s') = s_error (sk s) \<Longrightarrow> (\<And>b. b \<in> set D \<Longrightarrow> blocks s' b = blocks s b) \<Longrightarrow>
   err_own s D \<Longrightarrow> err_own s' D"
  by (auto simp: err_own_def intro: error_at_cong)

lemma err_own_distinct: "err_own s D \<Longrightarrow> distinct D"
  by (auto simp: err_own_def error_at_def split: option.splits)

lemma clean_error_run:
  assumes "err_own s D"
  shows "clean_error s = Some (set_heap (\<lambda>b. if b \<in> set D then None else blocks s b) (next_blk s)
    (s\<lparr>sk := (sk s)\<lparr>s_error := NULL\<rparr>\<rparr>))"
proof (cases "s_error (sk s) = NULL")
  case True
  with assms have "D = []" by simp
  with True show ?thesis
    by (simp add: clean_error_def rws_error_delete_clean_def rws_error_delete_def set_heap_def)
next
  case False
  with assms obtain code where "error_at (s_error (sk s)) code D s" by (auto simp: err_own_def)
  then show ?thesis
    by (simp add: clean_error_def rws_error_delete_clean_def rws_error_delete_run)
qed

lemma clean_error_NULL [run_simps]: "s_error (sk s) = NULL \<Longrightarrow> clean_error s = Some s"
  by (simp add: clean_error_def rws_error_delete_clean_def rws_error_delete_def)

lemma set_error_run:
  assumes fresh: "fresh_ok s" and descr: "c_string descr bs s"
  obtains B n D where "set_error code descr s = Some (set_heap B n (s\<lparr>sk := (sk s)\<lparr>s_error := Ptr (next_blk s) 0\<rparr>\<rparr>))"
    and "error_at (Ptr (next_blk s) 0) code D (set_heap B n (s\<lparr>sk := (sk s)\<lparr>s_error := Ptr (next_blk s) 0\<rparr>\<rparr>))"
    and "fresh_ok (set_heap B n (s\<lparr>sk := (sk s)\<lparr>s_error := Ptr (next_blk s) 0\<rparr>\<rparr>))"
    and "next_blk s < n" and "\<And>b. b \<in> set D \<Longrightarrow> next_blk s \<le> b"
    and "\<And>b. b \<notin> set D \<Longrightarrow> B b = blocks s b"
proof -
  note run = rws_error_new_run [OF fresh descr, of code]
  show thesis
  proof (cases "bs = []")
    case True
    show thesis
      by (rule that [of "(blocks s)(next_blk s \<mapsto> OError (zero_error\<lparr>e_code := code\<rparr>))" "Suc (next_blk s)"
            "[next_blk s]"])
        (use True run fresh in \<open>auto simp: set_error_def error_at_def run_simps zero_error_def fresh_ok_def less_Suc_eq\<close>)
  next
    case False
    show thesis
      by (rule that [of "(blocks s)(next_blk s \<mapsto> OError (zero_error\<lparr>e_code := code, e_description := Ptr (Suc (next_blk s)) 0\<rparr>),
         Suc (next_blk s) \<mapsto> OBytes (map Some (bs @ [0])))" "Suc (Suc (next_blk s))" "[next_blk s, Suc (next_blk s)]"])
        (use False run fresh in \<open>auto simp: set_error_def error_at_def run_simps zero_error_def fresh_ok_def less_Suc_eq\<close>)
  qed
qed

text \<open>The messages the code uses are C strings.\<close>

lemma c_string_message: "c_string (c_message bs) (takeWhile (\<lambda>b. b \<noteq> 0) bs) m"
proof -
  have "0 \<notin> set (takeWhile (\<lambda>b. b \<noteq> 0) bs)" by (auto dest: set_takeWhileD)
  then show ?thesis by (simp add: c_message_def)
qed

lemma c_string_lit:
  assumes "list_all (\<lambda>c. of_nat (of_char c) \<noteq> (0 :: u8)) txt"
  shows "c_string (lit txt) (cstr txt) m"
proof -
  have "0 \<notin> set (cstr txt)" using assms by (auto simp: cstr_def list_all_iff)
  then show ?thesis by (simp add: lit_def)
qed

section \<open>Closing\<close>

definition closed_sk :: "rws_socket \<Rightarrow> rws_socket" where
  "closed_sk k = k\<lparr>s_received_len := 0, s_socket := RWS_INVALID_SOCKET, s_is_connected := False\<rparr>"

lemma rws_socket_close_run:
  "rws_socket_close s = s\<lparr>sk := closed_sk (sk s),
     trace := trace s @ (if s_socket (sk s) = RWS_INVALID_SOCKET then [] else [Closed (s_socket (sk s))])\<rparr>"
  by (cases "sk s"; cases s) (simp add: rws_socket_close_def closed_sk_def Let_def)

lemma close_heap [simp]:
  "blocks (rws_socket_close s) = blocks s" "next_blk (rws_socket_close s) = next_blk s"
  "rands (rws_socket_close s) = rands s" "ev (rws_socket_close s) = ev s"
  "sk (rws_socket_close s) = closed_sk (sk s)" "fresh_ok (rws_socket_close s) = fresh_ok s"
  by (simp_all add: rws_socket_close_run)

lemma closed_sk_fields [simp]:
  "s_error (closed_sk k) = s_error k" "s_command (closed_sk k) = s_command k"
  "s_received_len (closed_sk k) = 0" "s_socket (closed_sk k) = RWS_INVALID_SOCKET"
  "s_is_connected (closed_sk k) = False" "s_send_frames (closed_sk k) = s_send_frames k"
  "s_recvd_frames (closed_sk k) = s_recvd_frames k" "s_received (closed_sk k) = s_received k"
  "s_received_size (closed_sk k) = s_received_size k" "closed_sk (closed_sk k) = closed_sk k"
  by (simp_all add: closed_sk_def)

section \<open>Sending\<close>

text \<open>
  What \<open>send\<close> returns and leaves in \<open>errno\<close>, the error code that counts after a failure, and
  whether it is one of those the code treats as an error.
\<close>

definition send_result :: "sys \<Rightarrow> int \<times> int" where
  "send_result s = (if s_socket (sk s) = RWS_INVALID_SOCKET then (-1, EBADF) else shd (env_send (ev s)))"

definition pending_error :: "sys \<Rightarrow> int" where
  "pending_error s = (if s_socket (sk s) = RWS_INVALID_SOCKET then 0
     else case shd (env_sockopt (ev s)) of None \<Rightarrow> 0 | Some c \<Rightarrow> c)"

definition write_code :: "int \<Rightarrow> sys \<Rightarrow> int" where
  "write_code errno s = (if 0 < pending_error s then pending_error s else errno)"

definition send_fails :: "sys \<Rightarrow> bool" where
  "send_fails s \<longleftrightarrow> fst (send_result s) \<le> 0 \<and> write_code (snd (send_result s)) s \<in> set write_errnos"

lemma write_errnos_pos: "c \<in> set write_errnos \<Longrightarrow> 0 < c"
  by (auto simp: write_errnos_def)

definition sockopt_read :: "sys \<Rightarrow> sys" where
  "sockopt_read s = (if s_socket (sk s) = RWS_INVALID_SOCKET then s
     else s\<lparr>ev := (ev s)\<lparr>env_sockopt := stl (env_sockopt (ev s))\<rparr>\<rparr>)"

lemma sockopt_read_simps [simp]:
  "blocks (sockopt_read s) = blocks s" "next_blk (sockopt_read s) = next_blk s" "sk (sockopt_read s) = sk s"
  "trace (sockopt_read s) = trace s" "fresh_ok (sockopt_read s) = fresh_ok s"
  "env_strerror (ev (sockopt_read s)) = env_strerror (ev s)" "env_recv (ev (sockopt_read s)) = env_recv (ev s)"
  by (auto simp: sockopt_read_def)

lemma check_write_error_run:
  "rws_socket_check_write_error errno s =
    (if write_code errno s \<in> set write_errnos
     then set_error rws_error_code_read_write_socket
       (c_message (env_strerror (ev s) (write_code errno s))) (sockopt_read s)
     else Some (sockopt_read s))"
  using write_errnos_pos [of "write_code errno s"]
  by (auto simp: rws_socket_check_write_error_def write_code_def pending_error_def sockopt_read_def
      sys_getsockopt_error_def Let_def split: option.splits)

lemma sys_send_run:
  "sys_send bs s = (fst (send_result s), snd (send_result s),
     s\<lparr>ev := (if s_socket (sk s) = RWS_INVALID_SOCKET then ev s else (ev s)\<lparr>env_send := stl (env_send (ev s))\<rparr>),
       trace := trace s @ (if 0 < fst (send_result s) then [Sent (take (nat (fst (send_result s))) bs)] else [])\<rparr>)"
  by (cases s) (auto simp: sys_send_def send_result_def case_prod_beta Let_def)

lemma send_result_cong:
  assumes "s_socket (sk s') = s_socket (sk s)" and "ev s' = ev s"
  shows "send_result s' = send_result s" "write_code e s' = write_code e s" "send_fails s' = send_fails s"
  using assms by (simp_all add: send_result_def write_code_def pending_error_def send_fails_def)

text \<open>
  One call of \<open>rws_socket_send\<close>: the old error goes, the bytes the kernel takes are sent, and the
  call fails, with error code 4 and the descriptor closed, exactly when \<open>send_fails\<close>.
\<close>

lemma rws_socket_send_run:
  assumes fresh: "fresh_ok s" and err: "err_own s D"
    and ld: "load_bytes data (send_len n) s = Some bs" and sep: "ptr_blks data \<inter> set D = {}"
  obtains s' D' where "rws_socket_send data n s = Some (\<not> send_fails s, s')"
    and "fresh_ok s'" and "err_own s' D'" and "next_blk s \<le> next_blk s'"
    and "\<And>b. b \<in> set D' \<Longrightarrow> next_blk s \<le> b"
    and "\<And>b. b \<notin> set D' \<Longrightarrow> blocks s' b = (if b \<in> set D then None else blocks s b)"
    and "trace s' = trace s @ (if 0 < fst (send_result s) then [Sent (take (nat (fst (send_result s))) bs)] else []) @
      (if send_fails s \<and> s_socket (sk s) \<noteq> RWS_INVALID_SOCKET then [Closed (s_socket (sk s))] else [])"
    and "\<not> send_fails s \<Longrightarrow> D' = [] \<and> sk s' = (sk s)\<lparr>s_error := NULL\<rparr>"
    and "send_fails s \<Longrightarrow> error_at (s_error (sk s')) rws_error_code_read_write_socket D' s' \<and>
      sk s' = closed_sk ((sk s)\<lparr>s_error := s_error (sk s')\<rparr>)"
    and "env_recv (ev s') = env_recv (ev s)"
proof -
  define s0 where "s0 = set_heap (\<lambda>b. if b \<in> set D then None else blocks s b) (next_blk s)
    (s\<lparr>sk := (sk s)\<lparr>s_error := NULL\<rparr>\<rparr>)"
  have clean: "clean_error s = Some s0" unfolding s0_def by (rule clean_error_run [OF err])
  have fresh0: "fresh_ok s0" using fresh by (simp add: s0_def fresh_ok_def)
  have ld0: "load_bytes data (send_len n) s0 = Some bs"
    using ld sep load_blocks_cong(3) [of data s0 s "send_len n"]
    by (cases data) (auto simp: s0_def)
  have same: "send_result s0 = send_result s" "write_code e s0 = write_code e s" "send_fails s0 = send_fails s" for e
    by (simp_all add: s0_def send_result_def write_code_def pending_error_def send_fails_def)
  define s1 where "s1 = s0\<lparr>ev := (if s_socket (sk s0) = RWS_INVALID_SOCKET then ev s0 else (ev s0)\<lparr>env_send := stl (env_send (ev s0))\<rparr>),
       trace := trace s0 @ (if 0 < fst (send_result s) then [Sent (take (nat (fst (send_result s))) bs)] else [])\<rparr>"
  have sys: "sys_send bs s0 = (fst (send_result s), snd (send_result s), s1)"
    by (simp only: sys_send_run same s1_def)
  have wc: "write_code e s1 = write_code e s" for e
    by (simp add: s1_def s0_def write_code_def pending_error_def)
  have fresh1: "fresh_ok s1" using fresh0 by (simp add: s1_def fresh_ok_def)
  have s1: "blocks s1 = (\<lambda>b. if b \<in> set D then None else blocks s b)" "next_blk s1 = next_blk s"
      "sk s1 = (sk s)\<lparr>s_error := NULL\<rparr>"
      "trace s1 = trace s @ (if 0 < fst (send_result s) then [Sent (take (nat (fst (send_result s))) bs)] else [])"
      "env_recv (ev s1) = env_recv (ev s)"
    by (simp_all add: s1_def s0_def)
  show thesis
  proof (cases "0 < fst (send_result s)")
    case True
    then have run: "rws_socket_send data n s = Some (\<not> send_fails s, s1)"
      by (simp add: rws_socket_send_def clean ld0 sys send_fails_def)
    show thesis
      by (rule that [OF run, of "[]"]) (use True fresh1 s1 in \<open>auto simp: send_fails_def\<close>)
  next
    case no: False
    show thesis
    proof (cases "send_fails s")
      case False
      with no have run: "rws_socket_send data n s = Some (\<not> send_fails s, sockopt_read s1)"
        by (simp add: rws_socket_send_def clean ld0 sys send_fails_def check_write_error_run wc s1)
      show thesis
        by (rule that [OF run, of "[]"]) (use no False fresh1 s1 in auto)
    next
      case True
      let ?s = "sockopt_read s1"
      have fresh2: "fresh_ok ?s" using fresh1 by simp
      obtain B k E where new: "set_error rws_error_code_read_write_socket
            (c_message (env_strerror (ev s1) (write_code (snd (send_result s)) s))) ?s =
            Some (set_heap B k (?s\<lparr>sk := (sk ?s)\<lparr>s_error := Ptr (next_blk ?s) 0\<rparr>\<rparr>))"
          "error_at (Ptr (next_blk ?s) 0) rws_error_code_read_write_socket E
             (set_heap B k (?s\<lparr>sk := (sk ?s)\<lparr>s_error := Ptr (next_blk ?s) 0\<rparr>\<rparr>))"
          "fresh_ok (set_heap B k (?s\<lparr>sk := (sk ?s)\<lparr>s_error := Ptr (next_blk ?s) 0\<rparr>\<rparr>))"
          "next_blk ?s < k" "\<And>b. b \<in> set E \<Longrightarrow> next_blk ?s \<le> b" "\<And>b. b \<notin> set E \<Longrightarrow> B b = blocks ?s b"
        by (rule set_error_run [OF fresh2 c_string_message]) blast
      let ?e = "set_heap B k (?s\<lparr>sk := (sk ?s)\<lparr>s_error := Ptr (next_blk ?s) 0\<rparr>\<rparr>)"
      have run: "rws_socket_send data n s = Some (\<not> send_fails s, rws_socket_close ?e)"
        using no True new(1)
        by (simp add: rws_socket_send_def clean ld0 sys send_fails_def check_write_error_run wc)
      have at: "error_at (s_error (sk (rws_socket_close ?e))) rws_error_code_read_write_socket E (rws_socket_close ?e)"
        using new(2) error_at_blocks [of "rws_socket_close ?e" ?e] by simp
      have "fresh_ok (rws_socket_close ?e)" using new(3) by simp
      show thesis
        by (rule that [OF run, of E])
          (use no True new at s1 \<open>fresh_ok (rws_socket_close ?e)\<close> in \<open>auto simp: rws_socket_close_run err_own_def closed_sk_def\<close>)
    qed
  qed
qed

text \<open>A call that the kernel takes.\<close>

lemma socket_send_taken:
  assumes "err_own s D" and "load_bytes data (send_len n) s = Some bs" and "ptr_blks data \<inter> set D = {}"
    and "s_socket (sk s) \<noteq> RWS_INVALID_SOCKET" and "0 < fst (shd (env_send (ev s)))"
  obtains s' where "rws_socket_send data n s = Some (True, s')" and "sk s' = (sk s)\<lparr>s_error := NULL\<rparr>"
    and "ev s' = (ev s)\<lparr>env_send := stl (env_send (ev s))\<rparr>"
    and "trace s' = trace s @ [Sent (take (nat (fst (shd (env_send (ev s))))) bs)]"
proof -
  let ?t = "set_heap (\<lambda>b. if b \<in> set D then None else blocks s b) (next_blk s) (s\<lparr>sk := (sk s)\<lparr>s_error := NULL\<rparr>\<rparr>)"
  have clean: "clean_error s = Some ?t" by (rule clean_error_run [OF assms(1)])
  have ld: "load_bytes data (send_len n) ?t = Some bs"
    using assms(2,3) load_blocks_cong(3) [of data ?t s "send_len n"] by (cases data) auto
  show thesis
    by (rule that [of "?t\<lparr>ev := (ev s)\<lparr>env_send := stl (env_send (ev s))\<rparr>,
        trace := trace s @ [Sent (take (nat (fst (shd (env_send (ev s))))) bs)]\<rparr>"])
      (use assms(4,5) clean ld in \<open>simp_all add: rws_socket_send_def sys_send_def case_prod_beta Let_def\<close>)
qed

section \<open>Concrete states\<close>

text \<open>
  For the examples: a state with the given heap objects and socket, and an environment in which
  nothing arrives, nothing can be sent and no connection is made.
\<close>

definition sys_of :: "obj list \<Rightarrow> rws_socket \<Rightarrow> env \<Rightarrow> sys" where
  "sys_of xs k e = \<lparr>blocks = blocks (heap_of xs), next_blk = length xs, rands = sconst 0,
     sk = k, ev = e, trace = []\<rparr>"

definition quiet_env :: env where
  "quiet_env = \<lparr>env_send = sconst (-1, EAGAIN), env_sockopt = sconst None, env_recv = sconst ([], EAGAIN),
     env_addrinfo = sconst (-2, 0), env_socket = sconst (-1), env_connect = sconst False,
     env_strerror = (\<lambda>_. []), env_gai_strerror = (\<lambda>_. [])\<rparr>"

lemma sys_of_simps [simp]:
  "blocks (sys_of xs k e) b = (if b < length xs then Some (xs ! b) else None)"
  "next_blk (sys_of xs k e) = length xs" "rands (sys_of xs k e) = sconst 0"
  "sk (sys_of xs k e) = k" "ev (sys_of xs k e) = e" "trace (sys_of xs k e) = []" "fresh_ok (sys_of xs k e)"
  by (simp_all add: sys_of_def fresh_ok_def)

section \<open>Properties\<close>

text \<open>C8: A call of \<open>rws_socket_send\<close> fails exactly when \<open>send\<close> transferred nothing and the error
  behind it (the pending error of the descriptor, else \<open>errno\<close>) is one of the listed write
  errors.  Then the error object has the code for read and write errors, the descriptor is closed
  and the connection is down; otherwise no error is left and the socket is as before.  On the wire
  are exactly the bytes the kernel took.\<close>

theorem socket_send_outcome:
  assumes "fresh_ok s" and "err_own s D" and "load_bytes data (send_len n) s = Some bs"
    and "ptr_blks data \<inter> set D = {}"
  shows "\<exists>s'. rws_socket_send data n s = Some (\<not> send_fails s, s') \<and> fresh_ok s' \<and>
    (if send_fails s
     then rws_error_get_code (s_error (sk s')) s' = Some rws_error_code_read_write_socket \<and>
       s_socket (sk s') = RWS_INVALID_SOCKET \<and> \<not> s_is_connected (sk s') \<and>
       trace s' = trace s @ (if s_socket (sk s) = RWS_INVALID_SOCKET then [] else [Closed (s_socket (sk s))])
     else sk s' = (sk s)\<lparr>s_error := NULL\<rparr> \<and>
       trace s' = trace s @ (if 0 < fst (send_result s)
         then [Sent (take (nat (fst (send_result s))) bs)] else []))"
proof -
  obtain s' D' where run: "rws_socket_send data n s = Some (\<not> send_fails s, s')" "fresh_ok s'"
    and tr: "trace s' = trace s @ (if 0 < fst (send_result s) then [Sent (take (nat (fst (send_result s))) bs)] else []) @
      (if send_fails s \<and> s_socket (sk s) \<noteq> RWS_INVALID_SOCKET then [Closed (s_socket (sk s))] else [])"
    and ok: "\<not> send_fails s \<Longrightarrow> D' = [] \<and> sk s' = (sk s)\<lparr>s_error := NULL\<rparr>"
    and fail: "send_fails s \<Longrightarrow> error_at (s_error (sk s')) rws_error_code_read_write_socket D' s' \<and>
      sk s' = closed_sk ((sk s)\<lparr>s_error := s_error (sk s')\<rparr>)"
    by (rule rws_socket_send_run [OF assms]) (rule that; blast)
  show ?thesis
  proof (cases "send_fails s")
    case True
    then have "s_socket (sk s') = RWS_INVALID_SOCKET" "\<not> s_is_connected (sk s')"
      using fail by (metis closed_sk_fields(4), metis closed_sk_fields(5))
    with True run tr fail show ?thesis by (auto simp: send_fails_def dest: error_at_code)
  next
    case False
    with run tr ok show ?thesis by auto
  qed
qed

theorem socket_send_outcome_witness:
  "\<exists>s'. rws_socket_send (Lit [137] 0) 1 (sys_of [] (zero_socket\<lparr>s_socket := 3\<rparr>)
     (quiet_env\<lparr>env_send := sconst (-1, 104)\<rparr>)) = Some (False, s') \<and> s_socket (sk s') = RWS_INVALID_SOCKET"
proof -
  let ?s = "sys_of [] (zero_socket\<lparr>s_socket := 3\<rparr>) (quiet_env\<lparr>env_send := sconst (-1, 104)\<rparr>)"
  have "send_fails ?s"
    by (simp add: send_fails_def send_result_def write_code_def pending_error_def quiet_env_def
        zero_socket_def write_errnos_def)
  then show ?thesis
    using socket_send_outcome [of ?s "[]" "Lit [137] 0" 1 "[137]"]
    by (auto simp: zero_socket_def send_len_def)
qed

text \<open>A frame can be lost although \<open>rws_socket_send\<close> reports success.  When the kernel takes only
  the first \<open>r\<close> bytes, the others are never sent; when the socket would block, none is.\<close>

lemma send_success_may_lose_bytes:
  assumes "fresh_ok s" and "err_own s D" and "load_bytes data (send_len n) s = Some bs"
    and "ptr_blks data \<inter> set D = {}"
    and "s_socket (sk s) \<noteq> RWS_INVALID_SOCKET"
    and "shd (env_send (ev s)) = (r, e)" and "r < int (length bs)" and "bs \<noteq> []"
    and "0 < r \<or> e = EAGAIN \<and> shd (env_sockopt (ev s)) = Some 0"
  shows "\<exists>s'. rws_socket_send data n s = Some (True, s') \<and> sk s' = (sk s)\<lparr>s_error := NULL\<rparr> \<and>
    trace s' = trace s @ (if 0 < r then [Sent (take (nat r) bs)] else []) \<and> take (nat r) bs \<noteq> bs"
proof -
  have "send_result s = (r, e)" using assms(5,6) by (simp add: send_result_def)
  moreover have "\<not> send_fails s"
    using assms(5,9) \<open>send_result s = (r, e)\<close>
    by (auto simp: send_fails_def write_code_def pending_error_def write_errnos_def)
  moreover have "take (nat r) bs \<noteq> bs" using assms(7,8) by (cases "0 < r") auto
  ultimately show ?thesis
    by (auto intro: rws_socket_send_run [OF assms(1-4)])
qed

end
