(* ===== verification/Rws_Buffer.thy ===== *)
theory Rws_Buffer
  imports Rws_Socket
begin

text \<open>
  The receive buffer of the socket (\<open>rws_socketpriv.c\<close>): it grows by reallocation
  (\<open>rws_socket_resize_received\<close>), and \<open>rws_socket_recv\<close> appends to it what the network
  delivers.
\<close>

section \<open>Operations\<close>

definition rws_socket_resize_received :: "nat \<Rightarrow> sys \<Rightarrow> sys option" where
  "rws_socket_resize_received size' s =
     (if size' = s_received_size (sk s) then Some s
      else do {
        let (res, s) = rws_malloc size' s;
        if res = NULL \<or> size' = 0 then None
        else do {
          let n = (if s_received_size (sk s) < size' then s_received_size (sk s) else size');
          s \<leftarrow> (if 0 < n \<and> s_received (sk s) \<noteq> NULL
               then memcpy res (s_received (sk s)) n s else Some s);
          (_, s) \<leftarrow> rws_free_clean (s_received (sk s)) s;
          Some (s\<lparr>sk := (sk s)\<lparr>s_received := res, s_received_size := size'\<rparr>\<rparr>) } })"

text \<open>
  The loop of \<open>rws_socket_recv\<close>: each \<open>recv\<close> into the 8192-byte buffer delivers the next chunk; a
  call that delivers nothing ends the loop.
\<close>

fun recv_loop :: "u8 list list \<Rightarrow> sys \<Rightarrow> sys option" where
  "recv_loop [] s = Some s"
| "recv_loop (chunk # chunks) s =
     (let buff = take 8192 chunk; len = length buff
      in if 0 < len then do {
           s \<leftarrow> (if size_sub (s_received_size (sk s)) (s_received_len (sk s)) < len
                then rws_socket_resize_received (s_received_size (sk s) + len) s else Some s);
           s \<leftarrow> store (ptr_add (s_received (sk s)) (s_received_len (sk s))) (map Some buff) s;
           recv_loop chunks (s\<lparr>sk := (sk s)\<lparr>s_received_len := s_received_len (sk s) + len\<rparr>\<rparr>) }
         else Some s)"

definition rws_socket_recv :: "sys \<Rightarrow> (bool \<times> sys) option" where
  "rws_socket_recv s = do {
     s \<leftarrow> clean_error s;
     let (chunks, error_number, s) = sys_recv s;
     s \<leftarrow> recv_loop chunks s;
     if error_number \<noteq> EAGAIN \<and> error_number \<noteq> EINPROGRESS then do {
       s \<leftarrow> set_error rws_error_code_read_write_socket (lit ''Failed read/write socket'') s;
       Some (False, rws_socket_close s) }
     else Some (True, s) }"

section \<open>The buffer in memory\<close>

text \<open>
  \<open>buffer_at B k bs D\<close>: the socket \<open>k\<close> has received the bytes \<open>bs\<close> that are not consumed yet.
  Its buffer is \<open>NULL\<close> or the start of a block of \<open>received_size\<close> bytes that begins with
  \<open>bs\<close>; it occupies the blocks \<open>D\<close>.
\<close>

definition buffer_at :: "(nat \<Rightarrow> obj option) \<Rightarrow> rws_socket \<Rightarrow> u8 list \<Rightarrow> nat list \<Rightarrow> bool" where
  "buffer_at B k bs D \<longleftrightarrow> s_received_len k = length bs \<and>
     (case s_received k of
        NULL \<Rightarrow> s_received_size k = 0 \<and> bs = [] \<and> D = []
      | Ptr b off \<Rightarrow> off = 0 \<and> D = [b] \<and> (\<exists>cs. B b = Some (OBytes cs) \<and> length cs = s_received_size k \<and>
          length bs \<le> length cs \<and> take (length bs) cs = map Some bs)
      | Lit _ _ \<Rightarrow> False)"

lemma buffer_at_cong:
  assumes "s_received k' = s_received k" "s_received_size k' = s_received_size k"
    "s_received_len k' = s_received_len k" "\<And>b. b \<in> set D \<Longrightarrow> B' b = B b"
  shows "buffer_at B k bs D \<Longrightarrow> buffer_at B' k' bs D"
  using assms by (auto simp: buffer_at_def split: ptr.splits)

lemma buffer_at_fields [simp]:
  "buffer_at B (k\<lparr>s_error := e\<rparr>) = buffer_at B k" "buffer_at B (k\<lparr>s_command := c\<rparr>) = buffer_at B k"
  "buffer_at B (k\<lparr>s_send_frames := q\<rparr>) = buffer_at B k" "buffer_at B (k\<lparr>s_recvd_frames := q\<rparr>) = buffer_at B k"
  "buffer_at B (k\<lparr>s_next_message_id := i\<rparr>) = buffer_at B k"
  by (auto simp: fun_eq_iff buffer_at_def split: ptr.splits)

lemma buffer_at_live: "buffer_at B k bs D \<Longrightarrow> b \<in> set D \<Longrightarrow> B b \<noteq> None"
  by (auto simp: buffer_at_def split: ptr.splits)

lemma buffer_at_cases:
  assumes "buffer_at B k bs D"
  obtains "s_received k = NULL" "s_received_size k = 0" "s_received_len k = 0" "bs = []" "D = []"
  | b cs where "s_received k = Ptr b 0" "D = [b]" "B b = Some (OBytes cs)" "length cs = s_received_size k"
      "s_received_len k = length bs" "length bs \<le> length cs" "take (length bs) cs = map Some bs"
  using assms by (auto simp: buffer_at_def split: ptr.splits)

lemma buffer_at_len: "buffer_at B k bs D \<Longrightarrow> s_received_len k = length bs"
  by (simp add: buffer_at_def)

lemma buffer_at_closed: "buffer_at B k bs D \<Longrightarrow> buffer_at B (closed_sk k) [] D"
  by (auto simp: buffer_at_def split: ptr.splits)

lemma buffer_at_load:
  "buffer_at (blocks s) (sk s) bs D \<Longrightarrow> bs \<noteq> [] \<Longrightarrow> load_bytes (s_received (sk s)) (length bs) s = Some bs"
  by (erule buffer_at_cases) (auto simp: load_bytes_eq load_block)

section \<open>Growing\<close>

text \<open>
  The state with the buffer of the socket replaced: \<open>B\<close> and \<open>n\<close> are the new heap, \<open>p\<close>, \<open>size\<close>
  and \<open>len\<close> the new buffer fields.
\<close>

definition with_buffer :: "(nat \<Rightarrow> obj option) \<Rightarrow> nat \<Rightarrow> ptr \<Rightarrow> nat \<Rightarrow> nat \<Rightarrow> sys \<Rightarrow> sys" where
  "with_buffer B n p sz len s = set_heap B n
     (s\<lparr>sk := (sk s)\<lparr>s_received := p, s_received_size := sz, s_received_len := len\<rparr>\<rparr>)"

lemma with_buffer_simps [simp]:
  "blocks (with_buffer B n p sz len s) = B" "next_blk (with_buffer B n p sz len s) = n"
  "sk (with_buffer B n p sz len s) = (sk s)\<lparr>s_received := p, s_received_size := sz, s_received_len := len\<rparr>"
  "ev (with_buffer B n p sz len s) = ev s" "trace (with_buffer B n p sz len s) = trace s"
  "rands (with_buffer B n p sz len s) = rands s"
  "with_buffer B' n' p' z' l' (with_buffer B n p sz len s) = with_buffer B' n' p' z' l' s"
  by (simp_all add: with_buffer_def)

lemma with_buffer_same:
  "with_buffer (blocks s) (next_blk s) (s_received (sk s)) (s_received_size (sk s)) (s_received_len (sk s)) s = s"
  by (simp add: with_buffer_def)

lemma resize_grow:
  assumes fresh: "fresh_ok s" and buf: "buffer_at (blocks s) (sk s) bs D" and k: "0 < k"
  obtains B cs where "rws_socket_resize_received (s_received_size (sk s) + k) s =
      Some (with_buffer B (Suc (next_blk s)) (Ptr (next_blk s) 0) (s_received_size (sk s) + k) (length bs) s)"
    and "B (next_blk s) = Some (OBytes cs)" and "length cs = s_received_size (sk s) + k"
    and "take (length bs) cs = map Some bs"
    and "\<And>b. b \<noteq> next_blk s \<Longrightarrow> B b = (if b \<in> set D then None else blocks s b)"
proof -
  have len: "(sk s)\<lparr>s_received := p, s_received_size := z, s_received_len := length bs\<rparr> =
      (sk s)\<lparr>s_received := p, s_received_size := z\<rparr>" for p z
    using buffer_at_len [OF buf] by (cases "sk s") simp
  note run = rws_socket_resize_received_def run_simps rws_free_clean_def with_buffer_def len Let_def
    memcpy_def fun_upd_twist
  from buf show thesis
  proof (cases rule: buffer_at_cases)
    case 1
    show thesis
      by (rule that [of "(blocks s)(next_blk s \<mapsto> OBytes (replicate k None))" "replicate k None"])
        (use 1 k len in \<open>simp_all add: run\<close>)
  next
    case (2 b cs)
    have nb: "b \<noteq> next_blk s" "next_blk s \<noteq> b" using fresh 2(3) by (auto simp: fresh_ok_def)
    have cs: "cs = []" if "s_received_size (sk s) = 0" using that 2(4) by simp
    show thesis
      by (rule that [of "(blocks s)(b := None, next_blk s \<mapsto> OBytes (cs @ replicate k None))" "cs @ replicate k None"])
        (use 2 k nb cs in \<open>auto simp: run\<close>)
  qed
qed

section \<open>Receiving\<close>

text \<open>The bytes a sequence of \<open>recv\<close> calls delivers: until one delivers nothing, 8192 at a time.\<close>

fun recv_data :: "u8 list list \<Rightarrow> u8 list" where
  "recv_data [] = []"
| "recv_data (chunk # chunks) = (if chunk = [] then [] else take 8192 chunk @ recv_data chunks)"

text \<open>
  \<open>grows s bs D s' data\<close>: from \<open>s\<close>, whose buffer holds \<open>bs\<close> in the blocks \<open>D\<close>, to \<open>s'\<close> only
  the buffer has changed, and it holds \<open>data\<close> in addition.
\<close>

definition grows :: "sys \<Rightarrow> u8 list \<Rightarrow> nat list \<Rightarrow> u8 list \<Rightarrow> nat list \<Rightarrow> sys \<Rightarrow> bool" where
  "grows s bs D data D' s' \<longleftrightarrow>
     (\<exists>B n p sz. s' = with_buffer B n p sz (length (bs @ data)) s) \<and>
     buffer_at (blocks s') (sk s') (bs @ data) D' \<and> fresh_ok s' \<and> next_blk s \<le> next_blk s' \<and>
     (\<forall>b \<in> set D'. b \<in> set D \<or> next_blk s \<le> b) \<and>
     (\<forall>b. b \<notin> set D' \<longrightarrow> blocks s' b = (if b \<in> set D then None else blocks s b))"

lemma grows_refl:
  assumes "fresh_ok s" and "buffer_at (blocks s) (sk s) bs D"
  shows "grows s bs D [] D s"
proof -
  have "s = with_buffer (blocks s) (next_blk s) (s_received (sk s)) (s_received_size (sk s)) (length (bs @ [])) s"
    using with_buffer_same [of s] buffer_at_len [OF assms(2)] by simp
  then show ?thesis using assms unfolding grows_def by (auto intro: exI)
qed

lemma grows_trans:
  assumes fresh: "fresh_ok s" and 1: "grows s bs D xs D' s'" and 2: "grows s' (bs @ xs) D' ys D'' s''"
  shows "grows s bs D (xs @ ys) D'' s''"
proof -
  have "\<exists>B n p sz. s'' = with_buffer B n p sz (length (bs @ xs @ ys)) s"
    using 1 2 unfolding grows_def by auto blast
  moreover have "\<forall>b \<in> set D''. b \<in> set D \<or> next_blk s \<le> b"
    using 1 2 unfolding grows_def by (meson le_trans)
  moreover have "blocks s'' b = (if b \<in> set D then None else blocks s b)" if "b \<notin> set D''" for b
  proof (cases "b \<in> set D'")
    case True
    then have "b \<in> set D \<or> next_blk s \<le> b" using 1 by (simp add: grows_def)
    then have "b \<in> set D \<or> blocks s b = None" using fresh by (auto simp: fresh_ok_def leD)
    then show ?thesis using 2 True that by (auto simp: grows_def)
  next
    case False
    then show ?thesis using 1 2 that by (simp add: grows_def)
  qed
  ultimately show ?thesis using 1 2 unfolding grows_def by (simp add: grows_def)
qed

lemma recv_chunk:
  assumes fresh: "fresh_ok s" and buf: "buffer_at (blocks s) (sk s) bs D" and chunk: "chunk \<noteq> []"
  obtains s1 s2 D' where "(if size_sub (s_received_size (sk s)) (s_received_len (sk s)) < length chunk
       then rws_socket_resize_received (s_received_size (sk s) + length chunk) s else Some s) = Some s1"
    and "store (ptr_add (s_received (sk s1)) (s_received_len (sk s1))) (map Some chunk) s1 = Some s2"
    and "grows s bs D chunk D' (s2\<lparr>sk := (sk s2)\<lparr>s_received_len := s_received_len (sk s2) + length chunk\<rparr>\<rparr>)"
proof -
  let ?l = "length bs" and ?z = "s_received_size (sk s)"
  have len: "s_received_len (sk s) = ?l" using buf by (rule buffer_at_len)
  have le: "?l \<le> ?z" using buf by (cases rule: buffer_at_cases) auto
  note D = buffer_at_live [OF buf]
  show thesis
  proof (cases "?z - ?l < length chunk")
    case False
    then obtain b cs where b: "s_received (sk s) = Ptr b 0" "D = [b]" "blocks s b = Some (OBytes cs)"
        "length cs = ?z" "take ?l cs = map Some bs"
      using chunk by (cases rule: buffer_at_cases [OF buf]) auto
    let ?cs = "take ?l cs @ map Some chunk @ drop (?l + length chunk) cs"
    let ?s = "with_buffer ((blocks s)(b \<mapsto> OBytes ?cs)) (next_blk s) (Ptr b 0) ?z (?l + length chunk) s"
    let ?s2 = "set_heap ((blocks s)(b \<mapsto> OBytes ?cs)) (next_blk s) s"
    have "store (Ptr b ?l) (map Some chunk) s = Some ?s2"
      using b le False by (simp add: run_simps)
    moreover have g: "grows s bs D chunk D ?s"
      using b le False fresh by (auto simp: grows_def buffer_at_def fresh_ok_def)
    moreover have eq: "?s2\<lparr>sk := (sk ?s2)\<lparr>s_received_len := s_received_len (sk ?s2) + length chunk\<rparr>\<rparr> = ?s"
      using b len by (cases "sk s") (simp add: with_buffer_def)
    ultimately show thesis using False le len b(1) by (intro that [of s, OF _ _ g [folded eq]]) simp_all
  next
    case True
    obtain B cs where new: "rws_socket_resize_received (?z + length chunk) s =
        Some (with_buffer B (Suc (next_blk s)) (Ptr (next_blk s) 0) (?z + length chunk) ?l s)"
      "B (next_blk s) = Some (OBytes cs)" "length cs = ?z + length chunk" "take ?l cs = map Some bs"
      "\<And>b. b \<noteq> next_blk s \<Longrightarrow> B b = (if b \<in> set D then None else blocks s b)"
      using resize_grow [OF fresh buf, of "length chunk"] chunk by auto
    let ?cs = "take ?l cs @ map Some chunk @ drop (?l + length chunk) cs"
    let ?s1 = "with_buffer B (Suc (next_blk s)) (Ptr (next_blk s) 0) (?z + length chunk) ?l s"
    let ?B = "B(next_blk s \<mapsto> OBytes ?cs)"
    let ?s = "with_buffer ?B (Suc (next_blk s)) (Ptr (next_blk s) 0) (?z + length chunk) (?l + length chunk) s"
    let ?s2 = "set_heap ?B (Suc (next_blk s)) ?s1"
    have "store (Ptr (next_blk s) ?l) (map Some chunk) ?s1 = Some ?s2"
      using new(2,3) le by (simp add: run_simps)
    moreover have g: "grows s bs D chunk [next_blk s] ?s"
      using new(2-5) le fresh by (auto simp: grows_def buffer_at_def fresh_ok_def less_Suc_eq)
    moreover have eq: "?s2\<lparr>sk := (sk ?s2)\<lparr>s_received_len := s_received_len (sk ?s2) + length chunk\<rparr>\<rparr> = ?s"
      by (simp add: with_buffer_def)
    ultimately show thesis using True le len new(1) by (intro that [of ?s1, OF _ _ g [folded eq]]) simp_all
  qed
qed

lemma recv_loop_run:
  "fresh_ok s \<Longrightarrow> buffer_at (blocks s) (sk s) bs D \<Longrightarrow>
   \<exists>s' D'. recv_loop chunks s = Some s' \<and> grows s bs D (recv_data chunks) D' s'"
proof (induction chunks arbitrary: s bs D)
  case Nil
  then show ?case using grows_refl by auto
next
  case (Cons chunk chunks)
  show ?case
  proof (cases "chunk = []")
    case True
    with Cons.prems show ?thesis using grows_refl by auto
  next
    case False
    let ?c = "take 8192 chunk"
    have c: "?c \<noteq> []" using False by simp
    obtain s1 s2 D1 where step: "(if size_sub (s_received_size (sk s)) (s_received_len (sk s)) < length ?c
       then rws_socket_resize_received (s_received_size (sk s) + length ?c) s else Some s) = Some s1"
      "store (ptr_add (s_received (sk s1)) (s_received_len (sk s1))) (map Some ?c) s1 = Some s2"
      and g: "grows s bs D ?c D1 (s2\<lparr>sk := (sk s2)\<lparr>s_received_len := s_received_len (sk s2) + length ?c\<rparr>\<rparr>)"
      by (rule recv_chunk [OF Cons.prems c])
    let ?s = "s2\<lparr>sk := (sk s2)\<lparr>s_received_len := s_received_len (sk s2) + length ?c\<rparr>\<rparr>"
    have run: "recv_loop (chunk # chunks) s = recv_loop chunks ?s"
      using c step by (simp add: Let_def del: length_take)
    have "fresh_ok ?s" "buffer_at (blocks ?s) (sk ?s) (bs @ ?c) D1" using g by (auto simp: grows_def)
    from Cons.IH [OF this] obtain s' D' where "recv_loop chunks ?s = Some s'"
        "grows ?s (bs @ ?c) D1 (recv_data chunks) D' s'" by blast
    with run grows_trans [OF Cons.prems(1) g] False show ?thesis by auto
  qed
qed

definition recv_result :: "sys \<Rightarrow> u8 list list \<times> int" where
  "recv_result s = (if s_socket (sk s) = RWS_INVALID_SOCKET then ([], EBADF) else shd (env_recv (ev s)))"

text \<open>\<open>recv\<close> ran out of data because the call would block: the only end that is no error.\<close>

definition recv_ok :: "sys \<Rightarrow> bool" where
  "recv_ok s \<longleftrightarrow> snd (recv_result s) = EAGAIN \<or> snd (recv_result s) = EINPROGRESS"

lemma sys_recv_run:
  "sys_recv s = (fst (recv_result s), snd (recv_result s),
     s\<lparr>ev := (if s_socket (sk s) = RWS_INVALID_SOCKET then ev s else (ev s)\<lparr>env_recv := stl (env_recv (ev s))\<rparr>)\<rparr>)"
  by (cases s) (auto simp: sys_recv_def recv_result_def case_prod_beta Let_def)

text \<open>
  One call of \<open>rws_socket_recv\<close>: the buffer grows by what arrives; when \<open>recv\<close> ends with an
  error or the end of the stream, the buffer is emptied again and the socket closed.
\<close>

definition recv_outcome ::
    "sys \<Rightarrow> nat list \<Rightarrow> u8 list \<Rightarrow> nat list \<Rightarrow> sys \<Rightarrow> nat list \<Rightarrow> nat list \<Rightarrow> bool" where
  "recv_outcome s E bs D s' E' D' \<longleftrightarrow> fresh_ok s' \<and> err_own s' E' \<and> next_blk s \<le> next_blk s' \<and>
     buffer_at (blocks s') (sk s') (if recv_ok s then bs @ recv_data (fst (recv_result s)) else []) D' \<and>
     set E' \<inter> set D' = {} \<and> (\<forall>b \<in> set E'. next_blk s \<le> b) \<and> (\<forall>b \<in> set D'. b \<in> set D \<or> next_blk s \<le> b) \<and>
     (\<forall>b. b \<notin> set D' \<longrightarrow> b \<notin> set E' \<longrightarrow> blocks s' b = (if b \<in> set D \<union> set E then None else blocks s b)) \<and>
     (\<exists>p z l e. sk s' =
        (if recv_ok s then (sk s)\<lparr>s_received := p, s_received_size := z, s_received_len := l, s_error := NULL\<rparr>
         else closed_sk ((sk s)\<lparr>s_received := p, s_received_size := z, s_error := e\<rparr>))) \<and>
     (if recv_ok s
      then E' = [] \<and> trace s' = trace s \<and> ev s' = (ev s)\<lparr>env_recv := stl (env_recv (ev s))\<rparr>
      else error_at (s_error (sk s')) rws_error_code_read_write_socket E' s' \<and>
        trace s' = trace s @ (if s_socket (sk s) = RWS_INVALID_SOCKET then [] else [Closed (s_socket (sk s))]))"

lemma rws_socket_recv_run:
  assumes fresh: "fresh_ok s" and err: "err_own s E" and buf: "buffer_at (blocks s) (sk s) bs D"
    and sep: "set E \<inter> set D = {}"
  shows "\<exists>s' E' D'. rws_socket_recv s = Some (recv_ok s, s') \<and> recv_outcome s E bs D s' E' D'"
proof -
  define s0 where "s0 = set_heap (\<lambda>b. if b \<in> set E then None else blocks s b) (next_blk s)
    (s\<lparr>sk := (sk s)\<lparr>s_error := NULL\<rparr>\<rparr>)"
  have clean: "clean_error s = Some s0" unfolding s0_def by (rule clean_error_run [OF err])
  have same: "recv_result s0 = recv_result s" by (simp add: s0_def recv_result_def)
  define s1 where "s1 = s0\<lparr>ev := (if s_socket (sk s0) = RWS_INVALID_SOCKET then ev s0
      else (ev s0)\<lparr>env_recv := stl (env_recv (ev s0))\<rparr>)\<rparr>"
  have sys: "sys_recv s0 = (fst (recv_result s), snd (recv_result s), s1)"
    by (simp only: sys_recv_run same s1_def)
  have s1: "blocks s1 = (\<lambda>b. if b \<in> set E then None else blocks s b)" "next_blk s1 = next_blk s"
      "sk s1 = (sk s)\<lparr>s_error := NULL\<rparr>" "trace s1 = trace s" by (simp_all add: s1_def s0_def)
  have fresh1: "fresh_ok s1" using fresh by (simp add: fresh_ok_def s1)
  have buf1: "buffer_at (blocks s1) (sk s1) bs D"
    by (rule buffer_at_cong [OF _ _ _ _ buf]) (use sep in \<open>auto simp: s1\<close>)
  let ?data = "recv_data (fst (recv_result s))"
  obtain s2 D' where loop: "recv_loop (fst (recv_result s)) s1 = Some s2"
    and g: "grows s1 bs D ?data D' s2"
    using recv_loop_run [OF fresh1 buf1] by blast
  from g obtain B n p z where s2: "s2 = with_buffer B n p z (length (bs @ ?data)) s1"
    by (auto simp: grows_def)
  have g2: "buffer_at (blocks s2) (sk s2) (bs @ ?data) D'" "fresh_ok s2" "next_blk s \<le> next_blk s2"
      "\<And>b. b \<in> set D' \<Longrightarrow> b \<in> set D \<or> next_blk s \<le> b"
      "\<And>b. b \<notin> set D' \<Longrightarrow> blocks s2 b = (if b \<in> set D \<union> set E then None else blocks s b)"
    using g s1 by (auto simp: grows_def)
  show ?thesis
  proof (cases "recv_ok s")
    case True
    then have run: "rws_socket_recv s = Some (recv_ok s, s2)"
      by (auto simp: rws_socket_recv_def clean sys loop recv_ok_def)
    have "s_socket (sk s) \<noteq> RWS_INVALID_SOCKET" using True by (auto simp: recv_ok_def recv_result_def)
    then have ev: "ev s2 = (ev s)\<lparr>env_recv := stl (env_recv (ev s))\<rparr>" by (simp add: s2 s1_def s0_def)
    have sk2: "\<exists>p z l. sk s2 = (sk s)\<lparr>s_received := p, s_received_size := z, s_received_len := l, s_error := NULL\<rparr>"
      by (rule exI [of _ p], rule exI [of _ z], rule exI [of _ "length (bs @ ?data)"]) (simp add: s2 s1)
    have "trace s2 = trace s" "err_own s2 []" by (simp_all add: s2 s1)
    with sk2 have "recv_outcome s E bs D s2 [] D'"
      unfolding recv_outcome_def using True g2 s1 ev sk2 by simp
    with run show ?thesis by blast
  next
    case False
    have descr: "c_string (lit ''Failed read/write socket'') (cstr ''Failed read/write socket'') s2"
      by (rule c_string_lit) simp
    obtain B3 n3 E' where e: "set_error rws_error_code_read_write_socket (lit ''Failed read/write socket'') s2 =
          Some (set_heap B3 n3 (s2\<lparr>sk := (sk s2)\<lparr>s_error := Ptr (next_blk s2) 0\<rparr>\<rparr>))"
        "error_at (Ptr (next_blk s2) 0) rws_error_code_read_write_socket E'
          (set_heap B3 n3 (s2\<lparr>sk := (sk s2)\<lparr>s_error := Ptr (next_blk s2) 0\<rparr>\<rparr>))"
        "fresh_ok (set_heap B3 n3 (s2\<lparr>sk := (sk s2)\<lparr>s_error := Ptr (next_blk s2) 0\<rparr>\<rparr>))"
        "next_blk s2 < n3" "\<And>b. b \<in> set E' \<Longrightarrow> next_blk s2 \<le> b" "\<And>b. b \<notin> set E' \<Longrightarrow> B3 b = blocks s2 b"
      by (rule set_error_run [OF g2(2) descr]) blast
    let ?s3 = "set_heap B3 n3 (s2\<lparr>sk := (sk s2)\<lparr>s_error := Ptr (next_blk s2) 0\<rparr>\<rparr>)"
    have run: "rws_socket_recv s = Some (recv_ok s, rws_socket_close ?s3)"
      using False e(1) by (auto simp: rws_socket_recv_def clean sys loop recv_ok_def)
    have "b < next_blk s2" if "b \<in> set D'" for b
      using buffer_at_live [OF g2(1) that] g2(2) by (auto simp: fresh_ok_def)
    then have apart: "set E' \<inter> set D' = {}" using e(5) by fastforce
    have "buffer_at B3 (sk s2) (bs @ ?data) D'"
      by (rule buffer_at_cong [OF _ _ _ _ g2(1)]) (use apart e(6) in auto)
    then have buf3: "buffer_at (blocks (rws_socket_close ?s3)) (sk (rws_socket_close ?s3)) [] D'"
      using buffer_at_closed [of B3 "(sk s2)\<lparr>s_error := Ptr (next_blk s2) 0\<rparr>" "bs @ ?data" D'] by simp
    have at: "error_at (Ptr (next_blk s2) 0) rws_error_code_read_write_socket E' (rws_socket_close ?s3)"
      using e(2) error_at_blocks [of "rws_socket_close ?s3" ?s3] by simp
    have E': "next_blk s \<le> b" if "b \<in> set E'" for b using e(5) [OF that] g2(3) by simp
    have fresh3: "fresh_ok (rws_socket_close ?s3)" using e(3) by simp
    have sk3: "\<exists>p z e. closed_sk ((sk s2)\<lparr>s_error := Ptr (next_blk s2) 0\<rparr>) =
        closed_sk ((sk s)\<lparr>s_received := p, s_received_size := z, s_error := e\<rparr>)"
      by (rule exI [of _ p], rule exI [of _ z], rule exI [of _ "Ptr (next_blk s2) 0"])
        (simp add: s2 s1 closed_sk_def)
    have tr3: "trace s2 = trace s" "s_socket (sk s2) = s_socket (sk s)" by (simp_all add: s2 s1)
    have "err_own (rws_socket_close ?s3) E'" using at by (auto simp: err_own_def)
    then have "recv_outcome s E bs D (rws_socket_close ?s3) E' D'"
      unfolding recv_outcome_def
      using False apart buf3 at fresh3 e(4,6) E' g2 sk3 tr3 by (simp add: rws_socket_close_run)
    with run show ?thesis by blast
  qed
qed

section \<open>Properties\<close>

text \<open>C30: \<open>rws_socket_recv\<close> appends to the receive buffer exactly the bytes the network delivers,
  behind the bytes already there, growing the buffer as needed and writing nowhere else.  It
  succeeds exactly when reading ended because it would block; otherwise it records a read error,
  empties the buffer and closes the connection.\<close>

theorem socket_recv_appends:
  assumes "fresh_ok s" and "err_own s E" and "buffer_at (blocks s) (sk s) bs D" and "set E \<inter> set D = {}"
  shows "\<exists>s' D'. rws_socket_recv s = Some (recv_ok s, s') \<and> fresh_ok s' \<and>
    buffer_at (blocks s') (sk s') (if recv_ok s then bs @ recv_data (fst (recv_result s)) else []) D' \<and>
    (if recv_ok s then s_error (sk s') = NULL \<and> trace s' = trace s
     else rws_error_get_code (s_error (sk s')) s' = Some rws_error_code_read_write_socket \<and>
       s_socket (sk s') = RWS_INVALID_SOCKET \<and> \<not> s_is_connected (sk s') \<and>
       trace s' = trace s @ (if s_socket (sk s) = RWS_INVALID_SOCKET then [] else [Closed (s_socket (sk s))])) \<and>
    (\<forall>b. b \<notin> set D \<union> set E \<longrightarrow> b < next_blk s \<longrightarrow> blocks s' b = blocks s b)"
proof -
  obtain s' E' D' where run: "rws_socket_recv s = Some (recv_ok s, s')" and out: "recv_outcome s E bs D s' E' D'"
    using rws_socket_recv_run [OF assms] by blast
  have "blocks s' b = blocks s b" if "b \<notin> set D \<union> set E" "b < next_blk s" for b
    using out that unfolding recv_outcome_def by (metis UnCI leD)
  moreover have "s_error (sk s') = NULL" if "recv_ok s" using out that by (auto simp: recv_outcome_def)
  moreover have "s_socket (sk s') = RWS_INVALID_SOCKET" "\<not> s_is_connected (sk s')" if "\<not> recv_ok s"
    using out that by (auto simp: recv_outcome_def)
  moreover have "rws_error_get_code (s_error (sk s')) s' = Some rws_error_code_read_write_socket" if "\<not> recv_ok s"
    using out that by (auto simp: recv_outcome_def intro: error_at_code)
  ultimately show ?thesis using run out by (auto simp: recv_outcome_def)
qed

theorem socket_recv_appends_witness:
  "\<exists>s' D'. rws_socket_recv (sys_of [OBytes [Some 129, None]]
       (zero_socket\<lparr>s_socket := 3, s_received := Ptr 0 0, s_received_size := 2, s_received_len := 1\<rparr>)
       (quiet_env\<lparr>env_recv := sconst ([[1, 65]], EAGAIN)\<rparr>)) = Some (True, s') \<and>
     buffer_at (blocks s') (sk s') [129, 1, 65] D'"
proof -
  let ?s = "sys_of [OBytes [Some 129, None]]
       (zero_socket\<lparr>s_socket := 3, s_received := Ptr 0 0, s_received_size := 2, s_received_len := 1\<rparr>)
       (quiet_env\<lparr>env_recv := sconst ([[1, 65]], EAGAIN)\<rparr>)"
  have "recv_result ?s = ([[1, 65]], EAGAIN)" by (simp add: recv_result_def quiet_env_def)
  then have "recv_ok ?s" "recv_data (fst (recv_result ?s)) = [1, 65]" by (simp_all add: recv_ok_def)
  moreover have "buffer_at (blocks ?s) (sk ?s) [129] [0]" by (simp add: buffer_at_def zero_socket_def)
  moreover have "err_own ?s []" by (simp add: zero_socket_def)
  ultimately show ?thesis
    using socket_recv_appends [of ?s "[]" "[129]" "[0]"] by auto
qed

end
