(* ===== verification/Rws_Queue.thy ===== *)
theory Rws_Queue
  imports Rws_Buffer
begin

text \<open>
  The two frame queues of the socket (\<open>rws_socketpriv.c\<close>): lists of frame objects that take
  frames at the end, and the loop that is to empty them.
\<close>

section \<open>Operations\<close>

definition rws_socket_append_recvd_frames :: "ptr \<Rightarrow> sys \<Rightarrow> sys option" where
  "rws_socket_append_recvd_frames frame s =
     (if s_recvd_frames (sk s) \<noteq> NULL then rws_list_append (s_recvd_frames (sk s)) frame s
      else do {
        let (l, s) = rws_list_create s;
        let s = s\<lparr>sk := (sk s)\<lparr>s_recvd_frames := l\<rparr>\<rparr>;
        x \<leftarrow> get_node (s_recvd_frames (sk s)) s;
        put_node (s_recvd_frames (sk s)) (x\<lparr>n_value := frame\<rparr>) s })"

definition rws_socket_append_send_frames :: "ptr \<Rightarrow> sys \<Rightarrow> sys option" where
  "rws_socket_append_send_frames frame s =
     (if s_send_frames (sk s) \<noteq> NULL then rws_list_append (s_send_frames (sk s)) frame s
      else do {
        let (l, s) = rws_list_create s;
        let s = s\<lparr>sk := (sk s)\<lparr>s_send_frames := l\<rparr>\<rparr>;
        x \<leftarrow> get_node (s_send_frames (sk s)) s;
        put_node (s_send_frames (sk s)) (x\<lparr>n_value := frame\<rparr>) s })"

text \<open>
  \<open>rws_socket_delete_all_frames_in_list\<close>: the loop \<open>while (cur)\<close>, whose body never assigns
  \<open>cur\<close>.
\<close>

definition delete_all_frames_body :: "ptr \<Rightarrow> 'a mem_scheme \<Rightarrow> 'a mem_scheme option" where
  "delete_all_frames_body cur m = do {
     x \<leftarrow> get_node cur m;
     m \<leftarrow> (if n_value x \<noteq> NULL then rws_frame_delete (n_value x) m else Some m);
     x \<leftarrow> get_node cur m;
     put_node cur (x\<lparr>n_value := NULL\<rparr>) m }"

partial_function (option) rws_socket_delete_all_frames_in_list ::
    "ptr \<Rightarrow> 'a mem_scheme \<Rightarrow> 'a mem_scheme option" where
  "rws_socket_delete_all_frames_in_list cur m =
     (if cur \<noteq> NULL then do {
        m \<leftarrow> delete_all_frames_body cur m;
        rws_socket_delete_all_frames_in_list cur m }
      else Some m)"

section \<open>Queues of frames\<close>

text \<open>
  \<open>queue_at B p ns Fs\<close>: from \<open>p\<close>, the list nodes \<open>ns\<close> hold pointers to the frames \<open>Fs\<close>, each
  with the blocks it owns; the nodes and all these blocks are different.
\<close>

definition queue_blks :: "(nat \<times> ptr) list \<Rightarrow> (rws_frame \<times> nat list) list \<Rightarrow> nat list" where
  "queue_blks ns Fs = map fst ns @ concat (map snd Fs)"

definition queue_at :: "(nat \<Rightarrow> obj option) \<Rightarrow> ptr \<Rightarrow> (nat \<times> ptr) list \<Rightarrow> (rws_frame \<times> nat list) list \<Rightarrow> bool" where
  "queue_at B p ns Fs \<longleftrightarrow> nodes_at B p ns \<and> distinct (queue_blks ns Fs) \<and>
     list_all2 (\<lambda>n F. frame_at (snd n) (fst F) (snd F) B) ns Fs"

lemma queue_at_Nil [simp]: "queue_at B p [] Fs \<longleftrightarrow> p = NULL \<and> Fs = []"
  by (auto simp: queue_at_def queue_blks_def)

lemma queue_at_NULL [simp]: "queue_at B NULL ns Fs \<longleftrightarrow> ns = [] \<and> Fs = []"
  by (auto simp: queue_at_def queue_blks_def)

lemma queue_at_distinct: "queue_at B p ns Fs \<Longrightarrow> distinct (queue_blks ns Fs)"
  by (simp add: queue_at_def)

lemma frames_cong:
  assumes "\<And>F b. F \<in> set Fs \<Longrightarrow> b \<in> set (snd F) \<Longrightarrow> B' b = B b"
  shows "list_all2 (\<lambda>n F. frame_at (snd n) (fst F) (snd F) B') ns Fs =
    list_all2 (\<lambda>n F. frame_at (snd n) (fst F) (snd F) B) ns Fs"
proof -
  have "frame_at (snd n) (fst F) (snd F) B' = frame_at (snd n) (fst F) (snd F) B" if "F \<in> set Fs" for n F
    using assms [OF that] by (rule frame_at_cong)
  then show ?thesis by (auto simp: list_all2_conv_all_nth)
qed

lemma queue_at_cong:
  assumes "\<And>b. b \<in> set (queue_blks ns Fs) \<Longrightarrow> B' b = B b" and "queue_at B p ns Fs"
  shows "queue_at B' p ns Fs"
  using assms nodes_at_cong [of ns B' B p] frames_cong [of Fs B' B ns]
  by (auto simp: queue_at_def queue_blks_def)

lemma queue_at_live:
  assumes "queue_at B p ns Fs" and "b \<in> set (queue_blks ns Fs)"
  shows "B b \<noteq> None"
proof -
  from assms(2) consider "b \<in> node_blks ns" | F where "F \<in> set Fs" "b \<in> set (snd F)"
    by (auto simp: queue_blks_def)
  then show ?thesis
  proof cases
    case 1
    then show ?thesis using assms(1) nodes_at_live [of B p ns b] by (simp add: queue_at_def)
  next
    case 2
    then obtain n where "frame_at (snd n) (fst F) (snd F) B"
      using assms(1) by (auto simp: queue_at_def list_all2_conv_all_nth in_set_conv_nth)
    then show ?thesis using 2(2) by (rule frame_at_live)
  qed
qed

section \<open>The queue interface\<close>

text \<open>
  Both queues promise the same: \<open>enq\<close> puts one value at the end, changes no block outside the
  list, and no field of the socket but the head of its queue.  \<open>enq_all\<close> appends several values.
\<close>

fun enq_all :: "(ptr \<Rightarrow> sys \<Rightarrow> sys option) \<Rightarrow> ptr list \<Rightarrow> sys \<Rightarrow> sys option" where
  "enq_all enq [] s = Some s"
| "enq_all enq (v # vs) s = do { s \<leftarrow> enq v s; enq_all enq vs s }"

locale frame_queue =
  fixes enq :: "ptr \<Rightarrow> sys \<Rightarrow> sys option"
    and head :: "rws_socket \<Rightarrow> ptr"
    and set_head :: "ptr \<Rightarrow> rws_socket \<Rightarrow> rws_socket"
  assumes enq_nodes: "fresh_ok s \<Longrightarrow> nodes_at (blocks s) (head (sk s)) ns \<Longrightarrow>
      \<exists>B p. enq v s = Some (set_heap B (Suc (next_blk s)) (s\<lparr>sk := set_head p (sk s)\<rparr>)) \<and>
        nodes_at B p (ns @ [(next_blk s, v)]) \<and>
        (\<forall>b. b \<notin> node_blks ns \<longrightarrow> b \<noteq> next_blk s \<longrightarrow> B b = blocks s b)"
    and head_set: "head (set_head p k) = p"
    and set_head_set: "set_head p (set_head q k) = set_head p k"
begin

text \<open>A frame appended to a queue is its last frame, and the others stay as they are.\<close>

lemma enq_frame:
  assumes fresh: "fresh_ok s" and q: "queue_at (blocks s) (head (sk s)) ns Fs"
    and fr: "frame_at v f D (blocks s)" and sep: "set D \<inter> set (queue_blks ns Fs) = {}"
  shows "\<exists>B p. enq v s = Some (set_heap B (Suc (next_blk s)) (s\<lparr>sk := set_head p (sk s)\<rparr>)) \<and>
     queue_at B p (ns @ [(next_blk s, v)]) (Fs @ [(f, D)]) \<and>
     fresh_ok (set_heap B (Suc (next_blk s)) (s\<lparr>sk := set_head p (sk s)\<rparr>)) \<and>
     (\<forall>b. b \<notin> node_blks ns \<longrightarrow> b \<noteq> next_blk s \<longrightarrow> B b = blocks s b)"
proof -
  from q have nodes: "nodes_at (blocks s) (head (sk s)) ns" by (simp add: queue_at_def)
  obtain B p where run: "enq v s = Some (set_heap B (Suc (next_blk s)) (s\<lparr>sk := set_head p (sk s)\<rparr>))"
    and nodes': "nodes_at B p (ns @ [(next_blk s, v)])"
    and same: "\<And>b. b \<notin> node_blks ns \<Longrightarrow> b \<noteq> next_blk s \<Longrightarrow> B b = blocks s b"
    using enq_nodes [OF fresh nodes] by blast
  have old: "b < next_blk s" if "b \<in> set (queue_blks ns Fs) \<or> b \<in> set D" for b
    using that queue_at_live [OF q] frame_at_live [OF fr] fresh by (auto simp: fresh_ok_def)
  have out: "b \<notin> node_blks ns" if "F \<in> set Fs" "b \<in> set (snd F)" for F b
    using queue_at_distinct [OF q] that by (auto simp: queue_blks_def)
  have "B b = blocks s b" if "F \<in> set Fs" "b \<in> set (snd F)" for F b
    using same [OF out [OF that]] old [of b] that by (auto simp: queue_blks_def)
  then have frames: "list_all2 (\<lambda>n F. frame_at (snd n) (fst F) (snd F) B) ns Fs"
    using q frames_cong [of Fs B "blocks s" ns] by (auto simp: queue_at_def)
  have "B b = blocks s b" if "b \<in> set D" for b
    using same [of b] old [of b] sep that by (auto simp: queue_blks_def)
  then have fr': "frame_at v f D B" using fr frame_at_cong [of D B "blocks s"] by auto
  have "distinct D" using fr by (simp add: frame_at_def)
  then have "distinct (queue_blks (ns @ [(next_blk s, v)]) (Fs @ [(f, D)]))"
    using queue_at_distinct [OF q] sep old [of "next_blk s"] by (auto simp: queue_blks_def)
  then have "queue_at B p (ns @ [(next_blk s, v)]) (Fs @ [(f, D)])"
    using nodes' frames fr' by (simp add: queue_at_def list_all2_appendI)
  moreover have "fresh_ok (set_heap B (Suc (next_blk s)) (s\<lparr>sk := set_head p (sk s)\<rparr>))"
    unfolding fresh_ok_def
  proof (intro allI impI)
    fix b assume b: "blocks (set_heap B (Suc (next_blk s)) (s\<lparr>sk := set_head p (sk s)\<rparr>)) b \<noteq> None"
    show "b < next_blk (set_heap B (Suc (next_blk s)) (s\<lparr>sk := set_head p (sk s)\<rparr>))"
    proof (cases "b \<in> node_blks ns \<or> b = next_blk s")
      case True then show ?thesis using old [of b] by (cases "b = next_blk s") (simp_all add: queue_blks_def)
    next
      case False then show ?thesis using b same [of b] fresh by (simp add: fresh_ok_def less_Suc_eq)
    qed
  qed
  ultimately show ?thesis using run same by blast
qed

lemma enq_all_nodes:
  "fresh_ok s \<Longrightarrow> nodes_at (blocks s) (head (sk s)) ns \<Longrightarrow>
   \<exists>s' ms. enq_all enq vs s = Some s' \<and> nodes_at (blocks s') (head (sk s')) (ns @ ms) \<and> map snd ms = vs"
proof (induction vs arbitrary: s ns)
  case (Cons v vs)
  obtain B p where run: "enq v s = Some (set_heap B (Suc (next_blk s)) (s\<lparr>sk := set_head p (sk s)\<rparr>))"
    and nodes: "nodes_at B p (ns @ [(next_blk s, v)])"
    and same: "\<And>b. b \<notin> node_blks ns \<Longrightarrow> b \<noteq> next_blk s \<Longrightarrow> B b = blocks s b"
    using enq_nodes [OF Cons.prems] by blast
  let ?s = "set_heap B (Suc (next_blk s)) (s\<lparr>sk := set_head p (sk s)\<rparr>)"
  have "b < Suc (next_blk s)" if "B b \<noteq> None" for b
    using that same [of b] nodes_at_live [OF Cons.prems(2), of b] Cons.prems(1)
    by (cases "b \<in> node_blks ns"; cases "b = next_blk s") (auto simp: fresh_ok_def less_Suc_eq)
  then have "fresh_ok ?s" by (simp add: fresh_ok_def)
  moreover have "nodes_at (blocks ?s) (head (sk ?s)) (ns @ [(next_blk s, v)])"
    using nodes by (simp add: head_set)
  ultimately obtain s' ms where "enq_all enq vs ?s = Some s'"
      "nodes_at (blocks s') (head (sk s')) ((ns @ [(next_blk s, v)]) @ ms)" "map snd ms = vs"
    using Cons.IH by blast
  then show ?case using run by (intro exI [of _ s'] exI [of _ "(next_blk s, v) # ms"]) simp
qed auto

end

section \<open>The two queues of the socket\<close>

lemma queue_append_run:
  assumes "fresh_ok s" and "nodes_at (blocks s) (head (sk s)) ns"
    and def: "enq v s = (if head (sk s) \<noteq> NULL then rws_list_append (head (sk s)) v s
      else do {
        let (l, s) = rws_list_create s;
        let s = s\<lparr>sk := set_head l (sk s)\<rparr>;
        x \<leftarrow> get_node (head (sk s)) s;
        put_node (head (sk s)) (x\<lparr>n_value := v\<rparr>) s })"
    and head: "\<And>p k. head (set_head p k) = p" "\<And>k. set_head (head k) k = k"
  shows "\<exists>B p. enq v s = Some (set_heap B (Suc (next_blk s)) (s\<lparr>sk := set_head p (sk s)\<rparr>)) \<and>
        nodes_at B p (ns @ [(next_blk s, v)]) \<and>
        (\<forall>b. b \<notin> node_blks ns \<longrightarrow> b \<noteq> next_blk s \<longrightarrow> B b = blocks s b)"
proof (cases ns rule: rev_cases)
  case Nil
  let ?B = "(blocks s)(next_blk s \<mapsto> ONode \<lparr>n_value = v, n_next = NULL\<rparr>)"
  have "enq v s = Some (set_heap ?B (Suc (next_blk s)) (s\<lparr>sk := set_head (Ptr (next_blk s) 0) (sk s)\<rparr>))"
    using assms(2) Nil unfolding def
    by (simp add: rws_list_create_def rws_malloc_zero_def run_simps head) (simp add: zero_node_def)
  moreover have "nodes_at ?B (Ptr (next_blk s) 0) [(next_blk s, v)]" by simp
  ultimately show ?thesis using Nil by auto
next
  case (snoc xs x)
  obtain b w where x: "x = (b, w)" by (cases x)
  have nodes: "nodes_at (blocks s) (head (sk s)) (xs @ [(b, w)])" using assms(2) snoc x by simp
  then have "head (sk s) \<noteq> NULL" by auto
  then have "enq v s = rws_list_append (head (sk s)) v s" unfolding def by simp
  note run = this [unfolded rws_list_append_run(1) [OF assms(1) nodes]]
  have "s\<lparr>sk := set_head (head (sk s)) (sk s)\<rparr> = s" using head(2) by simp
  with run rws_list_append_run(2) [OF assms(1) nodes, of v] snoc x show ?thesis
    by (intro exI [of _ "(blocks s)(b \<mapsto> ONode \<lparr>n_value = w, n_next = Ptr (next_blk s) 0\<rparr>,
       next_blk s \<mapsto> ONode \<lparr>n_value = v, n_next = NULL\<rparr>)"] exI [of _ "head (sk s)"]) simp
qed

interpretation send_queue: frame_queue rws_socket_append_send_frames s_send_frames "\<lambda>p k. k\<lparr>s_send_frames := p\<rparr>"
  by unfold_locales (auto intro!: queue_append_run simp: rws_socket_append_send_frames_def)

interpretation recvd_queue: frame_queue rws_socket_append_recvd_frames s_recvd_frames "\<lambda>p k. k\<lparr>s_recvd_frames := p\<rparr>"
  by unfold_locales (auto intro!: queue_append_run simp: rws_socket_append_recvd_frames_def)

section \<open>Emptying a queue\<close>

lemma delete_all_frames_NULL [run_simps]: "rws_socket_delete_all_frames_in_list NULL m = Some m"
  by (subst rws_socket_delete_all_frames_in_list.simps) simp

text \<open>The loop can only return from \<open>NULL\<close>, since \<open>cur\<close> never changes.\<close>

lemma delete_all_frames_returns:
  "rws_socket_delete_all_frames_in_list cur m = Some m' \<Longrightarrow> cur = NULL"
  by (erule rws_socket_delete_all_frames_in_list.raw_induct [rotated, of _ _ _ "\<lambda>cur m m'. cur = NULL"])
    (auto simp: Option.bind_eq_Some_conv split: if_splits)

lemma delete_all_frames_no_result: "cur \<noteq> NULL \<Longrightarrow> rws_socket_delete_all_frames_in_list cur m = None"
  using delete_all_frames_returns by (cases "rws_socket_delete_all_frames_in_list cur m") auto

text \<open>Each round of the loop is harmless: it deletes the frame of the first node once.\<close>

lemma delete_all_frames_round:
  assumes "blocks m b = Some (ONode x)"
    and "n_value x = NULL \<or> frame_at (n_value x) f D (blocks m) \<and> b \<notin> set D"
  obtains m' where "delete_all_frames_body (Ptr b 0) m = Some m'"
    and "blocks m' b = Some (ONode (x\<lparr>n_value := NULL\<rparr>))"
  using assms(2)
proof
  assume "n_value x = NULL"
  with assms(1) show thesis
    by (intro that [of "set_heap ((blocks m)(b \<mapsto> ONode (x\<lparr>n_value := NULL\<rparr>))) (next_blk m) m"])
      (simp_all add: delete_all_frames_body_def run_simps)
next
  assume fr: "frame_at (n_value x) f D (blocks m) \<and> b \<notin> set D"
  then have "n_value x \<noteq> NULL" by (auto simp: frame_at_def)
  with fr assms(1) show thesis
    by (intro that [of "set_heap ((\<lambda>a. if a \<in> set D then None else blocks m a)(b \<mapsto> ONode (x\<lparr>n_value := NULL\<rparr>))) (next_blk m) m"])
      (simp_all add: delete_all_frames_body_def rws_frame_delete_run [OF conjunct1 [OF fr]] run_simps)
qed

text \<open>The first \<open>k\<close> rounds of the loop.\<close>

primrec delete_rounds :: "nat \<Rightarrow> ptr \<Rightarrow> 'a mem_scheme \<Rightarrow> 'a mem_scheme option" where
  "delete_rounds 0 cur m = Some m"
| "delete_rounds (Suc k) cur m = do { m \<leftarrow> delete_all_frames_body cur m; delete_rounds k cur m }"

lemma delete_rounds_loop:
  assumes "cur \<noteq> NULL"
  shows "rws_socket_delete_all_frames_in_list cur m = delete_rounds k cur m \<bind> rws_socket_delete_all_frames_in_list cur"
proof (induction k arbitrary: m)
  case (Suc k)
  have "rws_socket_delete_all_frames_in_list cur m = delete_all_frames_body cur m \<bind> rws_socket_delete_all_frames_in_list cur"
    using assms by (subst rws_socket_delete_all_frames_in_list.simps) simp
  then show ?case by (simp only: delete_rounds.simps Option.bind_assoc Suc.IH [symmetric])
qed simp

text \<open>\<open>rws_socket_delete_all_frames_in_list\<close> never returns on a list with a node.  Every round of
  its loop is executed without error, the first one deleting the frame of the first node, but the
  loop variable is never advanced: any number of rounds is followed by another.\<close>

lemma delete_rounds_run:
  assumes "blocks m b = Some (ONode x)" and "n_value x = NULL \<or> frame_at (n_value x) f D (blocks m) \<and> b \<notin> set D"
  shows "delete_rounds k (Ptr b 0) m \<noteq> None"
  using assms
proof (induction k arbitrary: m x)
  case (Suc k)
  obtain m' where m': "delete_all_frames_body (Ptr b 0) m = Some m'" "blocks m' b = Some (ONode (x\<lparr>n_value := NULL\<rparr>))"
    using Suc.prems by (rule delete_all_frames_round)
  then show ?case using Suc.IH [OF m'(2)] by simp
qed simp

lemma queue_endless:
  assumes "queue_at (blocks m) p ns Fs" and "ns \<noteq> []"
  shows "p \<noteq> NULL" and "delete_rounds k p m \<noteq> None" and "rws_socket_delete_all_frames_in_list p m = None"
proof -
  obtain b v ms where ns: "ns = (b, v) # ms" using assms(2) by (cases ns) auto
  then obtain F Gs where Fs: "Fs = F # Gs" using assms(1) by (auto simp: queue_at_def list_all2_Cons1)
  obtain x where p: "p = Ptr b 0" "blocks m b = Some (ONode x)" "n_value x = v"
    using assms(1) by (auto simp: queue_at_def ns)
  have "frame_at (n_value x) (fst F) (snd F) (blocks m) \<and> b \<notin> set (snd F)"
    using assms(1) p(3) by (auto simp: queue_at_def queue_blks_def ns Fs)
  then show "delete_rounds k p m \<noteq> None" unfolding p(1) using delete_rounds_run [OF p(2)] by blast
  show "p \<noteq> NULL" by (simp add: p(1))
  then show "rws_socket_delete_all_frames_in_list p m = None" by (rule delete_all_frames_no_result)
qed

section \<open>Properties\<close>

text \<open>C22: Both frame queues of a socket are first-in first-out: whatever sequence of frames is appended,
  the list holds the old entries followed by the new ones in the order of the calls.\<close>

theorem frame_queues_fifo:
  assumes "fresh_ok s" and "nodes_at (blocks s) (s_send_frames (sk s)) ns"
    and "nodes_at (blocks s) (s_recvd_frames (sk s)) ms"
  shows "(\<exists>s' xs. enq_all rws_socket_append_send_frames vs s = Some s' \<and>
      nodes_at (blocks s') (s_send_frames (sk s')) (ns @ xs) \<and> map snd xs = vs) \<and>
    (\<exists>s' xs. enq_all rws_socket_append_recvd_frames vs s = Some s' \<and>
      nodes_at (blocks s') (s_recvd_frames (sk s')) (ms @ xs) \<and> map snd xs = vs)"
  using send_queue.enq_all_nodes [OF assms(1,2)] recvd_queue.enq_all_nodes [OF assms(1,3)] by blast

theorem frame_queues_fifo_witness:
  "\<exists>s' xs. enq_all rws_socket_append_send_frames [Ptr 0 0, NULL] (sys_of [OFrame zero_frame] zero_socket quiet_env) = Some s' \<and>
     nodes_at (blocks s') (s_send_frames (sk s')) xs \<and> map snd xs = [Ptr 0 0, NULL]"
  using frame_queues_fifo [of "sys_of [OFrame zero_frame] zero_socket quiet_env" "[]" "[]" "[Ptr 0 0, NULL]"]
  by (auto simp: zero_socket_def)

end
