(* ===== verification/Rws_Session.thy ===== *)
theory Rws_Session
  imports Rws_Queue
begin

text \<open>
  The frame traffic of an open connection (\<open>rws_socketpriv.c\<close>): pings, pongs and the disconnect
  message, the send queue, the received frames with their fragments, and their delivery to the
  callbacks.
\<close>

section \<open>Operations\<close>

text \<open>
  A callback of the application may do anything to the program state: it is the parameter \<open>user\<close>.
  The trace records the call and its arguments.
\<close>

type_synonym user_code = "event \<Rightarrow> sys \<Rightarrow> sys option"

definition call_user :: "user_code \<Rightarrow> event \<Rightarrow> sys \<Rightarrow> sys option" where
  "call_user user e s = user e (s\<lparr>trace := trace s @ [e]\<rparr>)"

subsection \<open>Control frames to send\<close>

text \<open>\<open>len = sprintf(buff, 16, "%u", id)\<close>: the digits must fit the 16-byte array with their NUL.\<close>

definition sprint_id :: "u32 \<Rightarrow> u8 list option" where
  "sprint_id mess_id = (let d = utoa (unat mess_id) in if length d < 16 then Some d else None)"

definition rws_socket_send_ping :: "sys \<Rightarrow> sys option" where
  "rws_socket_send_ping s = do {
     let (frame, s) = rws_frame_create s;
     let (mess_id, s) = rws_socket_get_next_message_id s;
     buff \<leftarrow> sprint_id mess_id;
     f \<leftarrow> get_frame frame s;
     s \<leftarrow> put_frame frame (f\<lparr>f_is_masked := True, f_opcode := rws_opcode_ping\<rparr>) s;
     s \<leftarrow> rws_frame_fill_with_send_data frame (Lit buff 0) (length buff) s;
     rws_socket_append_send_frames frame s }"

definition rws_socket_send_disconnect :: "sys \<Rightarrow> sys option" where
  "rws_socket_send_disconnect s = do {
     let (frame, s) = rws_frame_create s;
     let (mess_id, s) = rws_socket_get_next_message_id s;
     buff \<leftarrow> sprint_id mess_id;
     f \<leftarrow> get_frame frame s;
     s \<leftarrow> put_frame frame (f\<lparr>f_is_masked := True, f_opcode := rws_opcode_connection_close\<rparr>) s;
     s \<leftarrow> rws_frame_fill_with_send_data frame (Lit buff 0) (length buff) s;
     f \<leftarrow> get_frame frame s;
     (_, s) \<leftarrow> rws_socket_send (f_data f) (f_data_size f) s;
     s \<leftarrow> rws_frame_delete frame s;
     Some (s\<lparr>sk := (sk s)\<lparr>s_command := COMMAND_END\<rparr>\<rparr>) }"

definition rws_socket_send_text_priv :: "ptr \<Rightarrow> sys \<Rightarrow> (bool \<times> sys) option" where
  "rws_socket_send_text_priv text s = do {
     len \<leftarrow> (if text \<noteq> NULL then strlen text s else Some 0);
     if len = 0 then Some (False, s)
     else do {
       let (frame, s) = rws_frame_create s;
       f \<leftarrow> get_frame frame s;
       s \<leftarrow> put_frame frame (f\<lparr>f_is_masked := True, f_opcode := rws_opcode_text_frame\<rparr>) s;
       s \<leftarrow> rws_frame_fill_with_send_data frame text len s;
       s \<leftarrow> rws_socket_append_send_frames frame s;
       Some (True, s) } }"

subsection \<open>Received frames\<close>

text \<open>The last frame in the list that is not finished, of any opcode.\<close>

partial_function (option) last_unfin_loop :: "ptr \<Rightarrow> ptr \<Rightarrow> 'a mem_scheme \<Rightarrow> ptr option" where
  "last_unfin_loop cur found m =
     (if cur \<noteq> NULL then do {
        x \<leftarrow> get_node cur m;
        found \<leftarrow> (if n_value x \<noteq> NULL then do {
                  f \<leftarrow> get_frame (n_value x) m;
                  Some (if \<not> f_is_finished f then n_value x else found) }
                else Some found);
        last_unfin_loop (n_next x) found m }
      else Some found)"

definition rws_socket_last_unfin_recvd_frame_by_opcode :: "rws_opcode \<Rightarrow> sys \<Rightarrow> ptr option" where
  "rws_socket_last_unfin_recvd_frame_by_opcode opcode s =
     last_unfin_loop (s_recvd_frames (sk s)) NULL s"

definition rws_socket_process_bin_or_text_frame :: "ptr \<Rightarrow> sys \<Rightarrow> sys option" where
  "rws_socket_process_bin_or_text_frame frame s = do {
     f \<leftarrow> get_frame frame s;
     last_unfin \<leftarrow> rws_socket_last_unfin_recvd_frame_by_opcode (f_opcode f) s;
     if last_unfin \<noteq> NULL then do {
       s \<leftarrow> rws_frame_combine_datas last_unfin frame s;
       f \<leftarrow> get_frame frame s;
       l \<leftarrow> get_frame last_unfin s;
       s \<leftarrow> put_frame last_unfin (l\<lparr>f_is_finished := f_is_finished f\<rparr>) s;
       rws_frame_delete frame s }
     else if f_data f \<noteq> NULL \<and> f_data_size f \<noteq> 0 then
       rws_socket_append_recvd_frames frame s
     else rws_frame_delete frame s }"

definition rws_socket_process_ping_frame :: "ptr \<Rightarrow> sys \<Rightarrow> sys option" where
  "rws_socket_process_ping_frame frame s = do {
     let (pong_frame, s) = rws_frame_create s;
     p \<leftarrow> get_frame pong_frame s;
     s \<leftarrow> put_frame pong_frame (p\<lparr>f_opcode := rws_opcode_pong, f_is_masked := True\<rparr>) s;
     f \<leftarrow> get_frame frame s;
     s \<leftarrow> rws_frame_fill_with_send_data pong_frame (f_data f) (f_data_size f) s;
     s \<leftarrow> rws_frame_delete frame s;
     rws_socket_append_send_frames pong_frame s }"

definition rws_socket_process_conn_close_frame :: "ptr \<Rightarrow> sys \<Rightarrow> sys option" where
  "rws_socket_process_conn_close_frame frame s = do {
     let s = s\<lparr>sk := (sk s)\<lparr>s_command := COMMAND_INFORM_DISCONNECTED\<rparr>\<rparr>;
     s \<leftarrow> set_error rws_error_code_connection_closed (lit ''Connection was closed by endpoint'') s;
     rws_frame_delete frame s }"

definition rws_socket_process_received_frame :: "ptr \<Rightarrow> sys \<Rightarrow> sys option" where
  "rws_socket_process_received_frame frame s = do {
     f \<leftarrow> get_frame frame s;
     if f_opcode f = rws_opcode_ping then rws_socket_process_ping_frame frame s
     else if f_opcode f \<in> {rws_opcode_text_frame, rws_opcode_binary_frame, rws_opcode_continuation}
     then rws_socket_process_bin_or_text_frame frame s
     else if f_opcode f = rws_opcode_connection_close
     then rws_socket_process_conn_close_frame frame s
     else rws_frame_delete frame s }"

text \<open>
  \<open>memmove\<close> of the rest of the buffer to its front.  The source is read before the target is
  written, so the ranges may overlap.
\<close>

definition consume_received :: "nat \<Rightarrow> sys \<Rightarrow> sys option" where
  "consume_received nframe_size s =
     (if nframe_size = s_received_len (sk s)
      then Some (s\<lparr>sk := (sk s)\<lparr>s_received_len := 0\<rparr>\<rparr>)
      else if nframe_size < s_received_len (sk s) then do {
        let nLeftLen = s_received_len (sk s) - nframe_size;
        s \<leftarrow> memcpy (s_received (sk s)) (ptr_add (s_received (sk s)) nframe_size) nLeftLen s;
        Some (s\<lparr>sk := (sk s)\<lparr>s_received_len := nLeftLen\<rparr>\<rparr>) }
      else Some s)"

definition rws_socket_idle_recv :: "sys \<Rightarrow> sys option" where
  "rws_socket_idle_recv s = do {
     (ok, s) \<leftarrow> rws_socket_recv s;
     if \<not> ok then
       Some (if s_error (sk s) \<noteq> NULL
             then s\<lparr>sk := (sk s)\<lparr>s_command := COMMAND_INFORM_DISCONNECTED\<rparr>\<rparr> else s)
     else do {
       nframe_size \<leftarrow> rws_check_recv_frame_size (s_received (sk s)) (s_received_len (sk s)) s;
       if nframe_size \<noteq> 0 then do {
         (frame, s) \<leftarrow> rws_frame_create_with_recv_data (s_received (sk s)) nframe_size s;
         s \<leftarrow> (if frame \<noteq> NULL then rws_socket_process_received_frame frame s else Some s);
         consume_received nframe_size s }
       else Some s } }"

subsection \<open>Delivery\<close>

text \<open>
  The callback is handed the data pointer and \<open>(unsigned int)data_size\<close>: it may read that many
  bytes.
\<close>

definition callback_bytes :: "rws_frame \<Rightarrow> 'a mem_scheme \<Rightarrow> u8 list option" where
  "callback_bytes f m =
     (let len = unat (word_of_nat (f_data_size f) :: u32)
      in if len = 0 then Some [] else load_bytes (f_data f) len m)"

definition deliver_frame :: "user_code \<Rightarrow> rws_frame \<Rightarrow> sys \<Rightarrow> sys option" where
  "deliver_frame user f s =
     (if f_opcode f = rws_opcode_text_frame then
        (if s_on_recvd_text (sk s) \<noteq> None
         then do { bs \<leftarrow> callback_bytes f s; call_user user (On_text bs) s } else Some s)
      else if f_opcode f = rws_opcode_binary_frame then
        (if s_on_recvd_bin (sk s) \<noteq> None
         then do { bs \<leftarrow> callback_bytes f s; call_user user (On_bin bs) s } else Some s)
      else Some s)"

partial_function (option) inform_loop ::
    "user_code \<Rightarrow> ptr \<Rightarrow> bool \<Rightarrow> sys \<Rightarrow> (bool \<times> sys) option" where
  "inform_loop user cur is_all_finished s =
     (if cur \<noteq> NULL then do {
        x \<leftarrow> get_node cur s;
        (is_all_finished, s) \<leftarrow>
          (if n_value x \<noteq> NULL then do {
             f \<leftarrow> get_frame (n_value x) s;
             if f_is_finished f then do {
               s \<leftarrow> deliver_frame user f s;
               s \<leftarrow> rws_frame_delete (n_value x) s;
               y \<leftarrow> get_node cur s;
               s \<leftarrow> put_node cur (y\<lparr>n_value := NULL\<rparr>) s;
               Some (is_all_finished, s) }
             else Some (False, s) }
           else Some (is_all_finished, s));
        x \<leftarrow> get_node cur s;
        inform_loop user (n_next x) is_all_finished s }
      else Some (is_all_finished, s))"

definition rws_socket_inform_recvd_frames :: "user_code \<Rightarrow> sys \<Rightarrow> sys option" where
  "rws_socket_inform_recvd_frames user s = do {
     (is_all_finished, s) \<leftarrow> inform_loop user (s_recvd_frames (sk s)) True s;
     if is_all_finished then do {
       (l, s) \<leftarrow> rws_list_delete_clean (s_recvd_frames (sk s)) s;
       Some (s\<lparr>sk := (sk s)\<lparr>s_recvd_frames := l\<rparr>\<rparr>) }
     else Some s }"

subsection \<open>The send queue\<close>

partial_function (option) idle_send_loop :: "ptr \<Rightarrow> bool \<Rightarrow> sys \<Rightarrow> sys option" where
  "idle_send_loop cur sending s =
     (if cur \<noteq> NULL \<and> s_is_connected (sk s) \<and> sending then do {
        x \<leftarrow> get_node cur s;
        let frame = n_value x;
        s \<leftarrow> put_node cur (x\<lparr>n_value := NULL\<rparr>) s;
        (sending, s) \<leftarrow> (if frame \<noteq> NULL then do {
            f \<leftarrow> get_frame frame s;
            rws_socket_send (f_data f) (f_data_size f) s }
          else Some (sending, s));
        s \<leftarrow> rws_frame_delete frame s;
        x \<leftarrow> get_node cur s;
        idle_send_loop (n_next x) sending s }
      else Some s)"

definition rws_socket_idle_send :: "sys \<Rightarrow> sys option" where
  "rws_socket_idle_send s = do {
     s \<leftarrow> rws_mutex_lock (s_send_mutex (sk s)) s;
     s \<leftarrow> (if s_send_frames (sk s) \<noteq> NULL then do {
         s \<leftarrow> idle_send_loop (s_send_frames (sk s)) True s;
         (l, s) \<leftarrow> rws_list_delete_clean (s_send_frames (sk s)) s;
         let s = s\<lparr>sk := (sk s)\<lparr>s_send_frames := l\<rparr>\<rparr>;
         Some (if s_error (sk s) \<noteq> NULL
               then s\<lparr>sk := (sk s)\<lparr>s_command := COMMAND_INFORM_DISCONNECTED\<rparr>\<rparr> else s) }
       else Some s);
     rws_mutex_unlock (s_send_mutex (sk s)) s }"

end
