(* ===== verification/Rws_Traffic.thy ===== *)
theory Rws_Traffic
  imports Rws_Session
begin

text \<open>
  What the session operations do on a well-formed state.  \<open>session\<close> ties the state of the program
  to the abstract session: the bytes received and not consumed, the messages waiting for delivery,
  and the frames waiting to be sent.
\<close>

section \<open>The abstract session\<close>

text \<open>
  A frame object with the blocks it owns carries a message: an opcode and its bytes.  For a frame to
  send the bytes are those of the whole frame.
\<close>

definition carries :: "(nat \<Rightarrow> obj option) \<Rightarrow> rws_frame \<times> nat list \<Rightarrow> rws_opcode \<times> u8 list \<Rightarrow> bool" where
  "carries B F x \<longleftrightarrow> f_opcode (fst F) = fst x \<and> f_is_finished (fst F) \<and>
     f_data_size (fst F) = length (snd x) \<and> snd x \<noteq> [] \<and>
     (\<exists>d \<in> set (snd F). f_data (fst F) = Ptr d 0 \<and> B d = Some (OBytes (map Some (snd x))))"

definition queue_holds ::
    "(nat \<Rightarrow> obj option) \<Rightarrow> ptr \<Rightarrow> (nat \<times> ptr) list \<Rightarrow> (rws_frame \<times> nat list) list \<Rightarrow> (rws_opcode \<times> u8 list) list \<Rightarrow> bool" where
  "queue_holds B p ns Fs xs \<longleftrightarrow> queue_at B p ns Fs \<and> list_all2 (carries B) Fs xs"

text \<open>
  \<open>session s E bs D ns Fs xs ms Gs ys\<close>: the error object owns the blocks \<open>E\<close>; the buffer owns
  \<open>D\<close> and holds the bytes \<open>bs\<close>; the queue of received frames holds the messages \<open>xs\<close>, the queue
  of frames to send holds \<open>ys\<close>; all these blocks are different.
\<close>

definition session :: "sys \<Rightarrow> nat list \<Rightarrow> u8 list \<Rightarrow> nat list \<Rightarrow>
    (nat \<times> ptr) list \<Rightarrow> (rws_frame \<times> nat list) list \<Rightarrow> (rws_opcode \<times> u8 list) list \<Rightarrow>
    (nat \<times> ptr) list \<Rightarrow> (rws_frame \<times> nat list) list \<Rightarrow> (rws_opcode \<times> u8 list) list \<Rightarrow> bool" where
  "session s E bs D ns Fs xs ms Gs ys \<longleftrightarrow> fresh_ok s \<and> err_own s E \<and> buffer_at (blocks s) (sk s) bs D \<and>
     queue_holds (blocks s) (s_recvd_frames (sk s)) ns Fs xs \<and>
     queue_holds (blocks s) (s_send_frames (sk s)) ms Gs ys \<and>
     distinct (E @ D @ queue_blks ns Fs @ queue_blks ms Gs)"

lemma carries_cong:
  assumes "\<And>b. b \<in> set (snd F) \<Longrightarrow> B' b = B b"
  shows "carries B F x \<Longrightarrow> carries B' F x"
  using assms by (auto simp: carries_def)

lemma queue_holds_cong:
  assumes "\<And>b. b \<in> set (queue_blks ns Fs) \<Longrightarrow> B' b = B b" and "queue_holds B p ns Fs xs"
  shows "queue_holds B' p ns Fs xs"
proof -
  have "list_all2 (carries B) Fs xs" using assms(2) by (simp add: queue_holds_def)
  then have "list_all2 (carries B') Fs xs"
  proof (rule list.rel_mono_strong)
    fix F x assume "F \<in> set Fs" "carries B F x"
    then show "carries B' F x"
      using assms(1) by (intro carries_cong [of F B' B]) (auto simp: queue_blks_def)
  qed
  then show ?thesis using queue_at_cong [of ns Fs B' B p] assms by (simp add: queue_holds_def)
qed

lemma queue_holds_at: "queue_holds B p ns Fs xs \<Longrightarrow> queue_at B p ns Fs"
  by (simp add: queue_holds_def)

lemma queue_holds_Nil [simp]: "queue_holds B NULL ns Fs xs \<longleftrightarrow> ns = [] \<and> Fs = [] \<and> xs = []"
  by (auto simp: queue_holds_def)

lemma session_live:
  assumes "session s E bs D ns Fs xs ms Gs ys"
    and "b \<in> set E \<union> set D \<union> set (queue_blks ns Fs) \<union> set (queue_blks ms Gs)"
  shows "blocks s b \<noteq> None" "b < next_blk s"
proof -
  show "blocks s b \<noteq> None"
    using assms unfolding session_def
    by (auto dest!: queue_holds_at dest: err_own_live buffer_at_live queue_at_live)
  then show "b < next_blk s" using assms(1) by (auto simp: session_def fresh_ok_def)
qed

text \<open>
  An operation that keeps the blocks of the session and the fields it is about keeps the session.
\<close>

lemma session_cong:
  assumes "session s E bs D ns Fs xs ms Gs ys" and "fresh_ok s'"
    and "\<And>b. b \<in> set E \<union> set D \<union> set (queue_blks ns Fs) \<union> set (queue_blks ms Gs) \<Longrightarrow> blocks s' b = blocks s b"
    and "s_error (sk s') = s_error (sk s)" "s_received (sk s') = s_received (sk s)"
      "s_received_size (sk s') = s_received_size (sk s)" "s_received_len (sk s') = s_received_len (sk s)"
      "s_recvd_frames (sk s') = s_recvd_frames (sk s)" "s_send_frames (sk s') = s_send_frames (sk s)"
  shows "session s' E bs D ns Fs xs ms Gs ys"
  using assms err_own_cong [of s' s E] buffer_at_cong [of "sk s'" "sk s" D "blocks s'" "blocks s" bs]
    queue_holds_cong [of ns Fs "blocks s'" "blocks s"] queue_holds_cong [of ms Gs "blocks s'" "blocks s"]
  by (auto simp: session_def)

text \<open>No block of a session is a mutex or a socket object, so what changes only its blocks keeps them.\<close>

lemma error_at_kind: "error_at e code D s \<Longrightarrow> b \<in> set D \<Longrightarrow> blocks s b \<noteq> Some (OMutex c) \<and> blocks s b \<noteq> Some OSocket"
  by (auto simp: error_at_def dest!: get_err_SomeD split: option.splits ptr.splits)

lemma frame_at_kind: "frame_at p f D B \<Longrightarrow> b \<in> set D \<Longrightarrow> B b \<noteq> Some (OMutex c) \<and> B b \<noteq> Some OSocket"
  by (auto simp: frame_at_def split: ptr.splits option.splits)

lemma nodes_at_kind: "nodes_at B p ns \<Longrightarrow> b \<in> node_blks ns \<Longrightarrow> B b \<noteq> Some (OMutex c) \<and> B b \<noteq> Some OSocket"
proof (induction ns arbitrary: p)
  case (Cons n ns)
  then show ?case by (cases n) auto
qed simp

lemma queue_at_kind:
  assumes "queue_at B p ns Fs" and "b \<in> set (queue_blks ns Fs)"
  shows "B b \<noteq> Some (OMutex c) \<and> B b \<noteq> Some OSocket"
proof -
  from assms(2) consider "b \<in> node_blks ns" | F where "F \<in> set Fs" "b \<in> set (snd F)"
    by (auto simp: queue_blks_def)
  then show ?thesis
  proof cases
    case 1
    then show ?thesis using assms(1) nodes_at_kind [of B p ns b] by (simp add: queue_at_def)
  next
    case 2
    then obtain n where "frame_at (snd n) (fst F) (snd F) B"
      using assms(1) by (auto simp: queue_at_def list_all2_conv_all_nth in_set_conv_nth)
    then show ?thesis using 2(2) by (rule frame_at_kind)
  qed
qed

lemma session_kind:
  assumes "session s E bs D ns Fs xs ms Gs ys"
    and "b \<in> set E \<union> set D \<union> set (queue_blks ns Fs) \<union> set (queue_blks ms Gs)"
  shows "blocks s b \<noteq> Some (OMutex c)" and "blocks s b \<noteq> Some OSocket"
proof -
  have "b \<in> set E \<Longrightarrow> blocks s b \<noteq> Some (OMutex c) \<and> blocks s b \<noteq> Some OSocket"
    using assms(1) by (auto simp: session_def err_own_def dest: error_at_kind)
  moreover have "b \<in> set D \<Longrightarrow> blocks s b \<noteq> Some (OMutex c) \<and> blocks s b \<noteq> Some OSocket"
    using assms(1) by (auto simp: session_def buffer_at_def split: ptr.splits)
  moreover have "b \<in> set (queue_blks ns Fs) \<union> set (queue_blks ms Gs) \<Longrightarrow> blocks s b \<noteq> Some (OMutex c) \<and> blocks s b \<noteq> Some OSocket"
    using assms(1) by (auto simp: session_def dest!: queue_holds_at dest: queue_at_kind)
  ultimately show "blocks s b \<noteq> Some (OMutex c)" "blocks s b \<noteq> Some OSocket" using assms(2) by blast+
qed

lemma session_keeps:
  assumes ses: "session s E bs D ns Fs xs ms Gs ys"
    and "\<And>k. k < next_blk s \<Longrightarrow> k \<notin> set E \<union> set D \<union> set (queue_blks ns Fs) \<union> set (queue_blks ms Gs) \<Longrightarrow>
      blocks s' k = blocks s k"
  shows "keeps_mutexes s s'"
proof -
  have "fresh_ok s" using ses by (simp add: session_def)
  then show ?thesis
    using assms(2) session_kind(1) [OF ses] by (rule keeps_outside)
qed

text \<open>
  \<open>evolves F s F' s'\<close>: of the blocks of \<open>s\<close>, only those in \<open>F\<close> have changed or belong to \<open>F'\<close> now.  An
  operation on a session evolves the blocks of the session, so everything beside them stays.
\<close>

definition evolves :: "nat set \<Rightarrow> 'a mem_scheme \<Rightarrow> nat set \<Rightarrow> 'b mem_scheme \<Rightarrow> bool" where
  "evolves F m F' m' \<longleftrightarrow> next_blk m \<le> next_blk m' \<and>
     (\<forall>k < next_blk m. k \<notin> F \<longrightarrow> k \<notin> F' \<and> blocks m' k = blocks m k)"

lemma evolvesI:
  "next_blk m \<le> next_blk m' \<Longrightarrow> (\<And>k. k < next_blk m \<Longrightarrow> k \<notin> F \<Longrightarrow> k \<notin> F' \<and> blocks m' k = blocks m k) \<Longrightarrow> evolves F m F' m'"
  by (simp add: evolves_def)

lemma evolves_refl [simp]: "evolves F m F m"
  by (simp add: evolves_def)

lemma evolves_trans [trans]: "evolves F m F' m' \<Longrightarrow> evolves F' m' F'' m'' \<Longrightarrow> evolves F m F'' m''"
  by (auto simp: evolves_def)

lemma evolves_sys [simp]:
  "evolves F (s\<lparr>sk := k\<rparr>) F' m = evolves F s F' m" "evolves F m F' (s\<lparr>sk := k\<rparr>) = evolves F m F' s"
  "evolves F (s\<lparr>ev := e\<rparr>) F' m = evolves F s F' m" "evolves F m F' (s\<lparr>ev := e\<rparr>) = evolves F m F' s"
  "evolves F (s\<lparr>trace := t\<rparr>) F' m = evolves F s F' m" "evolves F m F' (s\<lparr>trace := t\<rparr>) = evolves F m F' s"
  by (simp_all add: evolves_def)

lemma evolves_keeps:
  assumes "session s E bs D ns Fs xs ms Gs ys"
    and "evolves (set E \<union> set D \<union> set (queue_blks ns Fs) \<union> set (queue_blks ms Gs)) s F s'"
  shows "keeps_mutexes s s'"
  using assms(2) by (intro session_keeps [OF assms(1)]) (auto simp: evolves_def)

text \<open>The blocks of a session.\<close>

abbreviation foot :: "nat list \<Rightarrow> nat list \<Rightarrow> (nat \<times> ptr) list \<Rightarrow> (rws_frame \<times> nat list) list \<Rightarrow>
    (nat \<times> ptr) list \<Rightarrow> (rws_frame \<times> nat list) list \<Rightarrow> nat set" where
  "foot E D ns Fs ms Gs \<equiv> set E \<union> set D \<union> set (queue_blks ns Fs) \<union> set (queue_blks ms Gs)"

text \<open>The fields of the socket that the traffic of a connection does not touch.\<close>

definition same_setup :: "rws_socket \<Rightarrow> rws_socket \<Rightarrow> bool" where
  "same_setup k k' \<longleftrightarrow> s_port k' = s_port k \<and> s_scheme k' = s_scheme k \<and> s_host k' = s_host k \<and> s_path k' = s_path k \<and>
     s_sec_ws_accept k' = s_sec_ws_accept k \<and> s_work_thread k' = s_work_thread k \<and> s_user_object k' = s_user_object k \<and>
     s_on_connected k' = s_on_connected k \<and> s_on_disconnected k' = s_on_disconnected k \<and>
     s_on_recvd_text k' = s_on_recvd_text k \<and> s_on_recvd_bin k' = s_on_recvd_bin k \<and>
     s_work_mutex k' = s_work_mutex k \<and> s_send_mutex k' = s_send_mutex k"

lemma same_setup_refl [simp]: "same_setup k k"
  by (simp add: same_setup_def)

lemma same_setup_trans [trans]: "same_setup k k' \<Longrightarrow> same_setup k' k'' \<Longrightarrow> same_setup k k''"
  by (simp add: same_setup_def)

section \<open>Receiving\<close>

lemma recv_session:
  assumes ses: "session s E bs D ns Fs xs ms Gs ys" and ok: "recv_ok s"
  obtains s' D' where "rws_socket_recv s = Some (True, s')"
    and "session s' [] (bs @ recv_data (fst (recv_result s))) D' ns Fs xs ms Gs ys"
    and "s_command (sk s') = s_command (sk s)" and "trace s' = trace s"
    and "s_error (sk s') = NULL" and "s_socket (sk s') = s_socket (sk s)"
    and "s_is_connected (sk s') = s_is_connected (sk s)"
    and "ev s' = (ev s)\<lparr>env_recv := stl (env_recv (ev s))\<rparr>"
    and "evolves (foot E D ns Fs ms Gs) s (foot [] D' ns Fs ms Gs) s'"
    and "same_setup (sk s) (sk s')"
proof -
  from ses have pre: "fresh_ok s" "err_own s E" "buffer_at (blocks s) (sk s) bs D" "set E \<inter> set D = {}"
    by (auto simp: session_def)
  obtain s' E' D' where run: "rws_socket_recv s = Some (recv_ok s, s')" and out: "recv_outcome s E bs D s' E' D'"
    using rws_socket_recv_run [OF pre] by blast
  have fresh: "fresh_ok s'" and buf: "buffer_at (blocks s') (sk s') (bs @ recv_data (fst (recv_result s))) D'"
    and new: "\<And>b. b \<in> set D' \<Longrightarrow> b \<in> set D \<or> next_blk s \<le> b"
    and same: "\<And>b. b \<notin> set D' \<Longrightarrow> b \<notin> set E' \<Longrightarrow> blocks s' b = (if b \<in> set D \<union> set E then None else blocks s b)"
    and ok': "E' = []" "trace s' = trace s" "ev s' = (ev s)\<lparr>env_recv := stl (env_recv (ev s))\<rparr>"
    using out ok by (simp_all add: recv_outcome_def)
  have sk: "s_error (sk s') = NULL" "s_recvd_frames (sk s') = s_recvd_frames (sk s)"
      "s_send_frames (sk s') = s_send_frames (sk s)" "s_command (sk s') = s_command (sk s)"
      "s_socket (sk s') = s_socket (sk s)" "s_is_connected (sk s') = s_is_connected (sk s)"
    using out ok by (auto simp: recv_outcome_def)
  have stp: "same_setup (sk s) (sk s')"
    using out ok by (auto simp: recv_outcome_def same_setup_def)
  let ?Q = "set (queue_blks ns Fs) \<union> set (queue_blks ms Gs)"
  have Q: "blocks s' b = blocks s b" "b \<notin> set D'" if "b \<in> ?Q" for b
  proof -
    have "b < next_blk s" "b \<notin> set D" "b \<notin> set E" using that session_live(2) [OF ses, of b] ses
      by (auto simp: session_def)
    then show "b \<notin> set D'" using new [of b] by auto
    then show "blocks s' b = blocks s b" using same [of b] ok'(1) \<open>b \<notin> set D\<close> \<open>b \<notin> set E\<close> by simp
  qed
  have "distinct D'" using buf by (auto simp: buffer_at_def split: ptr.splits)
  then have "session s' [] (bs @ recv_data (fst (recv_result s))) D' ns Fs xs ms Gs ys"
    using ses fresh buf sk Q queue_holds_cong [of ns Fs "blocks s'" "blocks s"]
      queue_holds_cong [of ms Gs "blocks s'" "blocks s"] by (auto simp: session_def)
  moreover have "evolves (foot E D ns Fs ms Gs) s (foot [] D' ns Fs ms Gs) s'"
  proof (rule evolvesI)
    show "next_blk s \<le> next_blk s'" using out by (simp add: recv_outcome_def)
    fix k assume k: "k < next_blk s" "k \<notin> foot E D ns Fs ms Gs"
    then have "k \<notin> set D'" using new [of k] by auto
    then show "k \<notin> foot [] D' ns Fs ms Gs \<and> blocks s' k = blocks s k" using same [of k] ok'(1) k(2) by simp
  qed
  ultimately show thesis using run ok ok' sk stp by (intro that) auto
qed

section \<open>Frames beside a session\<close>

text \<open>
  \<open>beside s F q f Df\<close>: a frame object that is in no queue yet and shares no block with \<open>F\<close>, the blocks of
  the session.
\<close>

definition beside :: "sys \<Rightarrow> nat set \<Rightarrow> ptr \<Rightarrow> rws_frame \<Rightarrow> nat list \<Rightarrow> bool" where
  "beside s F q f Df \<longleftrightarrow> frame_at q f Df (blocks s) \<and> set Df \<inter> F = {}"

lemma session_delete_frame:
  assumes ses: "session s E bs D ns Fs xs ms Gs ys" and fr: "beside s (foot E D ns Fs ms Gs) q f Df"
  obtains s' where "rws_frame_delete q s = Some s'" and "session s' E bs D ns Fs xs ms Gs ys"
    and "sk s' = sk s" "ev s' = ev s" "trace s' = trace s" "next_blk s' = next_blk s"
    and "blocks s' = (\<lambda>b. if b \<in> set Df then None else blocks s b)"
    and "evolves (foot E D ns Fs ms Gs \<union> set Df) s (foot E D ns Fs ms Gs) s'"
proof -
  let ?s = "set_heap (\<lambda>b. if b \<in> set Df then None else blocks s b) (next_blk s) s"
  have "fresh_ok ?s" using ses by (auto simp: session_def fresh_ok_def)
  then have "session ?s E bs D ns Fs xs ms Gs ys"
    using fr by (intro session_cong [OF ses]) (auto simp: beside_def)
  moreover have "evolves (foot E D ns Fs ms Gs \<union> set Df) s (foot E D ns Fs ms Gs) ?s"
    by (simp add: evolves_def)
  ultimately show thesis using fr by (intro that [of ?s]) (auto simp: beside_def rws_frame_delete_run)
qed

lemma set_queue_blks_snoc [simp]:
  "set (queue_blks (ns @ [(b, q)]) (Fs @ [(f, Df)])) = insert b (set (queue_blks ns Fs) \<union> set Df)"
  by (auto simp: queue_blks_def)

lemma carries_list_cong:
  assumes "\<And>F b. F \<in> set Fs \<Longrightarrow> b \<in> set (snd F) \<Longrightarrow> B' b = B b" and "list_all2 (carries B) Fs xs"
  shows "list_all2 (carries B') Fs xs"
  using assms(2) by (rule list.rel_mono_strong) (use assms(1) carries_cong in metis)

text \<open>Both queues keep what they carry when a frame is appended.\<close>

context frame_queue
begin

lemma enq_holds:
  assumes fresh: "fresh_ok s" and q: "queue_holds (blocks s) (head (sk s)) ns Fs xs"
    and at: "frame_at q f Df (blocks s)" and msg: "carries (blocks s) (f, Df) x"
    and sep: "set Df \<inter> set (queue_blks ns Fs) = {}"
  shows "\<exists>B p. enq q s = Some (set_heap B (Suc (next_blk s)) (s\<lparr>sk := set_head p (sk s)\<rparr>)) \<and>
     queue_holds B p (ns @ [(next_blk s, q)]) (Fs @ [(f, Df)]) (xs @ [x]) \<and>
     fresh_ok (set_heap B (Suc (next_blk s)) (s\<lparr>sk := set_head p (sk s)\<rparr>)) \<and>
     (\<forall>b. b \<notin> node_blks ns \<longrightarrow> b \<noteq> next_blk s \<longrightarrow> B b = blocks s b)"
proof -
  have q': "queue_at (blocks s) (head (sk s)) ns Fs" and hold: "list_all2 (carries (blocks s)) Fs xs"
    using q by (auto simp: queue_holds_def)
  obtain B p where run: "enq q s = Some (set_heap B (Suc (next_blk s)) (s\<lparr>sk := set_head p (sk s)\<rparr>))"
    and new: "queue_at B p (ns @ [(next_blk s, q)]) (Fs @ [(f, Df)])"
    and fresh': "fresh_ok (set_heap B (Suc (next_blk s)) (s\<lparr>sk := set_head p (sk s)\<rparr>))"
    and same: "\<forall>b. b \<notin> node_blks ns \<longrightarrow> b \<noteq> next_blk s \<longrightarrow> B b = blocks s b"
    using enq_frame [OF fresh q' at sep] by blast
  have keep: "B b = blocks s b" if "b \<in> set Df \<union> set (concat (map snd Fs))" for b
  proof -
    have "blocks s b \<noteq> None"
      using that queue_at_live [OF q', of b] frame_at_live [OF at] by (auto simp: queue_blks_def)
    then have "b \<noteq> next_blk s" using fresh by (auto simp: fresh_ok_def)
    moreover have "b \<notin> node_blks ns" using that queue_at_distinct [OF q'] sep by (auto simp: queue_blks_def)
    ultimately show ?thesis using same by blast
  qed
  have "list_all2 (carries B) Fs xs" using keep hold by (intro carries_list_cong [of Fs B "blocks s"]) auto
  moreover have "carries B (f, Df) x" using keep msg by (intro carries_cong [of "(f, Df)" B "blocks s"]) auto
  ultimately have "queue_holds B p (ns @ [(next_blk s, q)]) (Fs @ [(f, Df)]) (xs @ [x])"
    using new by (simp add: queue_holds_def list_all2_appendI)
  with run fresh' same show ?thesis by blast
qed

end

lemma session_new_node:
  assumes ses: "session s E bs D ns Fs xs ms Gs ys" and fr: "beside s (foot E D ns Fs ms Gs) q f Df"
  shows "next_blk s \<notin> foot E D ns Fs ms Gs" "next_blk s \<notin> set Df"
    "set Df \<inter> foot E D ns Fs ms Gs = {}" "distinct Df"
proof -
  have fresh: "fresh_ok s" and at: "frame_at q f Df (blocks s)" using ses fr by (auto simp: session_def beside_def)
  show "next_blk s \<notin> foot E D ns Fs ms Gs" using session_live(2) [OF ses, of "next_blk s"] by blast
  show "next_blk s \<notin> set Df" using frame_at_live [OF at, of "next_blk s"] fresh_unused [OF fresh] by blast
  show "set Df \<inter> foot E D ns Fs ms Gs = {}" using fr by (simp add: beside_def)
  show "distinct Df" using at by (simp add: frame_at_def)
qed

lemma node_blks_sub: "b \<in> node_blks ns \<Longrightarrow> b \<in> set (queue_blks ns Fs)"
  by (simp add: queue_blks_def)

lemma session_append_recvd:
  assumes ses: "session s E bs D ns Fs xs ms Gs ys" and fr: "beside s (foot E D ns Fs ms Gs) q f Df"
    and msg: "carries (blocks s) (f, Df) x"
  obtains s' p where "rws_socket_append_recvd_frames q s = Some s'"
    and "session s' E bs D (ns @ [(next_blk s, q)]) (Fs @ [(f, Df)]) (xs @ [x]) ms Gs ys"
    and "sk s' = (sk s)\<lparr>s_recvd_frames := p\<rparr>" "ev s' = ev s" "trace s' = trace s"
    and "evolves (foot E D ns Fs ms Gs \<union> set Df) s (foot E D (ns @ [(next_blk s, q)]) (Fs @ [(f, Df)]) ms Gs) s'"
proof -
  obtain B p where run: "rws_socket_append_recvd_frames q s =
      Some (set_heap B (Suc (next_blk s)) (s\<lparr>sk := (sk s)\<lparr>s_recvd_frames := p\<rparr>\<rparr>))"
    and q': "queue_holds B p (ns @ [(next_blk s, q)]) (Fs @ [(f, Df)]) (xs @ [x])"
    and fresh': "fresh_ok (set_heap B (Suc (next_blk s)) (s\<lparr>sk := (sk s)\<lparr>s_recvd_frames := p\<rparr>\<rparr>))"
    and same: "\<forall>b. b \<notin> node_blks ns \<longrightarrow> b \<noteq> next_blk s \<longrightarrow> B b = blocks s b"
    using recvd_queue.enq_holds [of s ns Fs xs q f Df x] ses fr msg
    by (auto simp: session_def beside_def)
  let ?s = "set_heap B (Suc (next_blk s)) (s\<lparr>sk := (sk s)\<lparr>s_recvd_frames := p\<rparr>\<rparr>)"
  note new = session_new_node [OF ses fr]
  have keep: "B b = blocks s b" if "b \<in> set E \<union> set D \<union> set (queue_blks ms Gs)" for b
  proof -
    have "b \<notin> set (queue_blks ns Fs)" using that ses by (auto simp: session_def)
    then have "b \<notin> node_blks ns" using node_blks_sub by blast
    moreover have "b \<noteq> next_blk s" using that new(1) by auto
    ultimately show ?thesis using same by blast
  qed
  have "distinct (E @ D @ queue_blks (ns @ [(next_blk s, q)]) (Fs @ [(f, Df)]) @ queue_blks ms Gs)"
    using new ses queue_at_distinct [OF queue_holds_at [OF q']]
    unfolding session_def distinct_append set_append set_queue_blks_snoc by blast
  then have "session ?s E bs D (ns @ [(next_blk s, q)]) (Fs @ [(f, Df)]) (xs @ [x]) ms Gs ys"
    using ses q' fresh' keep err_own_cong [of ?s s E] buffer_at_cong [of "sk s" "sk s" D B "blocks s" bs]
      queue_holds_cong [of ms Gs B "blocks s"] by (simp add: session_def)
  moreover have "evolves (foot E D ns Fs ms Gs \<union> set Df) s (foot E D (ns @ [(next_blk s, q)]) (Fs @ [(f, Df)]) ms Gs) ?s"
    by (rule evolvesI) (use same node_blks_sub [of _ ns Fs] in \<open>auto dest: spec\<close>)
  ultimately show thesis using run by (intro that [of ?s p]) auto
qed

text \<open>
  Frames are queued for sending without a look at the queue of received frames, so it may be in any
  state meanwhile: the session is the one of the state in which another pointer \<open>r\<close> stands in its place.
\<close>

definition park :: "ptr \<Rightarrow> sys \<Rightarrow> sys" where
  "park r s = s\<lparr>sk := (sk s)\<lparr>s_recvd_frames := r\<rparr>\<rparr>"

lemma park_simps [simp]:
  "blocks (park r s) = blocks s" "next_blk (park r s) = next_blk s" "rands (park r s) = rands s"
  "ev (park r s) = ev s" "trace (park r s) = trace s" "sk (park r s) = (sk s)\<lparr>s_recvd_frames := r\<rparr>"
  "fresh_ok (park r s) = fresh_ok s" "park r (park q s) = park r s"
  by (simp_all add: park_def)

lemma park_self: "s_recvd_frames (sk s) = r \<Longrightarrow> park r s = s"
  by (auto simp: park_def)

lemma parked_append_send:
  assumes ses: "session (park r s) E bs D ns Fs xs ms Gs ys" and fr: "beside s (foot E D ns Fs ms Gs) q f Df"
    and msg: "carries (blocks s) (f, Df) y"
  obtains s' p where "rws_socket_append_send_frames q s = Some s'"
    and "session (park r s') E bs D ns Fs xs (ms @ [(next_blk s, q)]) (Gs @ [(f, Df)]) (ys @ [y])"
    and "sk s' = (sk s)\<lparr>s_send_frames := p\<rparr>" "ev s' = ev s" "trace s' = trace s"
    and "evolves (foot E D ns Fs ms Gs \<union> set Df) s (foot E D ns Fs (ms @ [(next_blk s, q)]) (Gs @ [(f, Df)])) s'"
proof -
  obtain B p where run: "rws_socket_append_send_frames q s =
      Some (set_heap B (Suc (next_blk s)) (s\<lparr>sk := (sk s)\<lparr>s_send_frames := p\<rparr>\<rparr>))"
    and q': "queue_holds B p (ms @ [(next_blk s, q)]) (Gs @ [(f, Df)]) (ys @ [y])"
    and fresh': "fresh_ok (set_heap B (Suc (next_blk s)) (s\<lparr>sk := (sk s)\<lparr>s_send_frames := p\<rparr>\<rparr>))"
    and same: "\<forall>b. b \<notin> node_blks ms \<longrightarrow> b \<noteq> next_blk s \<longrightarrow> B b = blocks s b"
    using send_queue.enq_holds [of s ms Gs ys q f Df y] ses fr msg
    by (auto simp: session_def beside_def)
  let ?s = "set_heap B (Suc (next_blk s)) (s\<lparr>sk := (sk s)\<lparr>s_send_frames := p\<rparr>\<rparr>)"
  have fr': "beside (park r s) (foot E D ns Fs ms Gs) q f Df" using fr by (simp add: beside_def)
  note new = session_new_node [OF ses fr', simplified]
  have keep: "B b = blocks s b" if "b \<in> set E \<union> set D \<union> set (queue_blks ns Fs)" for b
  proof -
    have "b \<notin> set (queue_blks ms Gs)" using that ses by (auto simp: session_def)
    then have "b \<notin> node_blks ms" using node_blks_sub by blast
    moreover have "b \<noteq> next_blk s" using that new(1) by auto
    ultimately show ?thesis using same by blast
  qed
  have "distinct (E @ D @ queue_blks ns Fs @ queue_blks (ms @ [(next_blk s, q)]) (Gs @ [(f, Df)]))"
    using new ses queue_at_distinct [OF queue_holds_at [OF q']]
    unfolding session_def distinct_append set_append set_queue_blks_snoc by blast
  then have "session (park r ?s) E bs D ns Fs xs (ms @ [(next_blk s, q)]) (Gs @ [(f, Df)]) (ys @ [y])"
    using ses q' fresh' keep err_own_cong [of "park r ?s" "park r s" E] buffer_at_cong [of "sk s" "sk s" D B "blocks s" bs]
      queue_holds_cong [of ns Fs B "blocks s"] by (simp add: session_def)
  moreover have "evolves (foot E D ns Fs ms Gs \<union> set Df) s (foot E D ns Fs (ms @ [(next_blk s, q)]) (Gs @ [(f, Df)])) ?s"
    by (rule evolvesI) (use same node_blks_sub [of _ ms Gs] in \<open>auto dest: spec\<close>)
  ultimately show thesis using run by (intro that [of ?s p]) auto
qed

lemma session_append_send:
  assumes ses: "session s E bs D ns Fs xs ms Gs ys" and fr: "beside s (foot E D ns Fs ms Gs) q f Df"
    and msg: "carries (blocks s) (f, Df) y"
  obtains s' p where "rws_socket_append_send_frames q s = Some s'"
    and "session s' E bs D ns Fs xs (ms @ [(next_blk s, q)]) (Gs @ [(f, Df)]) (ys @ [y])"
    and "sk s' = (sk s)\<lparr>s_send_frames := p\<rparr>" "ev s' = ev s" "trace s' = trace s"
    and "evolves (foot E D ns Fs ms Gs \<union> set Df) s (foot E D ns Fs (ms @ [(next_blk s, q)]) (Gs @ [(f, Df)])) s'"
proof -
  have "session (park (s_recvd_frames (sk s)) s) E bs D ns Fs xs ms Gs ys" using ses by (simp add: park_self)
  then show thesis by (rule parked_append_send [OF _ fr msg]) (auto intro!: that simp: park_self)
qed

section \<open>Frames to send\<close>

lemma encode_nonempty: "encode_frame op key msg \<noteq> []"
  using header_bytes_pos [of op key "length msg"] by (auto simp: encode_frame_def)

lemma fill_run:
  assumes fresh: "fresh_ok m" and fr: "blocks m b = Some (OFrame f)"
    and op: "unat (f_opcode f) < 16" and key: "f_is_masked f \<Longrightarrow> length (f_mask f) = 4"
    and ld: "p = NULL \<and> msg = [] \<or> load_bytes p (length msg) m = Some msg" and size: "length msg < 2 ^ 32"
  shows "rws_frame_fill_with_send_data (Ptr b 0) p (length msg) m = Some (set_heap ((blocks m)
    (b \<mapsto> OFrame (sent_frame f (length msg) (Ptr (next_blk m) 0)),
     next_blk m \<mapsto> OBytes (map Some (encode_frame (unat (f_opcode f)) (frame_key f) msg)))) (Suc (next_blk m)) m)"
  using ld
proof
  assume "load_bytes p (length msg) m = Some msg"
  from fill_with_send_data_run [OF fresh fr op key this] size show ?thesis by (simp add: encode_frame_def)
next
  assume no: "p = NULL \<and> msg = []"
  define hb where "hb = header_bytes (unat (f_opcode f)) (frame_key f) 0"
  have "key_ok (frame_key f)" using key by (rule key_ok_frame)
  then have "length hb \<le> 14" unfolding hb_def by (rule header_bytes_le)
  then have hl: "unat (word_of_nat (length hb) :: u8) = length hb" by (intro unat_u8_of_nat) simp
  have ne: "hb \<noteq> []" using header_bytes_pos [of "unat (f_opcode f)" "frame_key f" 0] by (auto simp: hb_def)
  have hdr: "rws_frame_create_header f 0 = (hb, f\<lparr>f_header_size := of_nat (length hb)\<rparr>)"
    using create_header_run [OF op key, of 0] by (simp add: hb_def)
  have b: "b \<noteq> next_blk m" "next_blk m \<noteq> b" using fresh fr by (auto simp: fresh_ok_def)
  have enc: "encode_frame (unat (f_opcode f)) (frame_key f) [] = hb"
    by (simp add: encode_frame_def hb_def mask_with_def split: option.split)
  have sent: "sent_frame f 0 d = f\<lparr>f_header_size := of_nat (length hb), f_data_size := length hb,
      f_data := d, f_is_finished := True\<rparr>" for d
    by (simp add: sent_frame_def hb_def Let_def)
  show ?thesis
    using no b fr hl ne by (simp add: rws_frame_fill_with_send_data_def run_simps hdr sent enc fun_upd_twist)
qed

text \<open>
  \<open>rws_frame_create\<close> and \<open>rws_frame_fill_with_send_data\<close> as the session uses them: a new masked
  frame beside the session that carries the encoded bytes.
\<close>

definition made_frame :: "rws_opcode \<Rightarrow> sys \<Rightarrow> rws_frame" where
  "made_frame op s = zero_frame\<lparr>f_opcode := op, f_mask := rand_mask (shd (rands s)) (shd (stl (rands s))),
     f_is_masked := True\<rparr>"

abbreviation made_key :: "sys \<Rightarrow> u8 list" where
  "made_key s \<equiv> rand_mask (shd (rands s)) (shd (stl (rands s)))"

lemma made_frame_simps [simp]:
  "f_opcode (made_frame op s) = op" "f_is_masked (made_frame op s)" "f_mask (made_frame op s) = made_key s"
  "frame_key (made_frame op s) = Some (made_key s)" "length (made_key s) = 4"
  by (simp_all add: made_frame_def frame_key_def rand_mask_def)

lemma made_frame_updates:
  "zero_frame\<lparr>f_mask := made_key s, f_is_masked := True, f_opcode := op\<rparr> = made_frame op s"
  "zero_frame\<lparr>f_mask := made_key s, f_opcode := op, f_is_masked := True\<rparr> = made_frame op s"
  by (simp_all add: made_frame_def zero_frame_def)

text \<open>The state with such a frame in the two next blocks.\<close>

definition ready_frame :: "rws_opcode \<Rightarrow> u8 list \<Rightarrow> sys \<Rightarrow> rws_frame" where
  "ready_frame op msg s = sent_frame (made_frame op s) (length msg) (Ptr (Suc (next_blk s)) 0)"

definition ready_bytes :: "rws_opcode \<Rightarrow> u8 list \<Rightarrow> sys \<Rightarrow> u8 list" where
  "ready_bytes op msg s = encode_frame (unat op) (Some (made_key s)) msg"

definition with_frame :: "rws_opcode \<Rightarrow> u8 list \<Rightarrow> sys \<Rightarrow> sys" where
  "with_frame op msg s = set_heap ((blocks s)(next_blk s \<mapsto> OFrame (ready_frame op msg s),
     Suc (next_blk s) \<mapsto> OBytes (map Some (ready_bytes op msg s)))) (Suc (Suc (next_blk s))) (skip_rands s)"

lemma with_frame_simps [simp]:
  "sk (with_frame op msg s) = sk s" "ev (with_frame op msg s) = ev s" "trace (with_frame op msg s) = trace s"
  "next_blk (with_frame op msg s) = Suc (Suc (next_blk s))"
  by (simp_all add: with_frame_def)

lemma make_frame_run:
  assumes fresh: "fresh_ok s" and op: "unat op < 16"
    and ld: "p = NULL \<and> msg = [] \<or> load_bytes p (length msg) s = Some msg" and size: "length msg < 2 ^ 32"
  shows "rws_frame_fill_with_send_data (Ptr (next_blk s) 0) p (length msg)
      (set_heap ((blocks s)(next_blk s \<mapsto> OFrame (made_frame op s))) (Suc (next_blk s)) (skip_rands s)) =
    Some (with_frame op msg s)"
proof -
  let ?s = "set_heap ((blocks s)(next_blk s \<mapsto> OFrame (made_frame op s))) (Suc (next_blk s)) (skip_rands s)"
  have "fresh_ok ?s" using fresh by (auto simp: fresh_ok_def less_Suc_eq)
  moreover have "p = NULL \<and> msg = [] \<or> load_bytes p (length msg) ?s = Some msg"
    using ld load_bytes_old [OF fresh, of p "length msg" msg ?s] by auto
  ultimately show ?thesis
    using fill_run [of ?s "next_blk s" "made_frame op s" p msg] op size
    by (simp add: with_frame_def ready_frame_def ready_bytes_def fun_upd_twist)
qed

lemma with_frame_session:
  assumes ses: "session s E bs D ns Fs xs ms Gs ys" and size: "length msg < 2 ^ 32"
  shows "session (with_frame op msg s) E bs D ns Fs xs ms Gs ys"
    and "beside (with_frame op msg s) (foot E D ns Fs ms Gs) (Ptr (next_blk s) 0) (ready_frame op msg s)
      [next_blk s, Suc (next_blk s)]"
    and "carries (blocks (with_frame op msg s)) (ready_frame op msg s, [next_blk s, Suc (next_blk s)])
      (op, ready_bytes op msg s)"
proof -
  have fresh: "fresh_ok s" using ses by (simp add: session_def)
  have old: "b < next_blk s" if "b \<in> foot E D ns Fs ms Gs" for b using session_live(2) [OF ses that] .
  have data: "f_data (ready_frame op msg s) = Ptr (Suc (next_blk s)) 0" "f_is_finished (ready_frame op msg s)"
      "f_opcode (ready_frame op msg s) = op"
    by (simp_all add: ready_frame_def sent_frame_def Let_def)
  have "f_data_size (ready_frame op msg s) = length (ready_bytes op msg s)"
    using size by (simp add: ready_frame_def ready_bytes_def sent_frame_def Let_def encode_frame_def)
  then show "carries (blocks (with_frame op msg s)) (ready_frame op msg s, [next_blk s, Suc (next_blk s)])
      (op, ready_bytes op msg s)"
    using data encode_nonempty by (auto simp: carries_def with_frame_def ready_bytes_def)
  show "beside (with_frame op msg s) (foot E D ns Fs ms Gs) (Ptr (next_blk s) 0) (ready_frame op msg s)
      [next_blk s, Suc (next_blk s)]"
    using data old by (force simp: beside_def frame_at_def with_frame_def)
  show "session (with_frame op msg s) E bs D ns Fs xs ms Gs ys"
    by (rule session_cong [OF ses]) (use old fresh in \<open>force simp: with_frame_def fresh_ok_def less_Suc_eq\<close>)+
qed

lemma with_frame_evolves: "evolves F s (F \<union> {next_blk s, Suc (next_blk s)}) (with_frame op msg s)"
  by (simp add: evolves_def with_frame_def)

subsection \<open>Message identifiers\<close>

lemma length_utoa: "n < 10 ^ Suc k \<Longrightarrow> length (utoa n) \<le> Suc k"
proof (induction k arbitrary: n)
  case (Suc k)
  show ?case
  proof (cases "n < 10")
    case False
    have "n div 10 < 10 ^ Suc k" using Suc.prems by (simp add: less_mult_imp_div_less)
    then have "length (utoa (n div 10)) \<le> Suc k" by (rule Suc.IH)
    with False show ?thesis by (subst utoa.simps) simp
  qed (subst utoa.simps, simp)
qed (subst utoa.simps, simp)

lemma sprint_id_run: "sprint_id i = Some (utoa (unat i))" "length (utoa (unat (i :: u32))) \<le> 10"
proof -
  have "unat i < 2 ^ LENGTH(32)" by (rule unsigned_less)
  then have "unat i < 10 ^ Suc 9" by simp
  then show "length (utoa (unat i)) \<le> 10" using length_utoa [of "unat i" 9] by simp
  then show "sprint_id i = Some (utoa (unat i))" by (simp add: sprint_id_def)
qed

definition next_id :: "sys \<Rightarrow> u32" where
  "next_id s = s_next_message_id (sk s) + 1"

definition bump_id :: "sys \<Rightarrow> sys" where
  "bump_id s = s\<lparr>sk := (sk s)\<lparr>s_next_message_id := (if 9999999 < next_id s then 0 else next_id s)\<rparr>\<rparr>"

lemma next_message_id_run: "rws_socket_get_next_message_id s = (next_id s, bump_id s)"
  by (simp add: rws_socket_get_next_message_id_def next_id_def bump_id_def Let_def)

lemma bump_id_simps [simp]:
  "blocks (bump_id s) = blocks s" "next_blk (bump_id s) = next_blk s" "rands (bump_id s) = rands s"
  "ev (bump_id s) = ev s" "trace (bump_id s) = trace s" "fresh_ok (bump_id s) = fresh_ok s"
  "sk (bump_id s) = (sk s)\<lparr>s_next_message_id := (if 9999999 < next_id s then 0 else next_id s)\<rparr>"
  "next_id (set_heap B n s) = next_id s" "next_id (skip_rands s) = next_id s"
  "bump_id (set_heap B n s) = set_heap B n (bump_id s)" "bump_id (skip_rands s) = skip_rands (bump_id s)"
  "made_frame op (bump_id s) = made_frame op s" "ready_bytes op msg (bump_id s) = ready_bytes op msg s"
  by (simp_all add: bump_id_def next_id_def skip_rands_def set_heap_def made_frame_def ready_bytes_def)

lemma bump_id_session: "session s E bs D ns Fs xs ms Gs ys \<Longrightarrow> session (bump_id s) E bs D ns Fs xs ms Gs ys"
  by (rule session_cong) (simp_all add: session_def)

abbreviation id_text :: "sys \<Rightarrow> u8 list" where
  "id_text s \<equiv> utoa (unat (next_id s))"

subsection \<open>Queueing frames\<close>

lemma with_frame_park: "with_frame op msg (park r s) = park r (with_frame op msg s)"
  by (simp add: with_frame_def ready_frame_def ready_bytes_def made_frame_def park_def set_heap_def skip_rands_def)

lemma ready_park: "ready_frame op msg (park r s) = ready_frame op msg s" "ready_bytes op msg (park r s) = ready_bytes op msg s"
  by (simp_all add: ready_frame_def ready_bytes_def made_frame_def)

lemma parked_frame_run:
  assumes ses: "session (park r s) E bs D ns Fs xs ms Gs ys" and op: "unat op < 16"
    and ld: "p = NULL \<and> msg = [] \<or> load_bytes p (length msg) s = Some msg" and size: "length msg < 2 ^ 32"
  obtains s1 s2 b F q where "rws_frame_fill_with_send_data (Ptr (next_blk s) 0) p (length msg)
      (set_heap ((blocks s)(next_blk s \<mapsto> OFrame (made_frame op s))) (Suc (next_blk s)) (skip_rands s)) = Some s1"
    and "rws_socket_append_send_frames (Ptr (next_blk s) 0) s1 = Some s2"
    and "session (park r s2) E bs D ns Fs xs (ms @ [b]) (Gs @ [F]) (ys @ [(op, ready_bytes op msg s)])"
    and "sk s2 = (sk s)\<lparr>s_send_frames := q\<rparr>" "ev s2 = ev s" "trace s2 = trace s"
    and "evolves (foot E D ns Fs ms Gs) s (foot E D ns Fs (ms @ [b]) (Gs @ [F])) s2"
proof -
  have fresh: "fresh_ok s" using ses by (simp add: session_def)
  note w = with_frame_session [OF ses size, of op, unfolded with_frame_park ready_park park_simps]
  have w2: "beside (with_frame op msg s) (foot E D ns Fs ms Gs) (Ptr (next_blk s) 0) (ready_frame op msg s) [next_blk s, Suc (next_blk s)]"
    using w(2) by (simp add: beside_def)
  obtain s' q where s': "rws_socket_append_send_frames (Ptr (next_blk s) 0) (with_frame op msg s) = Some s'"
      "session (park r s') E bs D ns Fs xs (ms @ [(next_blk (with_frame op msg s), Ptr (next_blk s) 0)])
        (Gs @ [(ready_frame op msg s, [next_blk s, Suc (next_blk s)])]) (ys @ [(op, ready_bytes op msg s)])"
      "sk s' = (sk (with_frame op msg s))\<lparr>s_send_frames := q\<rparr>"
      "ev s' = ev (with_frame op msg s)" "trace s' = trace (with_frame op msg s)"
      "evolves (foot E D ns Fs ms Gs \<union> set [next_blk s, Suc (next_blk s)]) (with_frame op msg s)
        (foot E D ns Fs (ms @ [(next_blk (with_frame op msg s), Ptr (next_blk s) 0)])
          (Gs @ [(ready_frame op msg s, [next_blk s, Suc (next_blk s)])])) s'"
    by (rule parked_append_send [OF w(1) w2 w(3)])
  have ev: "evolves (foot E D ns Fs ms Gs) s (foot E D ns Fs (ms @ [(next_blk (with_frame op msg s), Ptr (next_blk s) 0)])
      (Gs @ [(ready_frame op msg s, [next_blk s, Suc (next_blk s)])])) s'"
    by (rule evolves_trans [OF with_frame_evolves]) (use s'(6) in simp)
  show thesis
    by (rule that [OF make_frame_run [OF fresh op ld size] s'(1,2) _ _ _ ev]) (use s'(3-5) in simp_all)
qed

lemma queue_frame_run:
  assumes ses: "session s E bs D ns Fs xs ms Gs ys" and op: "unat op < 16"
    and ld: "p = NULL \<and> msg = [] \<or> load_bytes p (length msg) s = Some msg" and size: "length msg < 2 ^ 32"
  obtains s1 s2 b F q where "rws_frame_fill_with_send_data (Ptr (next_blk s) 0) p (length msg)
      (set_heap ((blocks s)(next_blk s \<mapsto> OFrame (made_frame op s))) (Suc (next_blk s)) (skip_rands s)) = Some s1"
    and "rws_socket_append_send_frames (Ptr (next_blk s) 0) s1 = Some s2"
    and "session s2 E bs D ns Fs xs (ms @ [b]) (Gs @ [F]) (ys @ [(op, ready_bytes op msg s)])"
    and "sk s2 = (sk s)\<lparr>s_send_frames := q\<rparr>" "ev s2 = ev s" "trace s2 = trace s"
    and "evolves (foot E D ns Fs ms Gs) s (foot E D ns Fs (ms @ [b]) (Gs @ [F])) s2"
proof -
  have "session (park (s_recvd_frames (sk s)) s) E bs D ns Fs xs ms Gs ys" using ses by (simp add: park_self)
  then show thesis by (rule parked_frame_run [OF _ op ld size]) (rule that; simp add: park_self)
qed

lemma send_ping_run:
  assumes ses: "session s E bs D ns Fs xs ms Gs ys"
  obtains s' b F p where "rws_socket_send_ping s = Some s'"
    and "session s' E bs D ns Fs xs (ms @ [b]) (Gs @ [F])
      (ys @ [(rws_opcode_ping, ready_bytes rws_opcode_ping (id_text s) s)])"
    and "sk s' = (sk (bump_id s))\<lparr>s_send_frames := p\<rparr>" "ev s' = ev s" "trace s' = trace s"
    and "evolves (foot E D ns Fs ms Gs) s (foot E D ns Fs (ms @ [b]) (Gs @ [F])) s'"
proof -
  have len: "length (id_text s) < 2 ^ 32" using sprint_id_run(2) [of "next_id s"] by simp
  obtain s1 s' b F p where run: "rws_frame_fill_with_send_data (Ptr (next_blk (bump_id s)) 0) (Lit (id_text s) 0) (length (id_text s))
      (set_heap ((blocks (bump_id s))(next_blk (bump_id s) \<mapsto> OFrame (made_frame rws_opcode_ping (bump_id s))))
        (Suc (next_blk (bump_id s))) (skip_rands (bump_id s))) = Some s1"
      "rws_socket_append_send_frames (Ptr (next_blk (bump_id s)) 0) s1 = Some s'"
    and s': "session s' E bs D ns Fs xs (ms @ [b]) (Gs @ [F])
        (ys @ [(rws_opcode_ping, ready_bytes rws_opcode_ping (id_text s) (bump_id s))])"
      "sk s' = (sk (bump_id s))\<lparr>s_send_frames := p\<rparr>" "ev s' = ev (bump_id s)" "trace s' = trace (bump_id s)" "evolves (foot E D ns Fs ms Gs) (bump_id s) (foot E D ns Fs (ms @ [b]) (Gs @ [F])) s'"
    by (rule queue_frame_run [OF bump_id_session [OF ses], of rws_opcode_ping "Lit (id_text s) 0" "id_text s"])
      (use len in simp_all)
  have ses': "session s' E bs D ns Fs xs (ms @ [b]) (Gs @ [F])
      (ys @ [(rws_opcode_ping, ready_bytes rws_opcode_ping (id_text s) s)])"
    using s'(1) by simp
  have "rws_socket_send_ping s = Some s'"
    using run by (simp add: rws_socket_send_ping_def next_message_id_run sprint_id_run run_simps made_frame_updates)
  moreover have "evolves (foot E D ns Fs ms Gs) s (foot E D ns Fs (ms @ [b]) (Gs @ [F])) s'"
    using s'(5) by (simp add: evolves_def)
  ultimately show thesis using ses' by (intro that) (use s'(2-4) in simp_all)
qed

lemma parked_text_run:
  assumes ses: "session (park r s) E bs D ns Fs xs ms Gs ys" and str: "c_string t msg s" and size: "msg \<noteq> []" "length msg < 2 ^ 32"
  obtains s' b F p where "rws_socket_send_text_priv t s = Some (True, s')"
    and "session (park r s') E bs D ns Fs xs (ms @ [b]) (Gs @ [F])
      (ys @ [(rws_opcode_text_frame, ready_bytes rws_opcode_text_frame msg s)])"
    and "sk s' = (sk s)\<lparr>s_send_frames := p\<rparr>" "ev s' = ev s" "trace s' = trace s" "evolves (foot E D ns Fs ms Gs) s (foot E D ns Fs (ms @ [b]) (Gs @ [F])) s'"
proof -
  have ld: "load_bytes t (length msg) s = Some msg"
    using str load_bytes_prefix [of t "Suc (length msg)" s "msg @ [0]" "length msg"] by (simp add: c_string_def)
  obtain s1 s' b F p where run: "rws_frame_fill_with_send_data (Ptr (next_blk s) 0) t (length msg)
      (set_heap ((blocks s)(next_blk s \<mapsto> OFrame (made_frame rws_opcode_text_frame s))) (Suc (next_blk s)) (skip_rands s)) = Some s1"
      "rws_socket_append_send_frames (Ptr (next_blk s) 0) s1 = Some s'"
    and s': "session (park r s') E bs D ns Fs xs (ms @ [b]) (Gs @ [F])
        (ys @ [(rws_opcode_text_frame, ready_bytes rws_opcode_text_frame msg s)])"
      "sk s' = (sk s)\<lparr>s_send_frames := p\<rparr>" "ev s' = ev s" "trace s' = trace s" "evolves (foot E D ns Fs ms Gs) s (foot E D ns Fs (ms @ [b]) (Gs @ [F])) s'"
    by (rule parked_frame_run [OF ses, of rws_opcode_text_frame t msg]) (use ld size in simp_all)
  have "rws_socket_send_text_priv t s = Some (True, s')"
    using run c_string_not_NULL [OF str] strlen_c_string [OF str] size(1)
    by (simp add: rws_socket_send_text_priv_def run_simps made_frame_updates)
  from this s' show thesis by (rule that)
qed

lemma send_text_run:
  assumes ses: "session s E bs D ns Fs xs ms Gs ys" and str: "c_string t msg s" and size: "msg \<noteq> []" "length msg < 2 ^ 32"
  obtains s' b F p where "rws_socket_send_text_priv t s = Some (True, s')"
    and "session s' E bs D ns Fs xs (ms @ [b]) (Gs @ [F])
      (ys @ [(rws_opcode_text_frame, ready_bytes rws_opcode_text_frame msg s)])"
    and "sk s' = (sk s)\<lparr>s_send_frames := p\<rparr>" "ev s' = ev s" "trace s' = trace s" "evolves (foot E D ns Fs ms Gs) s (foot E D ns Fs (ms @ [b]) (Gs @ [F])) s'"
proof -
  have "session (park (s_recvd_frames (sk s)) s) E bs D ns Fs xs ms Gs ys" using ses by (simp add: park_self)
  then show thesis by (rule parked_text_run [OF _ str size]) (rule that; simp add: park_self)
qed

section \<open>A received frame\<close>

text \<open>
  \<open>regular u\<close>: the bytes \<open>u\<close> are one frame whose announced payload fits them, and if it is a
  data frame with a payload it is final.  \<open>message_of\<close> is what a regular frame adds to the messages waiting for
  delivery.
\<close>

definition opcode_of :: "u8 list \<Rightarrow> nat" where
  "opcode_of u = unat (u ! 0) mod 16"

definition regular :: "u8 list \<Rightarrow> bool" where
  "regular u \<longleftrightarrow> 2 \<le> length u \<and> hdr_len u + low_len u \<le> length u \<and>
     (opcode_of u \<in> {0, 1, 2} \<longrightarrow> payload_at u \<noteq> [] \<longrightarrow> 128 \<le> unat (u ! 0))"

definition message_of :: "u8 list \<Rightarrow> (rws_opcode \<times> u8 list) list" where
  "message_of u = (if opcode_of u \<in> {0, 1, 2} \<and> payload_at u \<noteq> [] then [(of_nat (opcode_of u), payload_at u)] else [])"

lemma length_payload_at: "hdr_len u + low_len u \<le> length u \<Longrightarrow> length (payload_at u) = low_len u"
  by (simp add: payload_at_def Let_def)

lemma opcode_word: "(ucast ((b :: u8) AND 0x0f) :: rws_opcode) = of_nat (unat b mod 16)"
  by (simp add: word_unat_eq_iff unat_of_nat)

text \<open>The frame object built from a regular frame.\<close>

lemma recv_frame_session:
  assumes ses: "session s E bs D ns Fs xs ms Gs ys" and bs: "bs = u @ rest"
    and u: "2 \<le> length u" "hdr_len u + low_len u \<le> length u"
  obtains s' f Df where "rws_frame_create_with_recv_data (s_received (sk s)) (length u) s = Some (Ptr (next_blk s) 0, s')"
    and "session s' E bs D ns Fs xs ms Gs ys" and "beside s' (foot E D ns Fs ms Gs) (Ptr (next_blk s) 0) f Df"
    and "sk s' = sk s" "ev s' = ev s" "trace s' = trace s" "evolves (foot E D ns Fs ms Gs) s (foot E D ns Fs ms Gs \<union> set Df) s'"
    and "f_opcode f = of_nat (opcode_of u)" "f_is_finished f = (128 \<le> unat (u ! 0))"
    and "f_data f = NULL \<and> f_data_size f = 0 \<and> (opcode_of u \<in> {8, 10} \<or> payload_at u = []) \<or>
      opcode_of u \<notin> {8, 10} \<and> payload_at u \<noteq> [] \<and> f_data_size f = length (payload_at u) \<and>
      (\<exists>d \<in> set Df. f_data f = Ptr d 0 \<and> blocks s' d = Some (OBytes (map Some (payload_at u))))"
proof -
  have fresh: "fresh_ok s" and buf: "buffer_at (blocks s) (sk s) bs D" using ses by (auto simp: session_def)
  have n: "2 \<le> length u" "hdr_len u + low_len u \<le> length u" "hdr_len u \<le> length u" using u by auto
  have "bs \<noteq> []" using n(1) bs by auto
  then have ld: "load_bytes (s_received (sk s)) (length u) s = Some u"
    using load_bytes_prefix [OF buffer_at_load [OF buf], of "length u"] bs by simp
  have len: "length (payload_at u) = low_len u" using n(2) by (rule length_payload_at)
  have old: "b < next_blk s" if "b \<in> foot E D ns Fs ms Gs" for b using session_live(2) [OF ses that] .
  have fields: "f_opcode (recv_frame u s) = of_nat (opcode_of u)" "f_is_finished (recv_frame u s) = (128 \<le> unat (u ! 0))"
      "f_data (recv_frame u s) = NULL" "f_data_size (recv_frame u s) = 0"
    by (simp_all add: recv_frame_def opcode_of_def opcode_word)
  show thesis
  proof (cases "carries_data u")
    case False
    let ?s = "after_header u s"
    have keep: "evolves (foot E D ns Fs ms Gs) s (foot E D ns Fs ms Gs \<union> set [next_blk s]) ?s"
      by (rule evolvesI) (simp_all add: after_header_def)
    have "rws_frame_create_with_recv_data (s_received (sk s)) (length u) s = Some (Ptr (next_blk s) 0, ?s)"
      using recv_create_header_only [OF fresh ld n(1,3) False] .
    moreover have "session ?s E bs D ns Fs xs ms Gs ys"
      by (rule session_cong [OF ses]) (use old fresh in \<open>force simp: after_header_def fresh_ok_def less_Suc_eq\<close>)+
    moreover have "beside ?s (foot E D ns Fs ms Gs) (Ptr (next_blk s) 0) (recv_frame u s) [next_blk s]"
      using old fields(3) by (force simp: beside_def frame_at_def after_header_def)
    ultimately show thesis
      by (rule that [OF _ _ _ _ _ _ keep]) (use False fields len in \<open>auto simp: after_header_def opcode_of_def\<close>)
  next
    case True
    let ?f = "recv_frame u s\<lparr>f_data := Ptr (Suc (next_blk s)) 0, f_data_size := low_len u\<rparr>"
    let ?s = "set_heap ((blocks s)(next_blk s \<mapsto> OFrame ?f, Suc (next_blk s) \<mapsto> OBytes (map Some (payload_at u))))
        (Suc (Suc (next_blk s))) (skip_rands s)"
    have keep: "evolves (foot E D ns Fs ms Gs) s (foot E D ns Fs ms Gs \<union> set [next_blk s, Suc (next_blk s)]) ?s"
      by (rule evolvesI) simp_all
    have "rws_frame_create_with_recv_data (s_received (sk s)) (length u) s = Some (Ptr (next_blk s) 0, ?s)"
      using recv_create_data [OF fresh ld n(1,2) True] .
    moreover have "session ?s E bs D ns Fs xs ms Gs ys"
      by (rule session_cong [OF ses]) (use old fresh in \<open>force simp: fresh_ok_def less_Suc_eq\<close>)+
    moreover have "beside ?s (foot E D ns Fs ms Gs) (Ptr (next_blk s) 0) ?f [next_blk s, Suc (next_blk s)]"
      using old by (force simp: beside_def frame_at_def)
    ultimately show thesis
      by (rule that [OF _ _ _ _ _ _ keep]) (use True fields len in \<open>auto simp: opcode_of_def\<close>)
  qed
qed

text \<open>When every frame in the queue is finished, the search for an unfinished one finds none.\<close>

lemma last_unfin_none:
  "nodes_at (blocks m) p ns \<Longrightarrow>
   list_all2 (\<lambda>n F. frame_at (snd n) (fst F) (snd F) (blocks m)) ns Fs \<Longrightarrow>
   list_all (\<lambda>F. f_is_finished (fst F)) Fs \<Longrightarrow> last_unfin_loop p r m = Some r"
proof (induction ns arbitrary: p Fs)
  case Nil
  then show ?case by (subst last_unfin_loop.simps) simp
next
  case (Cons n ns)
  obtain b v where n: "n = (b, v)" by (cases n)
  from Cons.prems(2) n obtain F Fs' where Fs: "Fs = F # Fs'" and fr: "frame_at v (fst F) (snd F) (blocks m)"
    and rest: "list_all2 (\<lambda>n F. frame_at (snd n) (fst F) (snd F) (blocks m)) ns Fs'"
    by (cases Fs) auto
  from Cons.prems(1) n obtain x where x: "p = Ptr b 0" "blocks m b = Some (ONode x)" "n_value x = v"
      "nodes_at (blocks m) (n_next x) ns" by auto
  from frame_at_Ptr [OF fr] obtain c where v: "v = Ptr c 0" "blocks m c = Some (OFrame (fst F))" by auto
  have "last_unfin_loop (n_next x) r m = Some r"
    using Cons.IH [OF x(4) rest] Cons.prems(3) Fs by simp
  then show ?case
    using x v Cons.prems(3) Fs by (subst last_unfin_loop.simps) (simp add: run_simps)
qed

lemma last_unfin_session:
  assumes "session s E bs D ns Fs xs ms Gs ys"
  shows "rws_socket_last_unfin_recvd_frame_by_opcode op s = Some NULL"
proof -
  have "list_all2 (carries (blocks s)) Fs xs" using assms by (simp add: session_def queue_holds_def)
  then have "list_all (\<lambda>F. f_is_finished (fst F)) Fs"
    by (auto simp: list_all2_conv_all_nth list_all_length carries_def)
  with assms show ?thesis
    unfolding rws_socket_last_unfin_recvd_frame_by_opcode_def
    by (intro last_unfin_none) (auto simp: session_def queue_holds_def queue_at_def)
qed

text \<open>What processing a frame does to a session, case by case.\<close>

lemma process_data_frame:
  assumes ses: "session s E bs D ns Fs xs ms Gs ys" and fr: "beside s (foot E D ns Fs ms Gs) q f Df"
    and op: "f_opcode f \<in> {0, 1, 2}" and fin: "msg \<noteq> [] \<Longrightarrow> f_is_finished f"
    and data: "f_data f = NULL \<and> f_data_size f = 0 \<and> msg = [] \<or>
      msg \<noteq> [] \<and> f_data_size f = length msg \<and>
      (\<exists>d \<in> set Df. f_data f = Ptr d 0 \<and> blocks s d = Some (OBytes (map Some msg)))"
  obtains s' ns' Fs' p where "rws_socket_process_received_frame q s = Some s'"
    and "session s' E bs D ns' Fs' (xs @ (if msg = [] then [] else [(f_opcode f, msg)])) ms Gs ys"
    and "sk s' = (sk s)\<lparr>s_recvd_frames := p\<rparr>" "ev s' = ev s" "trace s' = trace s"
    and "evolves (foot E D ns Fs ms Gs \<union> set Df) s (foot E D ns' Fs' ms Gs) s'"
proof -
  have get: "get_frame q s = Some f" using fr by (auto simp: beside_def run_simps dest!: frame_at_Ptr)
  have run: "rws_socket_process_received_frame q s =
      (if f_data f \<noteq> NULL \<and> f_data_size f \<noteq> 0 then rws_socket_append_recvd_frames q s else rws_frame_delete q s)"
    using op get last_unfin_session [OF ses]
    by (auto simp: rws_socket_process_received_frame_def rws_socket_process_bin_or_text_frame_def)
  show thesis
  proof (cases "msg = []")
    case True
    obtain s' where s': "rws_frame_delete q s = Some s'" "session s' E bs D ns Fs xs ms Gs ys"
      "sk s' = sk s" "ev s' = ev s" "trace s' = trace s" "next_blk s' = next_blk s"
        "blocks s' = (\<lambda>b. if b \<in> set Df then None else blocks s b)"
        "evolves (foot E D ns Fs ms Gs \<union> set Df) s (foot E D ns Fs ms Gs) s'"
      by (rule session_delete_frame [OF ses fr])
    with run True data show thesis
      by (intro that [of s' ns Fs "s_recvd_frames (sk s)"]) auto
  next
    case False
    then have "carries (blocks s) (f, Df) (f_opcode f, msg)" using data fin by (auto simp: carries_def)
    then obtain s' p where s': "rws_socket_append_recvd_frames q s = Some s'"
        "session s' E bs D (ns @ [(next_blk s, q)]) (Fs @ [(f, Df)]) (xs @ [(f_opcode f, msg)]) ms Gs ys"
        "sk s' = (sk s)\<lparr>s_recvd_frames := p\<rparr>" "ev s' = ev s" "trace s' = trace s"
        "evolves (foot E D ns Fs ms Gs \<union> set Df) s (foot E D (ns @ [(next_blk s, q)]) (Fs @ [(f, Df)]) ms Gs) s'"
      by (rule session_append_recvd [OF ses fr])
    with run False data show thesis
      by (intro that [of s' "ns @ [(next_blk s, q)]" "Fs @ [(f, Df)]" p]) auto
  qed
qed

lemma process_ping:
  assumes ses: "session s E bs D ns Fs xs ms Gs ys" and fr: "beside s (foot E D ns Fs ms Gs) q f Df"
    and op: "f_opcode f = rws_opcode_ping" and size: "length msg < 2 ^ 32"
    and data: "f_data f = NULL \<and> f_data_size f = 0 \<and> msg = [] \<or>
      msg \<noteq> [] \<and> f_data_size f = length msg \<and>
      (\<exists>d \<in> set Df. f_data f = Ptr d 0 \<and> blocks s d = Some (OBytes (map Some msg)))"
  obtains s' b F p where "rws_socket_process_received_frame q s = Some s'"
    and "session s' E bs D ns Fs xs (ms @ [b]) (Gs @ [F]) (ys @ [(rws_opcode_pong, ready_bytes rws_opcode_pong msg s)])"
    and "sk s' = (sk s)\<lparr>s_send_frames := p\<rparr>" "ev s' = ev s" "trace s' = trace s"
    and "evolves (foot E D ns Fs ms Gs \<union> set Df) s (foot E D ns Fs (ms @ [b]) (Gs @ [F])) s'"
proof -
  have fresh: "fresh_ok s" using ses by (simp add: session_def)
  have at: "frame_at q f Df (blocks s)" using fr by (simp add: beside_def)
  then obtain c C where c: "q = Ptr c 0" "Df = c # C" "blocks s c = Some (OFrame f)" using frame_at_Ptr by blast
  have old: "b < next_blk s" if "b \<in> set Df" for b
    using frame_at_live [OF at that] fresh by (auto simp: fresh_ok_def)
  then have cn: "c \<noteq> next_blk s" "next_blk s \<noteq> c" using c by auto
  have ld: "f_data f = NULL \<and> msg = [] \<or> load_bytes (f_data f) (length msg) s = Some msg" "f_data_size f = length msg"
    using data by (auto simp: run_simps)
  let ?w = "with_frame rws_opcode_pong msg s"
  have fill: "rws_frame_fill_with_send_data (Ptr (next_blk s) 0) (f_data f) (length msg)
      (set_heap ((blocks s)(next_blk s \<mapsto> OFrame (made_frame rws_opcode_pong s))) (Suc (next_blk s)) (skip_rands s)) = Some ?w"
    by (rule make_frame_run [OF fresh _ ld(1) size]) simp
  note w = with_frame_session [OF ses size, of rws_opcode_pong]
  have keep: "blocks ?w b = blocks s b" if "b \<in> set Df" for b
    using old [OF that] by (simp add: with_frame_def)
  then have "beside ?w (foot E D ns Fs ms Gs) q f Df"
    using fr frame_at_cong [of Df "blocks ?w" "blocks s"] by (simp add: beside_def)
  then obtain s2 where s2: "rws_frame_delete q ?w = Some s2" "session s2 E bs D ns Fs xs ms Gs ys"
      "sk s2 = sk ?w" "ev s2 = ev ?w" "trace s2 = trace ?w" "next_blk s2 = next_blk ?w"
      "blocks s2 = (\<lambda>b. if b \<in> set Df then None else blocks ?w b)"
      "evolves (foot E D ns Fs ms Gs \<union> set Df) ?w (foot E D ns Fs ms Gs) s2"
    by (rule session_delete_frame [OF w(1)])
  let ?F = "ready_frame rws_opcode_pong msg s" and ?N = "[next_blk s, Suc (next_blk s)]"
  have apart: "blocks s2 b = blocks ?w b" if "b \<in> set ?N" for b
    using old [of b] that by (auto simp: s2(7))
  then have "beside s2 (foot E D ns Fs ms Gs) (Ptr (next_blk s) 0) ?F ?N"
    using w(2) frame_at_cong [of ?N "blocks s2" "blocks ?w"] by (simp add: beside_def)
  moreover have "carries (blocks s2) (?F, ?N) (rws_opcode_pong, ready_bytes rws_opcode_pong msg s)"
    using apart by (intro carries_cong [OF _ w(3)]) auto
  ultimately obtain s' p where s': "rws_socket_append_send_frames (Ptr (next_blk s) 0) s2 = Some s'"
      "session s' E bs D ns Fs xs (ms @ [(next_blk s2, Ptr (next_blk s) 0)]) (Gs @ [(?F, ?N)])
        (ys @ [(rws_opcode_pong, ready_bytes rws_opcode_pong msg s)])"
      "sk s' = (sk s2)\<lparr>s_send_frames := p\<rparr>" "ev s' = ev s2" "trace s' = trace s2"
      "evolves (foot E D ns Fs ms Gs \<union> set ?N) s2
        (foot E D ns Fs (ms @ [(next_blk s2, Ptr (next_blk s) 0)]) (Gs @ [(?F, ?N)])) s'"
    by (rule session_append_send [OF s2(2)])
  have "rws_socket_process_received_frame q s = Some s'"
    using fill s2(1) s'(1) c(1,3) cn op ld(2)
    by (simp add: rws_socket_process_received_frame_def rws_socket_process_ping_frame_def run_simps made_frame_updates)
  moreover have "evolves (foot E D ns Fs ms Gs \<union> set Df) s (foot E D ns Fs ms Gs \<union> set ?N) s2"
    using old s2(6) by (intro evolvesI) (auto simp: s2(7) with_frame_def)
  from this s'(6) have "evolves (foot E D ns Fs ms Gs \<union> set Df) s
      (foot E D ns Fs (ms @ [(next_blk s2, Ptr (next_blk s) 0)]) (Gs @ [(?F, ?N)])) s'" by (rule evolves_trans)
  ultimately show thesis using s'(2)
    by (intro that [of s' "(next_blk s2, Ptr (next_blk s) 0)" "(?F, ?N)" p]) (use s'(3-5) s2(3-5) in simp_all)
qed

lemma error_session:
  assumes ses: "session s [] bs D ns Fs xs ms Gs ys" and descr: "c_string descr d s"
  obtains B n E where "set_error code descr s = Some (set_heap B n (s\<lparr>sk := (sk s)\<lparr>s_error := Ptr (next_blk s) 0\<rparr>\<rparr>))"
    and "session (set_heap B n (s\<lparr>sk := (sk s)\<lparr>s_error := Ptr (next_blk s) 0\<rparr>\<rparr>)) E bs D ns Fs xs ms Gs ys"
    and "error_at (Ptr (next_blk s) 0) code E (set_heap B n (s\<lparr>sk := (sk s)\<lparr>s_error := Ptr (next_blk s) 0\<rparr>\<rparr>))"
    and "\<And>b. b \<in> set E \<Longrightarrow> next_blk s \<le> b" and "\<And>b. b \<notin> set E \<Longrightarrow> B b = blocks s b"
    and "next_blk s < n"
proof -
  have fresh: "fresh_ok s" using ses by (simp add: session_def)
  obtain B n E where e: "set_error code descr s = Some (set_heap B n (s\<lparr>sk := (sk s)\<lparr>s_error := Ptr (next_blk s) 0\<rparr>\<rparr>))"
      "error_at (Ptr (next_blk s) 0) code E (set_heap B n (s\<lparr>sk := (sk s)\<lparr>s_error := Ptr (next_blk s) 0\<rparr>\<rparr>))"
      "fresh_ok (set_heap B n (s\<lparr>sk := (sk s)\<lparr>s_error := Ptr (next_blk s) 0\<rparr>\<rparr>))"
      "next_blk s < n" "\<And>b. b \<in> set E \<Longrightarrow> next_blk s \<le> b" "\<And>b. b \<notin> set E \<Longrightarrow> B b = blocks s b"
    by (rule set_error_run [OF fresh descr]) blast
  let ?s = "set_heap B n (s\<lparr>sk := (sk s)\<lparr>s_error := Ptr (next_blk s) 0\<rparr>\<rparr>)"
  have own: "err_own ?s E" using e(2) by (auto simp: err_own_def)
  have out: "b \<notin> set E" if "b \<in> foot [] D ns Fs ms Gs" for b
    using session_live(2) [OF ses that] e(5) by fastforce
  then have "B b = blocks s b" if "b \<in> foot [] D ns Fs ms Gs" for b using e(6) that by blast
  then have "session ?s E bs D ns Fs xs ms Gs ys"
    using ses own out e(3) err_own_distinct [OF own] buffer_at_cong [of "sk s" "sk s" D B "blocks s" bs]
      queue_holds_cong [of ns Fs B "blocks s"] queue_holds_cong [of ms Gs B "blocks s"]
    by (auto simp: session_def)
  with e show thesis by (intro that)
qed

lemma process_close:
  assumes ses: "session s [] bs D ns Fs xs ms Gs ys" and fr: "beside s (foot [] D ns Fs ms Gs) q f Df"
    and op: "f_opcode f = rws_opcode_connection_close" 
  obtains s' E e where "rws_socket_process_received_frame q s = Some s'"
    and "session s' E bs D ns Fs xs ms Gs ys"
    and "sk s' = (sk s)\<lparr>s_command := COMMAND_INFORM_DISCONNECTED, s_error := e\<rparr>"
    and "error_at e rws_error_code_connection_closed E s'" and "ev s' = ev s" "trace s' = trace s"
    and "evolves (foot [] D ns Fs ms Gs \<union> set Df) s (foot E D ns Fs ms Gs) s'"
proof -
  have get: "get_frame q s = Some f" using fr by (auto simp: beside_def run_simps dest!: frame_at_Ptr)
  let ?c = "s\<lparr>sk := (sk s)\<lparr>s_command := COMMAND_INFORM_DISCONNECTED\<rparr>\<rparr>"
  have ses': "session ?c [] bs D ns Fs xs ms Gs ys" by (rule session_cong [OF ses]) (use ses in \<open>simp_all add: session_def\<close>)
  have descr: "c_string (lit ''Connection was closed by endpoint'') (cstr ''Connection was closed by endpoint'') ?c"
    by (rule c_string_lit) simp
  obtain B n E where e: "set_error rws_error_code_connection_closed (lit ''Connection was closed by endpoint'') ?c =
        Some (set_heap B n (?c\<lparr>sk := (sk ?c)\<lparr>s_error := Ptr (next_blk ?c) 0\<rparr>\<rparr>))"
      "session (set_heap B n (?c\<lparr>sk := (sk ?c)\<lparr>s_error := Ptr (next_blk ?c) 0\<rparr>\<rparr>)) E bs D ns Fs xs ms Gs ys"
      "error_at (Ptr (next_blk ?c) 0) rws_error_code_connection_closed E (set_heap B n (?c\<lparr>sk := (sk ?c)\<lparr>s_error := Ptr (next_blk ?c) 0\<rparr>\<rparr>))"
      "\<And>b. b \<in> set E \<Longrightarrow> next_blk ?c \<le> b" "\<And>b. b \<notin> set E \<Longrightarrow> B b = blocks ?c b" "next_blk ?c < n"
    by (rule error_session [OF ses' descr, of rws_error_code_connection_closed]) blast
  let ?e = "set_heap B n (?c\<lparr>sk := (sk ?c)\<lparr>s_error := Ptr (next_blk ?c) 0\<rparr>\<rparr>)"
  have "b < next_blk s" if "b \<in> set Df" for b
    using that fr frame_at_live [of q f Df "blocks s" b] ses by (auto simp: beside_def session_def fresh_ok_def)
  then have out: "set E \<inter> set Df = {}" using e(4) by fastforce
  then have "B b = blocks s b" if "b \<in> set Df" for b using e(5) [of b] that by auto
  then have "frame_at q f Df B = frame_at q f Df (blocks s)" by (rule frame_at_cong)
  then have "beside ?e (foot E D ns Fs ms Gs) q f Df" using fr out by (auto simp: beside_def)
  then obtain s' where s': "rws_frame_delete q ?e = Some s'" "session s' E bs D ns Fs xs ms Gs ys"
      "sk s' = sk ?e" "ev s' = ev ?e" "trace s' = trace ?e" "next_blk s' = next_blk ?e" "blocks s' = (\<lambda>b. if b \<in> set Df then None else blocks ?e b)"
      "evolves (foot E D ns Fs ms Gs \<union> set Df) ?e (foot E D ns Fs ms Gs) s'"
    by (rule session_delete_frame [OF e(2)])
  have "error_at (Ptr (next_blk ?c) 0) rws_error_code_connection_closed E s'"
    using out by (intro error_at_cong [OF _ e(3)]) (auto simp: s'(7))
  moreover have "rws_socket_process_received_frame q s = Some s'"
    using get op e(1) s'(1)
    by (simp add: rws_socket_process_received_frame_def rws_socket_process_conn_close_frame_def)
  moreover have "evolves (foot [] D ns Fs ms Gs \<union> set Df) s (foot E D ns Fs ms Gs \<union> set Df) ?e"
  proof (rule evolvesI)
    show "next_blk s \<le> next_blk ?e" using e(6) by simp
    fix k assume "k < next_blk s" "k \<notin> foot [] D ns Fs ms Gs \<union> set Df"
    moreover from this have "k \<notin> set E" using e(4) [of k] by auto
    ultimately show "k \<notin> foot E D ns Fs ms Gs \<union> set Df \<and> blocks ?e k = blocks s k" using e(5) [of k] by simp
  qed
  then have "evolves (foot [] D ns Fs ms Gs \<union> set Df) s (foot E D ns Fs ms Gs) s'" using s'(8) by (rule evolves_trans)
  ultimately show thesis using s' by (intro that [of s' E "Ptr (next_blk ?c) 0"]) simp_all
qed

lemma process_other:
  assumes ses: "session s E bs D ns Fs xs ms Gs ys" and fr: "beside s (foot E D ns Fs ms Gs) q f Df"
    and op: "f_opcode f \<notin> {0, 1, 2, 8, 9}"
  obtains s' where "rws_socket_process_received_frame q s = Some s'" and "session s' E bs D ns Fs xs ms Gs ys"
    and "sk s' = sk s" "ev s' = ev s" "trace s' = trace s"
    and "evolves (foot E D ns Fs ms Gs \<union> set Df) s (foot E D ns Fs ms Gs) s'"
proof -
  have get: "get_frame q s = Some f" using fr by (auto simp: beside_def run_simps dest!: frame_at_Ptr)
  then have run: "rws_socket_process_received_frame q s = rws_frame_delete q s"
    using op by (simp add: rws_socket_process_received_frame_def)
  obtain s' where s': "rws_frame_delete q s = Some s'" "session s' E bs D ns Fs xs ms Gs ys"
      "sk s' = sk s" "ev s' = ev s" "trace s' = trace s" "next_blk s' = next_blk s"
      "blocks s' = (\<lambda>b. if b \<in> set Df then None else blocks s b)"
      "evolves (foot E D ns Fs ms Gs \<union> set Df) s (foot E D ns Fs ms Gs) s'"
    by (rule session_delete_frame [OF ses fr])
  show thesis by (rule that [OF s'(1) [folded run] s'(2-5,8)])
qed

section \<open>One round of the receiver\<close>

lemma consume_session:
  assumes ses: "session s E bs D ns Fs xs ms Gs ys" and t: "0 < t" "t \<le> length bs"
  obtains s' where "consume_received t s = Some s'" and "session s' E (drop t bs) D ns Fs xs ms Gs ys"
    and "sk s' = (sk s)\<lparr>s_received_len := length bs - t\<rparr>" "ev s' = ev s" "trace s' = trace s"
    and "\<And>b. b \<notin> set D \<Longrightarrow> blocks s' b = blocks s b" and "evolves (foot E D ns Fs ms Gs) s (foot E D ns Fs ms Gs) s'"
proof -
  have fresh: "fresh_ok s" and buf: "buffer_at (blocks s) (sk s) bs D" using ses by (auto simp: session_def)
  have len: "s_received_len (sk s) = length bs" using buf by (rule buffer_at_len)
  have "bs \<noteq> []" using t by auto
  with buf obtain b cs where b: "s_received (sk s) = Ptr b 0" "D = [b]" "blocks s b = Some (OBytes cs)"
      "length cs = s_received_size (sk s)" "length bs \<le> length cs" "take (length bs) cs = map Some bs"
    by (auto elim: buffer_at_cases)
  let ?n = "length bs - t"
  let ?cs = "if t = length bs then cs else map Some (drop t bs) @ drop ?n cs"
  let ?s = "set_heap ((blocks s)(b \<mapsto> OBytes ?cs)) (next_blk s) (s\<lparr>sk := (sk s)\<lparr>s_received_len := ?n\<rparr>\<rparr>)"
  have moved: "take ?n (drop t cs) = map Some (drop t bs)"
    using b(6) t(2) by (metis drop_map drop_take)
  have run: "consume_received t s = Some ?s"
  proof (cases "t = length bs")
    case True
    then show ?thesis using b(3) len by (simp add: consume_received_def set_heap_def fun_upd_idem)
  next
    case False
    then have "load (Ptr b t) ?n s = Some (map Some (drop t bs))"
      using b t moved by (simp add: load_block)
    moreover have "store (Ptr b 0) (map Some (drop t bs)) s =
        Some (set_heap ((blocks s)(b \<mapsto> OBytes (map Some (drop t bs) @ drop ?n cs))) (next_blk s) s)"
      using b by (simp add: store_block)
    ultimately show ?thesis using False t len b(1) by (simp add: consume_received_def memcpy_def Let_def)
  qed
  have "buffer_at (blocks ?s) (sk ?s) (drop t bs) D"
    using b t by (auto simp: buffer_at_def)
  moreover have "fresh_ok ?s" using fresh b(3) by (auto simp: fresh_ok_def)
  moreover have "blocks ?s c = blocks s c" if "c \<notin> set D" for c using that b(2) by simp
  moreover have "c \<notin> set D" if "c \<in> set E \<union> set (queue_blks ns Fs) \<union> set (queue_blks ms Gs)" for c
    using ses that by (auto simp: session_def)
  ultimately have keep: "buffer_at (blocks ?s) (sk ?s) (drop t bs) D" "fresh_ok ?s"
      "\<And>c. c \<in> set E \<union> set (queue_blks ns Fs) \<union> set (queue_blks ms Gs) \<Longrightarrow> blocks ?s c = blocks s c"
    by blast+
  have "err_own ?s E" using ses keep(3) by (intro err_own_cong [of ?s s E]) (auto simp: session_def)
  moreover have "queue_holds (blocks ?s) (s_recvd_frames (sk s)) ns Fs xs"
    using ses keep(3) by (intro queue_holds_cong [of ns Fs "blocks ?s" "blocks s"]) (auto simp: session_def)
  moreover have "queue_holds (blocks ?s) (s_send_frames (sk s)) ms Gs ys"
    using ses keep(3) by (intro queue_holds_cong [of ms Gs "blocks ?s" "blocks s"]) (auto simp: session_def)
  ultimately have "session ?s E (drop t bs) D ns Fs xs ms Gs ys"
    using ses keep(1,2) by (simp add: session_def)
  moreover have "evolves (foot E D ns Fs ms Gs) s (foot E D ns Fs ms Gs) ?s" by (rule evolvesI) (use b(2) in simp_all)
  ultimately show thesis using run by (intro that) (use b(2) in simp_all)
qed

text \<open>What a regular frame asks to be sent: a pong with the payload of a ping, masked with some key.\<close>

definition answer_of :: "u8 list \<Rightarrow> u8 list \<Rightarrow> (rws_opcode \<times> u8 list) list" where
  "answer_of key u = (if opcode_of u = 9 then [(rws_opcode_pong, encode_frame 10 (Some key) (payload_at u))] else [])"

lemma process_regular:
  assumes ses: "session s [] bs D ns Fs xs ms Gs ys" and fr: "beside s (foot [] D ns Fs ms Gs) q f Df"
    and u: "regular u" and op: "f_opcode f = of_nat (opcode_of u)" and fin: "f_is_finished f = (128 \<le> unat (u ! 0))"
    and data: "f_data f = NULL \<and> f_data_size f = 0 \<and> (opcode_of u \<in> {8, 10} \<or> payload_at u = []) \<or>
      opcode_of u \<notin> {8, 10} \<and> payload_at u \<noteq> [] \<and> f_data_size f = length (payload_at u) \<and>
      (\<exists>d \<in> set Df. f_data f = Ptr d 0 \<and> blocks s d = Some (OBytes (map Some (payload_at u))))"
  obtains s' E ns' Fs' ms' Gs' key where "rws_socket_process_received_frame q s = Some s'"
    and "length key = 4"
    and "session s' E bs D ns' Fs' (xs @ message_of u) ms' Gs' (ys @ answer_of key u)"
    and "s_command (sk s') = (if opcode_of u = 8 then COMMAND_INFORM_DISCONNECTED else s_command (sk s))"
    and "if opcode_of u = 8 then error_at (s_error (sk s')) rws_error_code_connection_closed E s' else E = []"
    and "s_socket (sk s') = s_socket (sk s)" "s_is_connected (sk s') = s_is_connected (sk s)"
    and "ev s' = ev s" "trace s' = trace s" "same_setup (sk s) (sk s')"
    and "evolves (foot [] D ns Fs ms Gs \<union> set Df) s (foot E D ns' Fs' ms' Gs') s'"
proof -
  have o16: "opcode_of u < 16" by (simp add: opcode_of_def)
  have opn: "f_opcode f = of_nat k \<longleftrightarrow> opcode_of u = k" if "k < 16" for k
    unfolding op using o16 that by (simp add: word_unat_eq_iff unat_of_nat)
  note opn = opn [of 0, simplified] opn [of 1, simplified] opn [of 2, simplified] opn [of 8, simplified]
    opn [of 9, simplified] opn [of 10, simplified]
  have u2: "2 \<le> length u" "hdr_len u + low_len u \<le> length u" using u by (auto simp: regular_def)
  have size: "length (payload_at u) < 2 ^ 32" using length_payload_at [OF u2(2)] low_len_less [of u] by simp
  consider (data) "opcode_of u \<in> {0, 1, 2}" | (ping) "opcode_of u = 9" | (close) "opcode_of u = 8"
    | (other) "opcode_of u \<notin> {0, 1, 2, 8, 9}" by blast
  then show thesis
  proof cases
    case data
    then have "f_opcode f \<in> {0, 1, 2}" using opn by auto
    moreover have "payload_at u \<noteq> [] \<Longrightarrow> f_is_finished f" using fin u data by (auto simp: regular_def)
    moreover have "f_data f = NULL \<and> f_data_size f = 0 \<and> payload_at u = [] \<or>
      payload_at u \<noteq> [] \<and> f_data_size f = length (payload_at u) \<and>
      (\<exists>d \<in> set Df. f_data f = Ptr d 0 \<and> blocks s d = Some (OBytes (map Some (payload_at u))))"
      using assms(6) data by auto
    ultimately obtain s' ns' Fs' p where s': "rws_socket_process_received_frame q s = Some s'"
      "session s' [] bs D ns' Fs' (xs @ (if payload_at u = [] then [] else [(f_opcode f, payload_at u)])) ms Gs ys"
      "sk s' = (sk s)\<lparr>s_recvd_frames := p\<rparr>" "ev s' = ev s" "trace s' = trace s"
      "evolves (foot [] D ns Fs ms Gs \<union> set Df) s (foot [] D ns' Fs' ms Gs) s'"
      by (rule process_data_frame [OF ses fr])
    then show thesis using data
      by (intro that [of s' "[0, 0, 0, 0]" "[]" ns' Fs' ms Gs]) (auto simp: message_of_def answer_of_def op same_setup_def)
  next
    case ping
    then have "f_opcode f = rws_opcode_ping" using opn by simp
    moreover have "f_data f = NULL \<and> f_data_size f = 0 \<and> payload_at u = [] \<or>
      payload_at u \<noteq> [] \<and> f_data_size f = length (payload_at u) \<and>
      (\<exists>d \<in> set Df. f_data f = Ptr d 0 \<and> blocks s d = Some (OBytes (map Some (payload_at u))))"
      using assms(6) ping by auto
    ultimately obtain s' b F p where s': "rws_socket_process_received_frame q s = Some s'"
      "session s' [] bs D ns Fs xs (ms @ [b]) (Gs @ [F]) (ys @ [(rws_opcode_pong, ready_bytes rws_opcode_pong (payload_at u) s)])"
      "sk s' = (sk s)\<lparr>s_send_frames := p\<rparr>" "ev s' = ev s" "trace s' = trace s"
      "evolves (foot [] D ns Fs ms Gs \<union> set Df) s (foot [] D ns Fs (ms @ [b]) (Gs @ [F])) s'"
      using process_ping [OF ses fr _ size] by metis
    then show thesis using ping
      by (intro that [of s' "made_key s" "[]" ns Fs "ms @ [b]" "Gs @ [F]"])
        (auto simp: message_of_def answer_of_def ready_bytes_def same_setup_def)
  next
    case close
    then have "f_opcode f = rws_opcode_connection_close" using opn by simp
    then obtain s' E e where s': "rws_socket_process_received_frame q s = Some s'"
      "session s' E bs D ns Fs xs ms Gs ys"
      "sk s' = (sk s)\<lparr>s_command := COMMAND_INFORM_DISCONNECTED, s_error := e\<rparr>"
      "error_at e rws_error_code_connection_closed E s'" "ev s' = ev s" "trace s' = trace s"
      "evolves (foot [] D ns Fs ms Gs \<union> set Df) s (foot E D ns Fs ms Gs) s'"
      by (rule process_close [OF ses fr])
    then show thesis using close
      by (intro that [of s' "[0, 0, 0, 0]" E ns Fs ms Gs]) (auto simp: message_of_def answer_of_def same_setup_def)
  next
    case other
    then have "f_opcode f \<notin> {0, 1, 2, 8, 9}" using opn by auto
    then obtain s' where s': "rws_socket_process_received_frame q s = Some s'" "session s' [] bs D ns Fs xs ms Gs ys"
      "sk s' = sk s" "ev s' = ev s" "trace s' = trace s"
      "evolves (foot [] D ns Fs ms Gs \<union> set Df) s (foot [] D ns Fs ms Gs) s'"
      by (rule process_other [OF ses fr])
    then show thesis using other
      by (intro that [of s' "[0, 0, 0, 0]" "[]" ns Fs ms Gs]) (auto simp: message_of_def answer_of_def same_setup_def)
  qed
qed

lemma idle_recv_run:
  assumes ses: "session s E bs D ns Fs xs ms Gs ys" and ok: "recv_ok s"
    and all: "all = bs @ recv_data (fst (recv_result s))"
    and reg: "list_all regular (fst (take_one check_size all))"
  obtains s' E' D' ns' Fs' ms' Gs' key where "rws_socket_idle_recv s = Some s'" and "length key = 4"
    and "session s' E' (snd (take_one check_size all)) D' ns' Fs'
      (xs @ concat (map message_of (fst (take_one check_size all)))) ms' Gs'
      (ys @ concat (map (answer_of key) (fst (take_one check_size all))))"
    and "s_command (sk s') = (if 8 \<in> set (map opcode_of (fst (take_one check_size all)))
      then COMMAND_INFORM_DISCONNECTED else s_command (sk s))"
    and "if 8 \<in> set (map opcode_of (fst (take_one check_size all)))
      then error_at (s_error (sk s')) rws_error_code_connection_closed E' s' else E' = []"
    and "s_socket (sk s') = s_socket (sk s)" "s_is_connected (sk s') = s_is_connected (sk s)"
    and "ev s' = (ev s)\<lparr>env_recv := stl (env_recv (ev s))\<rparr>" and "trace s' = trace s" and "keeps_mutexes s s'"
    and "same_setup (sk s) (sk s')"
    and "evolves (foot E D ns Fs ms Gs) s (foot E' D' ns' Fs' ms' Gs') s'"
proof -
  obtain s1 D1 where s1: "rws_socket_recv s = Some (True, s1)" "session s1 [] all D1 ns Fs xs ms Gs ys"
      "s_command (sk s1) = s_command (sk s)" "trace s1 = trace s" "s_error (sk s1) = NULL"
      "s_socket (sk s1) = s_socket (sk s)" "s_is_connected (sk s1) = s_is_connected (sk s)"
      "ev s1 = (ev s)\<lparr>env_recv := stl (env_recv (ev s))\<rparr>"
      "evolves (foot E D ns Fs ms Gs) s (foot [] D1 ns Fs ms Gs) s1"
      "same_setup (sk s) (sk s1)"
    unfolding all by (rule recv_session [OF ses ok])
  have buf: "buffer_at (blocks s1) (sk s1) all D1" using s1(2) by (simp add: session_def)
  have chk: "rws_check_recv_frame_size (s_received (sk s1)) (s_received_len (sk s1)) s1 = Some (check_size all)"
  proof (cases "all = []")
    case True
    then have "s_received_len (sk s1) = 0" using buffer_at_len [OF buf] by simp
    with True show ?thesis by (simp add: rws_check_recv_frame_size_def check_size_def)
  next
    case False
    then show ?thesis
      using check_recv_frame_size_run [OF buffer_at_load [OF buf]] buffer_at_len [OF buf] by simp
  qed
  show thesis
  proof (cases "check_size all = 0")
    case True
    then have "rws_socket_idle_recv s = Some s1" using s1(1) chk by (simp add: rws_socket_idle_recv_def)
    then show thesis
      by (rule that [of _ "[0, 0, 0, 0]" "[]" D1 ns Fs ms Gs])
        (use True s1 evolves_keeps [OF ses s1(9)] in \<open>simp_all add: take_one_def\<close>)
  next
    case False
    let ?t = "check_size all"
    let ?u = "take ?t all" and ?r = "drop ?t all"
    have le: "?t \<le> length all" by (rule check_size_le)
    have one: "take_one check_size all = ([?u], ?r)" using False by (simp add: take_one_def)
    have u: "regular ?u" using reg one by simp
    have lu: "length ?u = ?t" using le by simp
    obtain s2 f Df where s2: "rws_frame_create_with_recv_data (s_received (sk s1)) (length ?u) s1 = Some (Ptr (next_blk s1) 0, s2)"
        "session s2 [] all D1 ns Fs xs ms Gs ys" "beside s2 (foot [] D1 ns Fs ms Gs) (Ptr (next_blk s1) 0) f Df"
        "sk s2 = sk s1" "ev s2 = ev s1" "trace s2 = trace s1"
        "evolves (foot [] D1 ns Fs ms Gs) s1 (foot [] D1 ns Fs ms Gs \<union> set Df) s2"
        "f_opcode f = of_nat (opcode_of ?u)" "f_is_finished f = (128 \<le> unat (?u ! 0))"
        "f_data f = NULL \<and> f_data_size f = 0 \<and> (opcode_of ?u \<in> {8, 10} \<or> payload_at ?u = []) \<or>
          opcode_of ?u \<notin> {8, 10} \<and> payload_at ?u \<noteq> [] \<and> f_data_size f = length (payload_at ?u) \<and>
          (\<exists>d \<in> set Df. f_data f = Ptr d 0 \<and> blocks s2 d = Some (OBytes (map Some (payload_at ?u))))"
      by (rule recv_frame_session [OF s1(2), of ?u ?r]) (use u in \<open>simp_all add: regular_def\<close>)
    obtain s3 E3 ns3 Fs3 ms3 Gs3 key where s3: "rws_socket_process_received_frame (Ptr (next_blk s1) 0) s2 = Some s3"
        "length key = 4" "session s3 E3 all D1 ns3 Fs3 (xs @ message_of ?u) ms3 Gs3 (ys @ answer_of key ?u)"
        "s_command (sk s3) = (if opcode_of ?u = 8 then COMMAND_INFORM_DISCONNECTED else s_command (sk s2))"
        "if opcode_of ?u = 8 then error_at (s_error (sk s3)) rws_error_code_connection_closed E3 s3 else E3 = []"
        "s_socket (sk s3) = s_socket (sk s2)" "s_is_connected (sk s3) = s_is_connected (sk s2)"
        "ev s3 = ev s2" "trace s3 = trace s2" "same_setup (sk s2) (sk s3)"
        "evolves (foot [] D1 ns Fs ms Gs \<union> set Df) s2 (foot E3 D1 ns3 Fs3 ms3 Gs3) s3"
      by (rule process_regular [OF s2(2,3) u s2(8-10)])
    obtain s4 where s4: "consume_received ?t s3 = Some s4" "session s4 E3 ?r D1 ns3 Fs3 (xs @ message_of ?u) ms3 Gs3 (ys @ answer_of key ?u)"
        "sk s4 = (sk s3)\<lparr>s_received_len := length all - ?t\<rparr>" "ev s4 = ev s3" "trace s4 = trace s3"
        "\<And>b. b \<notin> set D1 \<Longrightarrow> blocks s4 b = blocks s3 b" "evolves (foot E3 D1 ns3 Fs3 ms3 Gs3) s3 (foot E3 D1 ns3 Fs3 ms3 Gs3) s4"
      by (rule consume_session [OF s3(3), of ?t]) (use False le in simp_all)
    have "error_at (s_error (sk s4)) rws_error_code_connection_closed E3 s4" if "opcode_of ?u = 8"
    proof -
      have "error_at (s_error (sk s3)) rws_error_code_connection_closed E3 s3" using s3(5) that by simp
      moreover have "b \<notin> set D1" if "b \<in> set E3" for b using s3(3) that by (auto simp: session_def)
      ultimately show ?thesis using s4(3,6) error_at_cong [of E3 s4 s3] by simp
    qed
    then have err: "if opcode_of ?u = 8 then error_at (s_error (sk s4)) rws_error_code_connection_closed E3 s4 else E3 = []"
      using s3(5) by auto
    have stp: "same_setup (sk s) (sk s4)"
      using s1(10) s2(4) s3(10) s4(3) by (simp add: same_setup_def)
    have ev: "evolves (foot E D ns Fs ms Gs) s (foot E3 D1 ns3 Fs3 ms3 Gs3) s4"
      by (rule evolves_trans [OF evolves_trans [OF evolves_trans [OF s1(9) s2(7)] s3(11)] s4(7)])
    have "rws_socket_idle_recv s = Some s4"
      using s1(1) chk False s2(1) s3(1) s4(1) lu by (simp add: rws_socket_idle_recv_def)
    then show thesis
      by (rule that [OF _ s3(2) _ _ _ _ _ _ _ evolves_keeps [OF ses ev] _ ev]) (use one s1(1-8) s2(4-6) s3(3-9) s4(2-5) err stp in simp_all)
  qed
qed

end
