(* ===== verification/Rws_Handshake.thy ===== *)
theory Rws_Handshake
  imports Rws_Traffic "HOL-Library.Sublist"
begin

text \<open>
  The HTTP upgrade of \<open>rws_socketpriv.c\<close>: the request \<open>rws_socket_send_handshake\<close> formats, and
  the search for the status code and the accept key in the response.  The response is read byte by
  byte from the receive buffer, which carries no NUL: a scan that reaches the end of the buffer, or
  a byte nothing was received into, has no result.
\<close>

section \<open>The request\<close>

text \<open>
  \<open>sprintf\<close> into \<open>buff[512]\<close> behind the bytes written so far (outside MSVC the macro drops the
  size argument): text and NUL must stay inside the array.
\<close>

definition rws_sprintf :: "nat \<Rightarrow> u8 list \<Rightarrow> u8 list \<Rightarrow> u8 list option" where
  "rws_sprintf array_size written txt =
     (if length (written @ txt) < array_size then Some (written @ txt) else None)"

text \<open>\<open>%s\<close> of a C string, \<open>%i\<close> of an \<open>int\<close>.\<close>

definition fmt_s :: "ptr \<Rightarrow> 'a mem_scheme \<Rightarrow> u8 list option" where
  "fmt_s p m = do { n \<leftarrow> strlen p m; load_bytes p n m }"

definition fmt_i :: "int \<Rightarrow> u8 list" where
  "fmt_i i = (if i < 0 then 45 # utoa (nat (- i)) else utoa (nat i))"

definition handshake_request :: "sys \<Rightarrow> u8 list option" where
  "handshake_request s = do {
     path \<leftarrow> fmt_s (s_path (sk s)) s;
     b \<leftarrow> rws_sprintf 512 [] (cstr ''GET '' @ path @ cstr '' HTTP/1.1'' @ [13, 10]);
     host \<leftarrow> fmt_s (s_host (sk s)) s;
     b \<leftarrow> (if s_port (sk s) = 80
          then rws_sprintf 512 b (cstr ''Host: '' @ host @ [13, 10])
          else rws_sprintf 512 b (cstr ''Host: '' @ host @ cstr '':'' @ fmt_i (s_port (sk s)) @ [13, 10]));
     scheme \<leftarrow> fmt_s (s_scheme (sk s)) s;
     b \<leftarrow> rws_sprintf 512 b (cstr ''Upgrade: websocket'' @ [13, 10] @ cstr ''Connection: Upgrade'' @ [13, 10] @
            cstr ''Origin: '' @ scheme @ cstr ''://'' @ host @ [13, 10]);
     rws_sprintf 512 b (cstr ''Sec-WebSocket-Key: '' @ cstr ''dGhlIHNhbXBsZSBub25jZQ=='' @ [13, 10] @
            cstr ''Sec-WebSocket-Protocol: chat, superchat'' @ [13, 10] @
            cstr ''Sec-WebSocket-Version: 13'' @ [13, 10] @ [13, 10]) }"

definition rws_socket_send_handshake :: "sys \<Rightarrow> sys option" where
  "rws_socket_send_handshake s = do {
     buff \<leftarrow> handshake_request s;
     (ok, s) \<leftarrow> rws_socket_send (Lit buff 0) (length buff) s;
     if ok then Some (s\<lparr>sk := (sk s)\<lparr>s_command := COMMAND_WAIT_HANDSHAKE_RESPONCE\<rparr>\<rparr>)
     else do {
       s \<leftarrow> (if s_error (sk s) \<noteq> NULL then do {
              e \<leftarrow> get_err (s_error (sk s)) s;
              put_err (s_error (sk s)) (e\<lparr>e_code := rws_error_code_send_handshake\<rparr>) s }
            else set_error rws_error_code_send_handshake (lit ''Send handshake'') s);
       let s = rws_socket_close s;
       Some (s\<lparr>sk := (sk s)\<lparr>s_command := COMMAND_INFORM_DISCONNECTED\<rparr>\<rparr>) } }"

section \<open>Scanning the response\<close>

text \<open>\<open>strstr\<close>: the cells from the first match on; \<open>Some None\<close> when the NUL comes first.\<close>

fun match_cells :: "u8 list \<Rightarrow> cell list \<Rightarrow> bool option" where
  "match_cells [] cs = Some True"
| "match_cells (k # ks) [] = None"
| "match_cells (k # ks) (None # cs) = None"
| "match_cells (k # ks) (Some b # cs) = (if b = k then match_cells ks cs else Some False)"

fun strstr_cells :: "u8 list \<Rightarrow> cell list \<Rightarrow> cell list option option" where
  "strstr_cells needle [] = None"
| "strstr_cells needle (None # cs) = None"
| "strstr_cells needle (Some b # cs) = do {
     hit \<leftarrow> match_cells needle (Some b # cs);
     if hit then Some (Some (Some b # cs))
     else if b = 0 then Some None
     else strstr_cells needle cs }"

text \<open>Characters: white space of \<open>isspace\<close>, digits, signs.\<close>

definition is_space :: "u8 \<Rightarrow> bool" where
  "is_space b \<longleftrightarrow> b \<in> {32, 9, 10, 11, 12, 13}"

definition is_digit :: "u8 \<Rightarrow> bool" where
  "is_digit b \<longleftrightarrow> 48 \<le> b \<and> b \<le> 57"

text \<open>The longest run of bytes that satisfy a test, and the rest.\<close>

fun span_cells :: "(u8 \<Rightarrow> bool) \<Rightarrow> cell list \<Rightarrow> (u8 list \<times> cell list) option" where
  "span_cells p [] = None"
| "span_cells p (None # cs) = None"
| "span_cells p (Some b # cs) =
     (if p b then map_option (map_prod ((#) b) id) (span_cells p cs) else Some ([], Some b # cs))"

definition skip_sign :: "cell list \<Rightarrow> cell list option" where
  "skip_sign cs = (case cs of
       Some b # ds \<Rightarrow> Some (if b = 43 \<or> b = 45 then ds else cs)
     | _ \<Rightarrow> None)"

text \<open>
  \<open>%f\<close>: white space, a sign, digits with at most one point and at least one digit, and an exponent
  (\<open>e\<close>, a sign, digits).  The result is what follows the number, \<open>Some None\<close> when there is no
  number.  The other spellings of \<open>strtof\<close> (\<open>inf\<close>, \<open>nan\<close>, hexadecimal) start with a letter or
  continue a lone \<open>0\<close> with \<open>x\<close>; a response that writes its HTTP version so counts as having none.
\<close>

definition scan_float :: "cell list \<Rightarrow> cell list option option" where
  "scan_float cs = do {
     (_, cs) \<leftarrow> span_cells is_space cs;
     cs \<leftarrow> skip_sign cs;
     (ds, cs) \<leftarrow> span_cells is_digit cs;
     (fs, cs) \<leftarrow> (case cs of Some b # cs' \<Rightarrow>
                   (if b = 46 then span_cells is_digit cs' else Some ([], cs)) | _ \<Rightarrow> None);
     if ds = [] \<and> fs = [] then Some None
     else (case cs of
         Some b # cs' \<Rightarrow>
           (if b = 120 \<or> b = 88 then Some None
            else if b = 101 \<or> b = 69 then do {
              cs' \<leftarrow> skip_sign cs';
              (es, cs') \<leftarrow> span_cells is_digit cs';
              if es = [] then Some None else Some (Some cs') }
            else Some (Some cs))
       | _ \<Rightarrow> None) }"

fun digits_value :: "nat \<Rightarrow> u8 list \<Rightarrow> int" where
  "digits_value base [] = 0"
| "digits_value base (b # bs) =
     (let d = (if is_digit b then unat b - 48 else if 97 \<le> b then unat b - 87 else unat b - 55)
      in int d * int base ^ length bs + digits_value base bs)"

text \<open>
  \<open>%i\<close>: white space, a sign, and a decimal, octal (leading \<open>0\<close>) or hexadecimal (leading \<open>0x\<close>)
  number.
\<close>

definition scan_int :: "cell list \<Rightarrow> int option option" where
  "scan_int cs = do {
     (_, cs) \<leftarrow> span_cells is_space cs;
     let neg = (case cs of Some b # _ \<Rightarrow> b = 45 | _ \<Rightarrow> False);
     cs \<leftarrow> skip_sign cs;
     (case cs of
        Some b # cs' \<Rightarrow>
          (if b = 48 then
             (case cs' of
                Some x # cs'' \<Rightarrow>
                  (if x = 120 \<or> x = 88 then do {
                     (ds, _) \<leftarrow> span_cells (\<lambda>b. is_digit b \<or> 97 \<le> b \<and> b \<le> 102 \<or> 65 \<le> b \<and> b \<le> 70) cs'';
                     Some (if ds = [] then None
                           else Some (if neg then - digits_value 16 ds else digits_value 16 ds)) }
                   else do {
                     (ds, _) \<leftarrow> span_cells (\<lambda>b. 48 \<le> b \<and> b \<le> 55) cs';
                     Some (Some (if neg then - digits_value 8 ds else digits_value 8 ds)) })
              | _ \<Rightarrow> None)
           else do {
             (ds, _) \<leftarrow> span_cells is_digit cs;
             Some (if ds = [] then None
                   else Some (if neg then - digits_value 10 ds else digits_value 10 ds)) })
      | _ \<Rightarrow> None) }"

text \<open>\<open>sscanf(sub, "%f %i", ...)\<close>: the code when both conversions succeed.\<close>

definition sscanf_f_i :: "cell list \<Rightarrow> int option option" where
  "sscanf_f_i cs = do {
     r \<leftarrow> scan_float cs;
     (case r of None \<Rightarrow> Some None | Some cs' \<Rightarrow> scan_int cs') }"

section \<open>The response\<close>

definition k_rws_socket_sec_websocket_accept :: "u8 list" where
  "k_rws_socket_sec_websocket_accept = cstr ''Sec-WebSocket-Accept''"

text \<open>
  The value loops of \<open>rws_socket_read_handshake_responce_value\<close>; the pointer \<open>str\<close> is given as an
  offset into the receive buffer.
\<close>

definition rws_socket_read_handshake_responce_value ::
    "nat \<Rightarrow> ptr \<Rightarrow> sys \<Rightarrow> (ptr \<times> sys) option" where
  "rws_socket_read_handshake_responce_value str val s = do {
     cs \<leftarrow> cells_from (ptr_add (s_received (sk s)) str) s;
     (skipped, cs) \<leftarrow> span_cells (\<lambda>b. b = 58 \<or> b = 32) cs;
     (value', cs) \<leftarrow> span_cells (\<lambda>b. b \<noteq> 13 \<and> b \<noteq> 10) cs;
     if 0 < length value'
     then rws_string_copy_len (ptr_add (s_received (sk s)) (str + length skipped)) (length value') s
     else Some (val, s) }"

definition rws_socket_process_handshake_responce :: "sys \<Rightarrow> (bool \<times> sys) option" where
  "rws_socket_process_handshake_responce s = do {
     s \<leftarrow> clean_error s;
     cs \<leftarrow> cells_from (s_received (sk s)) s;
     sub \<leftarrow> strstr_cells (cstr ''HTTP/'') cs;
     (case sub of
        None \<Rightarrow> Some (False, s)
      | Some hs \<Rightarrow> do {
          code \<leftarrow> sscanf_f_i (drop 5 hs);
          let http_code = (case code of None \<Rightarrow> -1 | Some c \<Rightarrow> c);
          sub \<leftarrow> strstr_cells k_rws_socket_sec_websocket_accept cs;
          s \<leftarrow> (case sub of
               None \<Rightarrow> Some s
             | Some ks \<Rightarrow> do {
                 (v, s) \<leftarrow> rws_socket_read_handshake_responce_value
                   (length cs - length ks + length k_rws_socket_sec_websocket_accept)
                   (s_sec_ws_accept (sk s)) s;
                 Some (s\<lparr>sk := (sk s)\<lparr>s_sec_ws_accept := v\<rparr>\<rparr>) });
          if http_code \<noteq> 101 \<or> s_sec_ws_accept (sk s) = NULL then do {
            s \<leftarrow> set_error rws_error_code_parse_handshake
                 (if http_code \<noteq> 101 then lit ''HTPP code not found or non 101''
                  else lit ''Accept key not found'') s;
            Some (False, s) }
          else Some (True, s) }) }"

definition rws_socket_wait_handshake_responce :: "sys \<Rightarrow> sys option" where
  "rws_socket_wait_handshake_responce s = do {
     (ok, s) \<leftarrow> rws_socket_recv s;
     if \<not> ok then
       Some (if s_error (sk s) \<noteq> NULL
             then s\<lparr>sk := (sk s)\<lparr>s_command := COMMAND_INFORM_DISCONNECTED\<rparr>\<rparr> else s)
     else if s_received_len (sk s) = 0 then Some s
     else do {
       (ok, s) \<leftarrow> rws_socket_process_handshake_responce s;
       if ok then
         Some (s\<lparr>sk := (sk s)\<lparr>s_received_len := 0, s_is_connected := True,
                 s_command := COMMAND_INFORM_CONNECTED\<rparr>\<rparr>)
       else let s = rws_socket_close s
            in Some (s\<lparr>sk := (sk s)\<lparr>s_command := COMMAND_INFORM_DISCONNECTED\<rparr>\<rparr>) } }"

section \<open>Searching\<close>

text \<open>Where the cells known to be bytes end: at the end of the block or at an uninitialised cell.\<close>

definition no_more :: "cell list \<Rightarrow> bool" where
  "no_more rest \<longleftrightarrow> rest = [] \<or> hd rest = None"

lemma match_cells_prefix: "match_cells ks (map Some (ks @ bs) @ rest) = Some True"
  by (induction ks) auto


lemma match_cells_no_hit:
  "\<not> prefix ks bs \<Longrightarrow> no_more rest \<Longrightarrow> match_cells ks (map Some bs @ rest) \<noteq> Some True"
proof (induction ks arbitrary: bs)
  case (Cons k ks)
  show ?case
  proof (cases bs)
    case Nil
    then show ?thesis using Cons.prems(2) by (cases rest) (auto simp: no_more_def)
  next
    case (Cons b bs')
    then show ?thesis using Cons.IH [of bs'] Cons.prems by auto
  qed
qed simp

lemma match_cells_miss:
  "\<not> prefix ks bs \<Longrightarrow> length ks \<le> length bs \<Longrightarrow> match_cells ks (map Some bs @ rest) = Some False"
proof (induction ks arbitrary: bs)
  case (Cons k ks)
  then show ?case by (cases bs) auto
qed simp

text \<open>The needle is found at its first occurrence, when no NUL comes before it.\<close>

lemma strstr_found:
  assumes "needle \<noteq> []" and "0 \<notin> set pre" and "\<And>i. i < length pre \<Longrightarrow> \<not> prefix needle (drop i (pre @ needle @ post))"
  shows "strstr_cells needle (map Some (pre @ needle @ post) @ rest) = Some (Some (map Some (needle @ post) @ rest))"
  using assms(2,3)
proof (induction pre)
  case Nil
  obtain k ks where n: "needle = k # ks" using assms(1) by (cases needle) auto
  have "match_cells needle (map Some (needle @ post) @ rest) = Some True" by (rule match_cells_prefix)
  then show ?case by (simp add: n)
next
  case (Cons b pre)
  have "\<not> prefix needle (b # pre @ needle @ post)" using Cons.prems(2) [of 0] by simp
  then have "match_cells needle (map Some (b # pre @ needle @ post) @ rest) = Some False"
    by (intro match_cells_miss) simp_all
  moreover have "strstr_cells needle (map Some (pre @ needle @ post) @ rest) = Some (Some (map Some (needle @ post) @ rest))"
    using Cons.prems(1) Cons.prems(2) [of "Suc _"] by (intro Cons.IH) auto
  ultimately show ?case using Cons.prems(1) by simp
qed

text \<open>Without an occurrence and without a NUL the search runs past the received bytes.\<close>

lemma strstr_overread:
  "needle \<noteq> [] \<Longrightarrow> 0 \<notin> set bs \<Longrightarrow> \<not> sublist needle bs \<Longrightarrow> no_more rest \<Longrightarrow> strstr_cells needle (map Some bs @ rest) = None"
proof (induction bs)
  case Nil
  then show ?case by (cases rest) (auto simp: no_more_def)
next
  case (Cons b bs)
  have "\<not> prefix needle (b # bs)" "\<not> sublist needle bs"
    using Cons.prems(3) by (auto simp: sublist_Cons_right)
  moreover from this(1) have "match_cells needle (map Some (b # bs) @ rest) \<noteq> Some True"
    using Cons.prems(4) by (rule match_cells_no_hit)
  ultimately have "match_cells needle (map Some (b # bs) @ rest) \<noteq> Some True" "strstr_cells needle (map Some bs @ rest) = None"
    using Cons by auto
  then show ?case using Cons.prems(2) by (cases "match_cells needle (map Some (b # bs) @ rest)") auto
qed

lemma span_cells_run:
  "list_all p xs \<Longrightarrow> \<not> p b \<Longrightarrow> span_cells p (map Some xs @ Some b # cs) = Some (xs, Some b # cs)"
  by (induction xs) auto


section \<open>Behaviour of the request\<close>

definition request_text :: "u8 list \<Rightarrow> u8 list \<Rightarrow> int \<Rightarrow> u8 list \<Rightarrow> u8 list" where
  "request_text scheme host port path =
     cstr ''GET '' @ path @ cstr '' HTTP/1.1'' @ [13, 10] @
     cstr ''Host: '' @ host @ (if port = 80 then [] else cstr '':'' @ fmt_i port) @ [13, 10] @
     cstr ''Upgrade: websocket'' @ [13, 10] @ cstr ''Connection: Upgrade'' @ [13, 10] @
     cstr ''Origin: '' @ scheme @ cstr ''://'' @ host @ [13, 10] @
     cstr ''Sec-WebSocket-Key: '' @ cstr ''dGhlIHNhbXBsZSBub25jZQ=='' @ [13, 10] @
     cstr ''Sec-WebSocket-Protocol: chat, superchat'' @ [13, 10] @
     cstr ''Sec-WebSocket-Version: 13'' @ [13, 10] @ [13, 10]"

lemma fmt_s_run: "c_string p bs m \<Longrightarrow> fmt_s p m = Some bs"
  using load_bytes_prefix [of p "Suc (length bs)" m "bs @ [0]" "length bs"]
  by (simp add: fmt_s_def strlen_c_string c_string_def)

lemma handshake_request_run:
  assumes "c_string (s_scheme (sk s)) scheme s" "c_string (s_host (sk s)) host s" "c_string (s_path (sk s)) path s"
  shows "handshake_request s = (if length (request_text scheme host (s_port (sk s)) path) < 512
    then Some (request_text scheme host (s_port (sk s)) path) else None)"
  using assms [THEN fmt_s_run]
  by (auto simp: handshake_request_def rws_sprintf_def request_text_def cstr_def)

lemma handshake_taken:
  assumes "err_own s D" and "c_string (s_scheme (sk s)) scheme s" "c_string (s_host (sk s)) host s" "c_string (s_path (sk s)) path s"
    and "length (request_text scheme host (s_port (sk s)) path) < 512"
    and "s_socket (sk s) \<noteq> RWS_INVALID_SOCKET" and "int (length (request_text scheme host (s_port (sk s)) path)) \<le> fst (shd (env_send (ev s)))"
  obtains s' where "rws_socket_send_handshake s = Some s'" and "sk s' = (sk s)\<lparr>s_error := NULL, s_command := COMMAND_WAIT_HANDSHAKE_RESPONCE\<rparr>"
    and "ev s' = (ev s)\<lparr>env_send := stl (env_send (ev s))\<rparr>"
    and "trace s' = trace s @ [Sent (request_text scheme host (s_port (sk s)) path)]"
proof -
  define r where "r = request_text scheme host (s_port (sk s)) path"
  have req: "handshake_request s = Some r" using handshake_request_run [OF assms(2-4)] assms(5) by (simp add: r_def)
  have "load_bytes (Lit r 0) (send_len (length r)) s = Some r" "ptr_blks (Lit r 0) \<inter> set D = {}" "r \<noteq> []"
    using assms(5) by (simp_all add: send_len_def r_def request_text_def cstr_def)
  moreover have "0 < fst (shd (env_send (ev s)))" "length r \<le> nat (fst (shd (env_send (ev s))))"
    using assms(7) length_greater_0_conv [of r] \<open>r \<noteq> []\<close> unfolding r_def [symmetric] by linarith+
  moreover obtain t where "rws_socket_send (Lit r 0) (length r) s = Some (True, t)" "sk t = (sk s)\<lparr>s_error := NULL\<rparr>"
      "ev t = (ev s)\<lparr>env_send := stl (env_send (ev s))\<rparr>" "trace t = trace s @ [Sent (take (nat (fst (shd (env_send (ev s))))) r)]"
    by (rule socket_send_taken [OF assms(1) calculation(1,2) assms(6) calculation(4)])
  ultimately show thesis using req
    by (intro that [of "t\<lparr>sk := (sk t)\<lparr>s_command := COMMAND_WAIT_HANDSHAKE_RESPONCE\<rparr>\<rparr>"])
      (simp_all add: rws_socket_send_handshake_def r_def [symmetric])
qed

text \<open>A write that fails: the error changes its code, the descriptor is closed.\<close>

lemma handshake_failed:
  assumes "handshake_request s = Some r" and "rws_socket_send (Lit r 0) (length r) s = Some (False, t)"
    and "error_at (s_error (sk t)) code D t"
  obtains s' where "rws_socket_send_handshake s = Some s'" and "s_command (sk s') = COMMAND_INFORM_DISCONNECTED"
    and "s_socket (sk s') = RWS_INVALID_SOCKET" and "rws_error_get_code (s_error (sk s')) s' = Some rws_error_code_send_handshake"
proof -
  obtain b x where b: "s_error (sk t) = Ptr b 0" "blocks t b = Some (OError x)"
    using assms(3) by (auto simp: error_at_def dest!: get_err_SomeD split: option.splits)
  have "rws_socket_send_handshake s = Some ((rws_socket_close (set_heap ((blocks t)(b \<mapsto> OError (x\<lparr>e_code := 2\<rparr>))) (next_blk t) t))\<lparr>sk :=
      (closed_sk (sk t))\<lparr>s_command := COMMAND_INFORM_DISCONNECTED\<rparr>\<rparr>)"
    using assms(1,2) b by (simp add: rws_socket_send_handshake_def run_simps)
  then show thesis by (rule that) (use b in \<open>simp_all add: rws_error_get_code_def get_err_def obj_at_def\<close>)
qed

text \<open>C20: The handshake request.  From the URL of the socket the code formats one HTTP upgrade request
  (host with its port unless it is 80, the fixed sample key) and hands it to the socket: if the kernel
  takes it the response is awaited next; if the write fails the descriptor is closed, the error code
  is 2 and the thread is told to inform about the disconnection.  A URL that makes the request longer
  than 511 bytes overflows the array it is formatted into.\<close>

theorem handshake_sent:
  assumes "fresh_ok s" and "err_own s D"
    and "c_string (s_scheme (sk s)) scheme s" "c_string (s_host (sk s)) host s" "c_string (s_path (sk s)) path s"
  defines "r \<equiv> request_text scheme host (s_port (sk s)) path"
  shows "if length r < 512 then \<exists>s'. rws_socket_send_handshake s = Some s' \<and>
      (if send_fails s
       then s_command (sk s') = COMMAND_INFORM_DISCONNECTED \<and> s_socket (sk s') = RWS_INVALID_SOCKET \<and>
         rws_error_get_code (s_error (sk s')) s' = Some rws_error_code_send_handshake
       else s_command (sk s') = COMMAND_WAIT_HANDSHAKE_RESPONCE \<and> s_error (sk s') = NULL \<and>
         trace s' = trace s @ (if 0 < fst (send_result s) then [Sent (take (nat (fst (send_result s))) r)] else []))
    else rws_socket_send_handshake s = None"
proof (cases "length r < 512")
  case True
  have req: "handshake_request s = Some r"
    using handshake_request_run [OF assms(3-5)] True by (simp add: r_def)
  have ld: "load_bytes (Lit r 0) (send_len (length r)) s = Some r" using True by (simp add: send_len_def)
  have apart: "ptr_blks (Lit r 0) \<inter> set D = {}" by simp
  obtain t D' where t: "rws_socket_send (Lit r 0) (length r) s = Some (\<not> send_fails s, t)"
      "fresh_ok t" "err_own t D'" "next_blk s \<le> next_blk t" "\<And>b. b \<in> set D' \<Longrightarrow> next_blk s \<le> b"
      "\<And>b. b \<notin> set D' \<Longrightarrow> blocks t b = (if b \<in> set D then None else blocks s b)"
      "trace t = trace s @ (if 0 < fst (send_result s) then [Sent (take (nat (fst (send_result s))) r)] else []) @
        (if send_fails s \<and> s_socket (sk s) \<noteq> RWS_INVALID_SOCKET then [Closed (s_socket (sk s))] else [])"
      "\<not> send_fails s \<Longrightarrow> D' = [] \<and> sk t = (sk s)\<lparr>s_error := NULL\<rparr>"
      "send_fails s \<Longrightarrow> error_at (s_error (sk t)) rws_error_code_read_write_socket D' t \<and>
        sk t = closed_sk ((sk s)\<lparr>s_error := s_error (sk t)\<rparr>)"
    by (rule rws_socket_send_run [OF assms(1,2) ld apart]) (rule that; blast)
  show ?thesis
  proof (cases "send_fails s")
    case False
    then show ?thesis using True req t(1,7) t(8) [OF False] by (simp add: rws_socket_send_handshake_def)
  next
    case fail: True
    from t(1) have send: "rws_socket_send (Lit r 0) (length r) s = Some (False, t)" using fail by simp
    have "error_at (s_error (sk t)) rws_error_code_read_write_socket D' t" using t(9) [OF fail] by simp
    then obtain s' where "rws_socket_send_handshake s = Some s'" "s_command (sk s') = COMMAND_INFORM_DISCONNECTED"
        "s_socket (sk s') = RWS_INVALID_SOCKET" "rws_error_get_code (s_error (sk s')) s' = Some rws_error_code_send_handshake"
      by (rule handshake_failed [OF req send])
    then show ?thesis using True fail by simp
  qed
next
  case False
  then show ?thesis using handshake_request_run [OF assms(3-5)] by (simp add: r_def rws_socket_send_handshake_def)
qed


theorem handshake_sent_witness:
  "\<exists>s'. rws_socket_send_handshake (sys_of [OBytes (map Some (cstr ''ws'' @ [0])), OBytes (map Some (cstr ''h'' @ [0])), OBytes (map Some (cstr ''/'' @ [0]))]
      (zero_socket\<lparr>s_socket := 3, s_port := 80, s_scheme := Ptr 0 0, s_host := Ptr 1 0, s_path := Ptr 2 0\<rparr>)
      (quiet_env\<lparr>env_send := sconst (400, 0)\<rparr>)) = Some s' \<and>
     s_command (sk s') = COMMAND_WAIT_HANDSHAKE_RESPONCE \<and>
     trace s' = [Sent (take 400 (request_text (cstr ''ws'') (cstr ''h'') 80 (cstr ''/'')))]"
proof -
  let ?s = "sys_of [OBytes (map Some (cstr ''ws'' @ [0])), OBytes (map Some (cstr ''h'' @ [0])), OBytes (map Some (cstr ''/'' @ [0]))]
      (zero_socket\<lparr>s_socket := 3, s_port := 80, s_scheme := Ptr 0 0, s_host := Ptr 1 0, s_path := Ptr 2 0\<rparr>)
      (quiet_env\<lparr>env_send := sconst (400, 0)\<rparr>)"
  have "c_string (Ptr 0 0) (cstr ''ws'') ?s" "c_string (Ptr 1 0) (cstr ''h'') ?s" "c_string (Ptr 2 0) (cstr ''/'') ?s"
    by (intro c_string_block; simp add: cstr_def)+
  then have str: "c_string (s_scheme (sk ?s)) (cstr ''ws'') ?s" "c_string (s_host (sk ?s)) (cstr ''h'') ?s" "c_string (s_path (sk ?s)) (cstr ''/'') ?s"
    by simp_all
  have len: "length (request_text (cstr ''ws'') (cstr ''h'') 80 (cstr ''/'')) < 512"
    by (simp add: request_text_def cstr_def)
  have env: "fresh_ok ?s" "err_own ?s []" "s_port (sk ?s) = 80" "trace ?s = []" by (simp_all add: zero_socket_def)
  have ok: "\<not> send_fails ?s" "send_result ?s = (400, 0)"
    by (simp_all add: send_fails_def send_result_def zero_socket_def)
  show ?thesis using handshake_sent [OF env(1,2) str] len ok unfolding env(3,4) by auto
qed

section \<open>Behaviour of the response\<close>

text \<open>
  A response as servers send it: version 1.1 and status 101 first, later the accept header with the
  value \<open>key\<close>, and \<open>tail\<close> after its carriage return.
\<close>

definition accepting :: "u8 list \<Rightarrow> u8 list \<Rightarrow> u8 list \<Rightarrow> bool" where
  "accepting key tail bs \<longleftrightarrow> (\<exists>pre c mid sep. pre = cstr ''HTTP/1.1 101'' @ c # mid \<and>
     bs = pre @ k_rws_socket_sec_websocket_accept @ sep @ key @ 13 # tail \<and> \<not> is_digit c \<and> 0 \<notin> set pre \<and>
     (\<forall>i < length pre. \<not> prefix k_rws_socket_sec_websocket_accept (drop i bs)) \<and>
     list_all (\<lambda>b. b = 58 \<or> b = 32) sep \<and> key \<noteq> [] \<and> hd key \<noteq> 58 \<and> hd key \<noteq> 32 \<and> 13 \<notin> set key \<and> 10 \<notin> set key)"

lemma scan_status:
  assumes "\<not> is_digit c"
  shows "sscanf_f_i (drop 5 (map Some (cstr ''HTTP/1.1 101'' @ c # mid) @ rest)) = Some (Some 101)"
  using assms
  by (simp add: cstr_def sscanf_f_i_def scan_float_def scan_int_def skip_sign_def is_space_def is_digit_def) auto

lemma read_value_run:
  assumes "fresh_ok s" and "s_received (sk s) = Ptr b 0" and "blocks s b = Some (OBytes (hs @ map Some (sep @ key @ 13 # tail) @ rest))"
    and "list_all (\<lambda>b. b = 58 \<or> b = 32) sep" "key \<noteq> []" "hd key \<noteq> 58" "hd key \<noteq> 32" "13 \<notin> set key" "10 \<notin> set key"
  shows "rws_socket_read_handshake_responce_value (length hs) v s =
    Some (Ptr (next_blk s) 0, set_heap ((blocks s)(next_blk s \<mapsto> OBytes (map Some key @ [Some 0]))) (Suc (next_blk s)) s)"
proof -
  obtain k ks where key: "key = k # ks" using assms(5) by (cases key) auto
  have "cells_from (Ptr b (length hs)) s = Some (map Some (sep @ key @ 13 # tail) @ rest)"
    using assms(3) by (simp add: cells_from_def)
  moreover have "span_cells (\<lambda>b. b = 58 \<or> b = 32) (map Some (sep @ key @ 13 # tail) @ rest) = Some (sep, map Some (key @ 13 # tail) @ rest)"
    using span_cells_run [OF assms(4), of k] assms(6,7) key by simp
  moreover have "span_cells (\<lambda>b. b \<noteq> 13 \<and> b \<noteq> 10) (map Some (key @ 13 # tail) @ rest) = Some (key, map Some (13 # tail) @ rest)"
    using span_cells_run [of "\<lambda>b. b \<noteq> 13 \<and> b \<noteq> 10" key 13] assms(8,9) by (auto simp: list_all_iff)
  moreover have "load (Ptr b (length hs + length sep)) (length key) s = Some (map Some key)"
    using assms(3) by (simp add: load_def cells_from_def)
  ultimately show ?thesis
    using assms(2,5) rws_string_copy_len_run [OF assms(1), of "Ptr b (length hs + length sep)" "length key" "map Some key"]
    by (simp add: rws_socket_read_handshake_responce_value_def)
qed

lemma process_accepting:
  assumes "fresh_ok s" and "s_error (sk s) = NULL" and "s_received (sk s) = Ptr b 0"
    and "blocks s b = Some (OBytes (map Some bs @ rest))" and "accepting key tail bs"
  shows "rws_socket_process_handshake_responce s = Some (True,
    set_heap ((blocks s)(next_blk s \<mapsto> OBytes (map Some key @ [Some 0]))) (Suc (next_blk s))
      (s\<lparr>sk := (sk s)\<lparr>s_sec_ws_accept := Ptr (next_blk s) 0\<rparr>\<rparr>))"
proof -
  let ?n = "k_rws_socket_sec_websocket_accept"
  obtain pre c mid sep where r: "pre = cstr ''HTTP/1.1 101'' @ c # mid" "bs = pre @ ?n @ sep @ key @ 13 # tail" "\<not> is_digit c"
      "0 \<notin> set pre" "\<forall>i < length pre. \<not> prefix ?n (drop i bs)"
      "list_all (\<lambda>b. b = 58 \<or> b = 32) sep" "key \<noteq> []" "hd key \<noteq> 58" "hd key \<noteq> 32" "13 \<notin> set key" "10 \<notin> set key"
    using assms(5) unfolding accepting_def by blast
  have http: "strstr_cells (cstr ''HTTP/'') (map Some bs @ rest) = Some (Some (map Some bs @ rest))"
    by (simp add: r(1,2) cstr_def)
  have status: "sscanf_f_i (drop 5 (map Some bs @ rest)) = Some (Some 101)"
    using scan_status [OF r(3), of "mid @ ?n @ sep @ key @ 13 # tail" rest] by (simp add: r(1,2))
  have ne: "?n \<noteq> []" by (simp add: k_rws_socket_sec_websocket_accept_def cstr_def)
  have found: "strstr_cells ?n (map Some bs @ rest) = Some (Some (map Some (?n @ sep @ key @ 13 # tail) @ rest))"
    unfolding r(2) by (rule strstr_found [OF ne r(4)]) (use r(2,5) in auto)
  have at: "length (map Some bs @ rest) - length (map Some (?n @ sep @ key @ 13 # tail) @ rest) + length ?n = length (map Some (pre @ ?n))"
    by (simp add: r(2))
  have val: "rws_socket_read_handshake_responce_value (length (map Some (pre @ ?n))) v s =
    Some (Ptr (next_blk s) 0, set_heap ((blocks s)(next_blk s \<mapsto> OBytes (map Some key @ [Some 0]))) (Suc (next_blk s)) s)" for v
    using assms(4) r(2) by (intro read_value_run [OF assms(1,3) _ r(6-11)]) simp
  have cells: "cells_from (Ptr b 0) s = Some (map Some bs @ rest)" using assms(4) by (simp add: cells_from_def)
  show ?thesis
    using http status found val at
    by (simp add: rws_socket_process_handshake_responce_def assms(2,3) run_simps cells del: map_append length_append length_map)
qed


section \<open>Answers in which every scan ends\<close>

text \<open>
  The scanners only look ahead: what they find in some cells they find there when more cells follow.
\<close>

lemma match_cells_more: "match_cells ks cs = Some r \<Longrightarrow> match_cells ks (cs @ rest) = Some r"
  by (induction ks cs rule: match_cells.induct) (auto split: if_splits)

lemma match_cells_length: "match_cells ks cs = Some True \<Longrightarrow> length ks \<le> length cs"
  by (induction ks cs rule: match_cells.induct) (auto split: if_splits)

lemma strstr_cells_more: "strstr_cells needle cs = Some r \<Longrightarrow> strstr_cells needle (cs @ rest) = Some (map_option (\<lambda>hs. hs @ rest) r)"
proof (induction needle cs rule: strstr_cells.induct)
  case (3 needle b cs)
  then obtain hit where hit: "match_cells needle (Some b # cs) = Some hit" by (auto elim!: bind_SomeE)
  then have "match_cells needle (Some b # cs @ rest) = Some hit" using match_cells_more [of needle "Some b # cs"] by simp
  then show ?case using 3 hit by (auto split: if_split_asm)
qed simp_all

lemma strstr_cells_suffix: "strstr_cells needle cs = Some (Some hs) \<Longrightarrow> length needle \<le> length hs \<and> (\<exists>pre. cs = pre @ hs)"
proof (induction needle cs rule: strstr_cells.induct)
  case (3 needle b cs)
  then obtain hit where hit: "match_cells needle (Some b # cs) = Some hit" by (auto elim!: bind_SomeE)
  show ?case
  proof (cases hit)
    case True
    then show ?thesis using 3(2) hit match_cells_length [of needle "Some b # cs"] by auto
  next
    case False
    then have "length needle \<le> length hs \<and> (\<exists>pre. cs = pre @ hs)" using 3 hit by (auto split: if_split_asm)
    then show ?thesis by (auto intro: exI [of _ "Some b # _"])
  qed
qed simp_all

lemma span_cells_more: "span_cells p cs = Some (xs, ds) \<Longrightarrow> span_cells p (cs @ rest) = Some (xs, ds @ rest)"
  by (induction p cs arbitrary: xs rule: span_cells.induct) (auto split: if_split_asm)

lemma span_cells_cells: "span_cells p cs = Some (xs, ds) \<Longrightarrow> cs = map Some xs @ ds"
  by (induction p cs arbitrary: xs rule: span_cells.induct) (auto split: if_split_asm)

lemma skip_sign_more: "skip_sign cs = Some ds \<Longrightarrow> skip_sign (cs @ rest) = Some (ds @ rest)"
  by (auto simp: skip_sign_def split: list.splits option.splits)

lemma scan_float_more:
  assumes "scan_float cs = Some r"
  shows "scan_float (cs @ rest) = Some (map_option (\<lambda>x. x @ rest) r)"
proof -
  obtain w c1 c2 ds c3 fs c4 where c1: "span_cells is_space cs = Some (w, c1)" and c2: "skip_sign c1 = Some c2"
    and c3: "span_cells is_digit c2 = Some (ds, c3)"
    and c4: "(case c3 of Some b # cs' \<Rightarrow> if b = 46 then span_cells is_digit cs' else Some ([], c3) | _ \<Rightarrow> None) = Some (fs, c4)"
    and r: "(if ds = [] \<and> fs = [] then Some None
     else (case c4 of
         Some b # cs' \<Rightarrow>
           (if b = 120 \<or> b = 88 then Some None
            else if b = 101 \<or> b = 69 then do {
              cs' \<leftarrow> skip_sign cs';
              (es, cs') \<leftarrow> span_cells is_digit cs';
              if es = [] then Some None else Some (Some cs') }
            else Some (Some c4))
       | _ \<Rightarrow> None)) = Some r"
    using assms unfolding scan_float_def by (elim bind_SomeE) (auto simp only: prod.case elim!: bind_SomeE)
  note ext = span_cells_more [OF c1, of rest] skip_sign_more [OF c2, of rest] span_cells_more [OF c3, of rest]
  obtain b c3' where b: "c3 = Some b # c3'" using c4 by (auto split: list.splits option.splits)
  then have c4': "(case c3 @ rest of Some b # cs' \<Rightarrow> if b = 46 then span_cells is_digit cs' else Some ([], c3 @ rest) | _ \<Rightarrow> None) = Some (fs, c4 @ rest)"
    using c4 span_cells_more [of is_digit c3' fs c4 rest] by (auto split: if_splits)
  have r': "(if ds = [] \<and> fs = [] then Some None
     else (case c4 @ rest of
         Some b # cs' \<Rightarrow>
           (if b = 120 \<or> b = 88 then Some None
            else if b = 101 \<or> b = 69 then do {
              cs' \<leftarrow> skip_sign cs';
              (es, cs') \<leftarrow> span_cells is_digit cs';
              if es = [] then Some None else Some (Some cs') }
            else Some (Some (c4 @ rest)))
       | _ \<Rightarrow> None)) = Some (map_option (\<lambda>x. x @ rest) r)"
  proof (cases "ds = [] \<and> fs = []")
    case True
    then show ?thesis using r by auto
  next
    case False
    then obtain e c5 where e: "c4 = Some e # c5" using r by (auto split: list.splits option.splits)
    consider "e = 120 \<or> e = 88" | "e = 101 \<or> e = 69" | "e \<notin> {120, 88, 101, 69}" by blast
    then show ?thesis
    proof cases
      case 2
      then have "do { cs' \<leftarrow> skip_sign c5; (es, cs') \<leftarrow> span_cells is_digit cs'; if es = [] then Some None else Some (Some cs') } = Some r"
        using r False e by auto
      then obtain c6 es c7 where "skip_sign c5 = Some c6" "span_cells is_digit c6 = Some (es, c7)" "r = (if es = [] then None else Some c7)"
        by (auto elim!: bind_SomeE split: if_splits)
      then show ?thesis using 2 False e skip_sign_more [of c5 c6 rest] span_cells_more [of is_digit c6 es c7 rest] by auto
    qed (use r False e in auto)
  qed
  show ?thesis unfolding scan_float_def using ext c4' r' by simp
qed

lemma scan_int_more:
  assumes "scan_int cs = Some r"
  shows "scan_int (cs @ rest) = Some r"
proof -
  let ?hex = "\<lambda>b :: u8. is_digit b \<or> 97 \<le> b \<and> b \<le> 102 \<or> 65 \<le> b \<and> b \<le> 70" and ?oct = "\<lambda>b :: u8. 48 \<le> b \<and> b \<le> 55"
  obtain w c1 where c1: "span_cells is_space cs = Some (w, c1)" using assms unfolding scan_int_def by (auto elim!: bind_SomeE)
  then obtain c2 where c2: "skip_sign c1 = Some c2" using assms unfolding scan_int_def Let_def by (auto elim!: bind_SomeE)
  obtain a d1 where a: "c1 = Some a # d1" using c2 by (auto simp: skip_sign_def split: list.splits option.splits)
  obtain b d2 where b: "c2 = Some b # d2" using assms c1 c2 unfolding scan_int_def Let_def by (auto split: list.splits option.splits)
  note ext = span_cells_more [OF c1, of rest] skip_sign_more [OF c2, of rest]
  show ?thesis
  proof (cases "b = 48")
    case False
    then obtain ds d where "span_cells is_digit c2 = Some (ds, d)"
      using assms c1 c2 a b unfolding scan_int_def Let_def by (auto elim!: bind_SomeE)
    then show ?thesis using assms ext False c1 c2 a b span_cells_more [of is_digit c2 ds d rest]
      unfolding scan_int_def Let_def by (simp split: if_split_asm)
  next
    case True
    then obtain x d3 where x: "d2 = Some x # d3" using assms c1 c2 a b unfolding scan_int_def Let_def by (auto split: list.splits option.splits)
    show ?thesis
    proof (cases "x = 120 \<or> x = 88")
      case hex: True
      then obtain ds d where "span_cells ?hex d3 = Some (ds, d)"
        using assms c1 c2 a b x True unfolding scan_int_def Let_def by (auto elim!: bind_SomeE)
      then show ?thesis using assms ext True hex c1 c2 a b x span_cells_more [of ?hex d3 ds d rest]
        unfolding scan_int_def Let_def by (simp split: if_split_asm)
    next
      case oct: False
      then obtain ds d where "span_cells ?oct d2 = Some (ds, d)"
        using assms c1 c2 a b x True unfolding scan_int_def Let_def by (auto elim!: bind_SomeE)
      then show ?thesis using assms ext True oct c1 c2 a b x span_cells_more [of ?oct d2 ds d rest]
        unfolding scan_int_def Let_def by (simp split: if_split_asm)
    qed
  qed
qed

lemma sscanf_more: "sscanf_f_i cs = Some r \<Longrightarrow> sscanf_f_i (cs @ rest) = Some r"
  unfolding sscanf_f_i_def using scan_float_more [of cs _ rest] scan_int_more [of _ r rest]
  by (auto elim!: bind_SomeE split: option.splits)


text \<open>
  An answer of the peer is contained when every scan of the parser ends inside it: the search for \<open>HTTP/\<close>, the reading of the
  status, the search for the accept header and the reading of its value.  What follows it in memory then does not matter.
\<close>

definition contained :: "u8 list \<Rightarrow> bool" where
  "contained bs \<longleftrightarrow> (case strstr_cells (cstr ''HTTP/'') (map Some bs) of
       None \<Rightarrow> False
     | Some None \<Rightarrow> True
     | Some (Some hs) \<Rightarrow> sscanf_f_i (drop 5 hs) \<noteq> None \<and>
         (case strstr_cells k_rws_socket_sec_websocket_accept (map Some bs) of
            None \<Rightarrow> False
          | Some None \<Rightarrow> True
          | Some (Some ks) \<Rightarrow>
              do { (_, cs) \<leftarrow> span_cells (\<lambda>b. b = 58 \<or> b = 32) (drop (length k_rws_socket_sec_websocket_accept) ks);
                   span_cells (\<lambda>b. b \<noteq> 13 \<and> b \<noteq> 10) cs } \<noteq> None))"

text \<open>The state with a copy of \<open>key\<close> as the accept key; an empty value changes nothing.\<close>

definition with_accept :: "u8 list \<Rightarrow> sys \<Rightarrow> sys" where
  "with_accept key s = (if key = [] then s
     else set_heap ((blocks s)(next_blk s \<mapsto> OBytes (map Some key @ [Some 0]))) (Suc (next_blk s))
       (s\<lparr>sk := (sk s)\<lparr>s_sec_ws_accept := Ptr (next_blk s) 0\<rparr>\<rparr>))"

lemma read_value_ends:
  assumes fresh: "fresh_ok s" and rec: "s_received (sk s) = Ptr b 0" and blk: "blocks s b = Some (OBytes (hs @ cs @ rest))"
    and sep: "span_cells (\<lambda>b. b = 58 \<or> b = 32) cs = Some (sep, ds)" and val: "span_cells (\<lambda>b. b \<noteq> 13 \<and> b \<noteq> 10) ds = Some (key, es)"
  shows "(do { (v, s) \<leftarrow> rws_socket_read_handshake_responce_value (length hs) (s_sec_ws_accept (sk s)) s;
      Some (s\<lparr>sk := (sk s)\<lparr>s_sec_ws_accept := v\<rparr>\<rparr>) }) = Some (with_accept key s)"
proof -
  have cells: "cells_from (Ptr b (length hs)) s = Some (cs @ rest)" using blk by (simp add: cells_from_def)
  have cs: "cs = map Some sep @ map Some key @ es" using span_cells_cells [OF sep] span_cells_cells [OF val] by simp
  have ld: "load (Ptr b (length hs + length sep)) (length key) s = Some (map Some key)"
    using blk by (simp add: load_def cells_from_def cs)
  show ?thesis
    using rec cells span_cells_more [OF sep, of rest] span_cells_more [OF val, of rest]
      rws_string_copy_len_run [OF fresh, of "Ptr b (length hs + length sep)" "length key" "map Some key", OF ld]
    by (simp add: rws_socket_read_handshake_responce_value_def with_accept_def)
qed

lemma process_contained:
  assumes fresh: "fresh_ok s" and err: "s_error (sk s) = NULL" and rec: "s_received (sk s) = Ptr b 0"
    and blk: "blocks s b = Some (OBytes (map Some bs @ rest))" and con: "contained bs"
  shows "rws_socket_process_handshake_responce s = Some (False, s) \<or>
    (\<exists>key. rws_socket_process_handshake_responce s = Some (True, with_accept key s) \<or>
      (\<exists>descr. rws_socket_process_handshake_responce s =
        (do { s \<leftarrow> set_error rws_error_code_parse_handshake (lit descr) (with_accept key s); Some (False, s) }) \<and>
        (descr = ''HTPP code not found or non 101'' \<or> descr = ''Accept key not found'')))"
proof -
  let ?n = "k_rws_socket_sec_websocket_accept" and ?cs = "map Some bs @ rest"
  have cells: "cells_from (Ptr b 0) s = Some ?cs" using blk by (simp add: cells_from_def)
  have start: "clean_error s = Some s" using err by (simp add: run_simps)
  obtain sub where sub: "strstr_cells (cstr ''HTTP/'') (map Some bs) = Some sub" using con by (auto simp: contained_def split: option.splits)
  note sub' = strstr_cells_more [OF sub, of rest]
  show ?thesis
  proof (cases sub)
    case None
    then show ?thesis using sub' start cells rec by (simp add: rws_socket_process_handshake_responce_def)
  next
    case (Some hs)
    then obtain code where code: "sscanf_f_i (drop 5 hs) = Some code" using con sub by (auto simp: contained_def)
    have "5 \<le> length hs" using strstr_cells_suffix [OF sub [unfolded Some]] by (simp add: cstr_def)
    then have code': "sscanf_f_i (drop 5 (hs @ rest)) = Some code" using sscanf_more [OF code, of rest] by simp
    obtain acc where acc: "strstr_cells ?n (map Some bs) = Some acc" using con sub Some by (auto simp: contained_def split: option.splits)
    note acc' = strstr_cells_more [OF acc, of rest]
    obtain key where key: "(case map_option (\<lambda>x. x @ rest) acc of None \<Rightarrow> Some s
        | Some ks \<Rightarrow> do {
            (v, s) \<leftarrow> rws_socket_read_handshake_responce_value (length ?cs - length ks + length ?n) (s_sec_ws_accept (sk s)) s;
            Some (s\<lparr>sk := (sk s)\<lparr>s_sec_ws_accept := v\<rparr>\<rparr>) }) = Some (with_accept key s)"
    proof (cases acc)
      case None
      then show thesis by (intro that [of "[]"]) (simp add: with_accept_def)
    next
      case (Some ks)
      obtain pre where ks: "length ?n \<le> length ks" "map Some bs = pre @ ks" using strstr_cells_suffix [OF acc [unfolded Some]] by blast
      obtain sep ds key es where val: "span_cells (\<lambda>b. b = 58 \<or> b = 32) (drop (length ?n) ks) = Some (sep, ds)"
          "span_cells (\<lambda>b. b \<noteq> 13 \<and> b \<noteq> 10) ds = Some (key, es)"
        using con sub \<open>sub = Some hs\<close> acc Some by (auto simp: contained_def elim!: bind_SomeE)
      have "?cs = (pre @ take (length ?n) ks) @ drop (length ?n) ks @ rest" using ks(2) by simp
      then have at: "blocks s b = Some (OBytes ((pre @ take (length ?n) ks) @ drop (length ?n) ks @ rest))" using blk by simp
      have len: "length ?cs - length (ks @ rest) + length ?n = length (pre @ take (length ?n) ks)" using ks by simp
      show thesis using read_value_ends [OF fresh rec at val] len by (intro that [of key]) (simp add: Some)
    qed
    show ?thesis
      using sub' Some code' acc' key start cells rec
      by (cases "(case code of None \<Rightarrow> -1 | Some c \<Rightarrow> c) = 101"; cases "s_sec_ws_accept (sk (with_accept key s)) = NULL")
        (auto simp: rws_socket_process_handshake_responce_def Let_def)
  qed
qed

lemma accepting_contained:
  assumes "accepting key tail bs"
  shows "contained bs"
proof -
  let ?n = "k_rws_socket_sec_websocket_accept"
  obtain pre c mid sep where r: "pre = cstr ''HTTP/1.1 101'' @ c # mid" "bs = pre @ ?n @ sep @ key @ 13 # tail" "\<not> is_digit c"
      "0 \<notin> set pre" "\<forall>i < length pre. \<not> prefix ?n (drop i bs)"
      "list_all (\<lambda>b. b = 58 \<or> b = 32) sep" "key \<noteq> []" "hd key \<noteq> 58" "hd key \<noteq> 32" "13 \<notin> set key" "10 \<notin> set key"
    using assms unfolding accepting_def by blast
  obtain k ks where key: "key = k # ks" using r(7) by (cases key) auto
  have http: "strstr_cells (cstr ''HTTP/'') (map Some bs) = Some (Some (map Some bs))" by (simp add: r(1,2) cstr_def)
  have status: "sscanf_f_i (drop 5 (map Some bs)) = Some (Some 101)"
    using scan_status [OF r(3), of "mid @ ?n @ sep @ key @ 13 # tail" "[]"] by (simp add: r(1,2))
  have ne: "?n \<noteq> []" by (simp add: k_rws_socket_sec_websocket_accept_def cstr_def)
  have found: "strstr_cells ?n (map Some bs) = Some (Some (map Some (?n @ sep @ key @ 13 # tail)))"
    using strstr_found [OF ne r(4), of "sep @ key @ 13 # tail" "[]"] r(2,5) by simp
  have "span_cells (\<lambda>b. b = 58 \<or> b = 32) (map Some (sep @ key @ 13 # tail)) = Some (sep, map Some (key @ 13 # tail))"
    using span_cells_run [OF r(6), of k "map Some (ks @ 13 # tail)"] r(8,9) key by simp
  moreover have "span_cells (\<lambda>b. b \<noteq> 13 \<and> b \<noteq> 10) (map Some (key @ 13 # tail)) = Some (key, map Some (13 # tail))"
    using span_cells_run [of "\<lambda>b. b \<noteq> 13 \<and> b \<noteq> 10" key 13 "map Some tail"] r(10,11) by (auto simp: list_all_iff)
  ultimately show ?thesis unfolding contained_def using http status found by simp
qed

text \<open>A refusal that carries the header is contained as well.\<close>

lemma refusal_contained: "contained (cstr ''HTTP/1.1 403 No'' @ [13, 10] @ cstr ''Sec-WebSocket-Accept: x'' @ [13, 10])"
  by (simp add: contained_def cstr_def k_rws_socket_sec_websocket_accept_def sscanf_f_i_def scan_float_def scan_int_def skip_sign_def
      is_space_def is_digit_def)

section \<open>The upgrade\<close>

lemma wait_accepting_run:
  assumes ses: "session s E [] D ns Fs xs ms Gs ys" and ok: "recv_ok s"
    and acc: "accepting key tail (recv_data (fst (recv_result s)))"
  obtains s' D' a where "rws_socket_wait_handshake_responce s = Some s'" and "session s' [] [] D' ns Fs xs ms Gs ys"
    and "s_command (sk s') = COMMAND_INFORM_CONNECTED" and "s_is_connected (sk s')" and "s_sec_ws_accept (sk s') = Ptr a 0"
    and "s_socket (sk s') = s_socket (sk s)" and "same_setup ((sk s)\<lparr>s_sec_ws_accept := Ptr a 0\<rparr>) (sk s')"
    and "blocks s' a = Some (OBytes (map Some key @ [Some 0]))" and "next_blk s \<le> a" and "a \<notin> foot [] D' ns Fs ms Gs"
    and "evolves (foot E D ns Fs ms Gs) s (foot [] D' ns Fs ms Gs) s'"
    and "trace s' = trace s" "ev s' = (ev s)\<lparr>env_recv := stl (env_recv (ev s))\<rparr>"
proof -
  let ?bs = "recv_data (fst (recv_result s))"
  have ne: "?bs \<noteq> []" using acc by (auto simp: accepting_def)
  obtain t D' where t: "rws_socket_recv s = Some (True, t)" "session t [] ([] @ ?bs) D' ns Fs xs ms Gs ys"
      "s_command (sk t) = s_command (sk s)" "trace t = trace s" "s_error (sk t) = NULL" "s_socket (sk t) = s_socket (sk s)"
      "s_is_connected (sk t) = s_is_connected (sk s)" "ev t = (ev s)\<lparr>env_recv := stl (env_recv (ev s))\<rparr>"
      "evolves (foot E D ns Fs ms Gs) s (foot [] D' ns Fs ms Gs) t" "same_setup (sk s) (sk t)"
    by (rule recv_session [OF ses ok])
  have st: "fresh_ok t" "buffer_at (blocks t) (sk t) ?bs D'"
    using t(2) by (auto simp: session_def)
  obtain b cs where b: "s_received (sk t) = Ptr b 0" "D' = [b]" "blocks t b = Some (OBytes cs)" "length cs = s_received_size (sk t)"
      "s_received_len (sk t) = length ?bs" "length ?bs \<le> length cs" "take (length ?bs) cs = map Some ?bs"
    using st(2) ne by (cases rule: buffer_at_cases) auto
  have "cs = map Some ?bs @ drop (length ?bs) cs" using append_take_drop_id [of "length ?bs" cs] b(7) by simp
  then have blk: "blocks t b = Some (OBytes (map Some ?bs @ drop (length ?bs) cs))" using b(3) by simp
  let ?a = "next_blk t"
  let ?B = "(blocks t)(?a \<mapsto> OBytes (map Some key @ [Some 0]))"
  let ?u = "set_heap ?B (Suc ?a) (t\<lparr>sk := (sk t)\<lparr>s_sec_ws_accept := Ptr ?a 0\<rparr>\<rparr>)"
  let ?v = "?u\<lparr>sk := (sk ?u)\<lparr>s_received_len := 0, s_is_connected := True, s_command := COMMAND_INFORM_CONNECTED\<rparr>\<rparr>"
  have run: "rws_socket_wait_handshake_responce s = Some ?v"
    using t(1) b(5) ne process_accepting [OF st(1) t(5) b(1) blk acc]
    by (simp add: rws_socket_wait_handshake_responce_def)
  have new: "?a \<notin> foot [] D' ns Fs ms Gs" using session_live(2) [OF t(2), of ?a] by auto
  then have keep: "?B k = blocks t k" if "k \<in> foot [] D' ns Fs ms Gs" for k using that by auto
  have "buffer_at ?B (sk ?v) [] D'" using b keep [of b] by (auto simp: buffer_at_def)
  moreover have "queue_holds ?B (s_recvd_frames (sk t)) ns Fs xs" "queue_holds ?B (s_send_frames (sk t)) ms Gs ys"
    using t(2) keep by (auto simp: session_def intro!: queue_holds_cong [of _ _ ?B "blocks t"])
  moreover have "fresh_ok ?v" using st(1) by (auto simp: fresh_ok_def less_Suc_eq)
  ultimately have "session ?v [] [] D' ns Fs xs ms Gs ys" using t(2,5) by (auto simp: session_def)
  moreover have "next_blk s \<le> ?a" using t(9) by (simp add: evolves_def)
  moreover have "evolves (foot E D ns Fs ms Gs) s (foot [] D' ns Fs ms Gs) ?v"
    using t(9) by (rule evolves_trans) (simp add: evolves_def)
  ultimately show thesis using run new t(4,6,8,10)
    by (intro that [of ?v D' ?a]) (simp_all add: same_setup_def)
qed

text \<open>C18: A successful handshake.  When the response carries version 1.1, status 101 and an accept header
  with a non-empty value, the socket is connected, the value is kept as the accept key and the
  application is informed next.  The value is not compared with anything, so every \<open>key\<close> is
  accepted, and all bytes that arrived behind the header, frames of the peer included, are dropped.
  What is waiting in the queues stays.\<close>

theorem handshake_accepts_any_key:
  assumes "session s E [] D ns Fs xs ms Gs ys" and "recv_ok s"
    and "accepting key tail (recv_data (fst (recv_result s)))"
  shows "\<exists>s' D' a. rws_socket_wait_handshake_responce s = Some s' \<and> s_command (sk s') = COMMAND_INFORM_CONNECTED \<and>
    s_is_connected (sk s') \<and> s_sec_ws_accept (sk s') = Ptr a 0 \<and>
    blocks s' a = Some (OBytes (map Some key @ [Some 0])) \<and> session s' [] [] D' ns Fs xs ms Gs ys"
  by (rule wait_accepting_run [OF assms]) blast

theorem handshake_accepts_any_key_witness:
  "\<exists>s' a. rws_socket_wait_handshake_responce (sys_of [] (zero_socket\<lparr>s_socket := 3\<rparr>)
      (quiet_env\<lparr>env_recv := ([cstr ''HTTP/1.1 101 OK'' @ [13, 10] @ cstr ''Sec-WebSocket-Accept: x'' @ [13, 10, 13, 10, 129]], EAGAIN) ## sconst ([], EAGAIN)\<rparr>)) = Some s' \<and>
     s_is_connected (sk s') \<and> s_sec_ws_accept (sk s') = Ptr a 0 \<and> blocks s' a = Some (OBytes [Some 120, Some 0]) \<and> s_received_len (sk s') = 0"
proof -
  let ?bs = "cstr ''HTTP/1.1 101 OK'' @ [13, 10] @ cstr ''Sec-WebSocket-Accept: x'' @ [13, 10, 13, 10, 129]"
  let ?s = "sys_of [] (zero_socket\<lparr>s_socket := 3\<rparr>) (quiet_env\<lparr>env_recv := ([?bs], EAGAIN) ## sconst ([], EAGAIN)\<rparr>)"
  have ses: "session ?s [] [] [] [] [] [] [] [] []"
    by (simp add: session_def buffer_at_def zero_socket_def queue_blks_def)
  have ok: "recv_ok ?s" and got: "recv_data (fst (recv_result ?s)) = ?bs"
    by (simp_all add: recv_ok_def recv_result_def zero_socket_def cstr_def)
  have "accepting [120] [10, 13, 10, 129] ?bs"
    unfolding accepting_def
    by (rule exI, rule exI [of _ 32], rule exI [of _ "[79, 75, 13, 10]"], rule exI [of _ "[58, 32]"], intro conjI, rule refl)
      (simp_all add: k_rws_socket_sec_websocket_accept_def cstr_def is_digit_def All_less_Suc)
  with got have "accepting [120] [10, 13, 10, 129] (recv_data (fst (recv_result ?s)))" by simp
  from handshake_accepts_any_key [OF ses ok this] show ?thesis
    by (fastforce simp: session_def dest: buffer_at_len)
qed

text \<open>C38: An incomplete response is read past its end.  When no NUL has been received and the accept
  header is not among the bytes received so far (because it is missing or the network has split the
  response), the search runs on behind them, off the block or into uninitialised memory.\<close>

theorem handshake_reads_past_end:
  assumes "s_error (sk s) = NULL" and "s_received (sk s) = Ptr b 0" and "blocks s b = Some (OBytes (map Some bs @ rest))"
    and "no_more rest" and "0 \<notin> set bs" and "\<not> sublist k_rws_socket_sec_websocket_accept bs"
  shows "rws_socket_process_handshake_responce s = None"
proof -
  let ?n = "k_rws_socket_sec_websocket_accept" and ?cs = "map Some bs @ rest"
  have cells: "cells_from (Ptr b 0) s = Some ?cs" using assms(3) by (simp add: cells_from_def)
  have "?n \<noteq> []" by (simp add: k_rws_socket_sec_websocket_accept_def cstr_def)
  then have none: "strstr_cells ?n ?cs = None" using assms(4-6) by (intro strstr_overread)
  have "strstr_cells needle ?cs \<noteq> Some None" if "needle \<noteq> []" for needle
    using assms(4,5)
  proof (induction bs)
    case Nil
    then show ?case by (cases rest) (auto simp: no_more_def)
  next
    case (Cons a bs)
    then show ?case by (cases "match_cells needle (Some a # map Some bs @ rest)") auto
  qed
  then have "strstr_cells (cstr ''HTTP/'') ?cs \<noteq> Some None" by (simp add: cstr_def)
  then show ?thesis using none
    by (cases "strstr_cells (cstr ''HTTP/'') ?cs")
      (auto simp: rws_socket_process_handshake_responce_def assms(1,2) run_simps cells split: option.splits)
qed


theorem handshake_reads_past_end_witness:
  "rws_socket_process_handshake_responce (sys_of [OBytes (map Some (cstr ''HTTP/1.1 101 OK'') @ [None])]
     (zero_socket\<lparr>s_received := Ptr 0 0, s_received_len := 15\<rparr>) quiet_env) = None"
proof -
  let ?s = "sys_of [OBytes (map Some (cstr ''HTTP/1.1 101 OK'') @ [None])]
     (zero_socket\<lparr>s_received := Ptr 0 0, s_received_len := 15\<rparr>) quiet_env"
  have "length k_rws_socket_sec_websocket_accept = 20" "length (cstr ''HTTP/1.1 101 OK'') = 15"
    by (simp_all add: k_rws_socket_sec_websocket_accept_def cstr_def)
  then have "\<not> sublist k_rws_socket_sec_websocket_accept (cstr ''HTTP/1.1 101 OK'')"
    using sublist_length_le [of k_rws_socket_sec_websocket_accept "cstr ''HTTP/1.1 101 OK''"] by auto
  then show ?thesis
    by (intro handshake_reads_past_end [of ?s 0 "cstr ''HTTP/1.1 101 OK''" "[None]"])
      (simp_all add: no_more_def zero_socket_def cstr_def)
qed

end
