(* ===== verification/Rws_Connect.thy ===== *)
theory Rws_Connect
  imports Rws_Handshake
begin

text \<open>
  Name resolution and connection (\<open>rws_socketpriv.c\<close>, the POSIX branches).  The address list is its
  length: the code only walks it.  Delays (\<open>rws_thread_sleep\<close>) and socket options have no effect on
  the state.
\<close>

definition RWS_CONNECT_ATTEMPS :: nat where
  "RWS_CONNECT_ATTEMPS = 5"

section \<open>System calls\<close>

definition sys_getaddrinfo :: "sys \<Rightarrow> int \<times> nat \<times> sys" where
  "sys_getaddrinfo s =
     (let (ret, result) = shd (env_addrinfo (ev s))
      in (ret, result, s\<lparr>ev := (ev s)\<lparr>env_addrinfo := stl (env_addrinfo (ev s))\<rparr>\<rparr>))"

definition sys_socket :: "sys \<Rightarrow> int \<times> sys" where
  "sys_socket s = (shd (env_socket (ev s)), s\<lparr>ev := (ev s)\<lparr>env_socket := stl (env_socket (ev s))\<rparr>\<rparr>)"

definition sys_connect :: "sys \<Rightarrow> bool \<times> sys" where
  "sys_connect s = (shd (env_connect (ev s)), s\<lparr>ev := (ev s)\<lparr>env_connect := stl (env_connect (ev s))\<rparr>\<rparr>)"

section \<open>Operations\<close>

text \<open>The loop \<open>while (++retry_number < RWS_CONNECT_ATTEMPS)\<close> around \<open>getaddrinfo\<close>.\<close>

function getaddr_loop :: "nat \<Rightarrow> int \<Rightarrow> sys \<Rightarrow> nat \<times> int \<times> sys" where
  "getaddr_loop retry_number last_ret s =
     (let retry_number = Suc retry_number
      in if retry_number < RWS_CONNECT_ATTEMPS then
           (let (ret, result, s) = sys_getaddrinfo s
            in if ret = 0 \<and> result \<noteq> 0 then (result, last_ret, s)
               else getaddr_loop retry_number (if ret \<noteq> 0 then ret else last_ret) s)
         else (0, last_ret, s))"
  by pat_completeness auto
termination
  by (relation "measure (\<lambda>(r, _). RWS_CONNECT_ATTEMPS - r)") auto

declare getaddr_loop.simps [simp del]

definition rws_socket_connect_getaddr_info :: "sys \<Rightarrow> (nat \<times> sys) option" where
  "rws_socket_connect_getaddr_info s = do {
     s \<leftarrow> clean_error s;
     let (result, last_ret, s) = getaddr_loop 0 0 s;
     if result \<noteq> 0 then Some (result, s)
     else do {
       s \<leftarrow> set_error rws_error_code_connect_to_host
            (if 0 < last_ret then c_message (env_gai_strerror (ev s) last_ret)
             else lit ''Failed connect to host'') s;
       Some (0, s\<lparr>sk := (sk s)\<lparr>s_command := COMMAND_INFORM_DISCONNECTED\<rparr>\<rparr>) } }"

text \<open>
  The \<open>for\<close> loop over the addresses: the last value of \<open>sock\<close> and the state.  After a failed
  \<open>connect\<close> the descriptor is closed, and \<open>sock\<close> keeps its value.
\<close>

fun try_addresses :: "nat \<Rightarrow> int \<Rightarrow> sys \<Rightarrow> int \<times> sys" where
  "try_addresses 0 sock s = (sock, s)"
| "try_addresses (Suc p) sock s =
     (let (sock, s) = sys_socket s
      in if sock \<noteq> RWS_INVALID_SOCKET then
           (let (ok, s) = sys_connect s
            in if ok then (sock, s\<lparr>sk := (sk s)\<lparr>s_received_len := 0, s_socket := sock\<rparr>\<rparr>)
               else try_addresses p sock (s\<lparr>trace := trace s @ [Closed sock]\<rparr>))
         else try_addresses p sock s)"

function connect_loop :: "nat \<Rightarrow> int \<Rightarrow> nat \<Rightarrow> sys \<Rightarrow> sys" where
  "connect_loop retry_number sock result s =
     (let retry_number = Suc retry_number
      in if retry_number < RWS_CONNECT_ATTEMPS \<and> sock = RWS_INVALID_SOCKET then
           (let (sock, s) = try_addresses result sock s
            in connect_loop retry_number sock result s)
         else s)"
  by pat_completeness auto
termination
  by (relation "measure (\<lambda>(r, _). RWS_CONNECT_ATTEMPS - r)") auto

declare connect_loop.simps [simp del]

definition rws_socket_connect_to_host :: "sys \<Rightarrow> sys option" where
  "rws_socket_connect_to_host s = do {
     (result, s) \<leftarrow> rws_socket_connect_getaddr_info s;
     if result = 0 then Some s
     else do {
       let s = connect_loop 0 RWS_INVALID_SOCKET result s;
       if s_socket (sk s) = RWS_INVALID_SOCKET then do {
         s \<leftarrow> set_error rws_error_code_connect_to_host (lit ''Failed connect to host'') s;
         Some (s\<lparr>sk := (sk s)\<lparr>s_command := COMMAND_INFORM_DISCONNECTED\<rparr>\<rparr>) }
       else Some (s\<lparr>sk := (sk s)\<lparr>s_command := COMMAND_SEND_HANDSHAKE\<rparr>\<rparr>) } }"

section \<open>Behaviour\<close>

text \<open>
  \<open>went s s' fds kept\<close>: between \<open>s\<close> and \<open>s'\<close> some calls of \<open>socket\<close> were made; of the
  descriptors they returned, \<open>fds\<close> were closed again and \<open>kept\<close>, the last, is the socket's now.
\<close>

definition went :: "sys \<Rightarrow> sys \<Rightarrow> int list \<Rightarrow> int option \<Rightarrow> bool" where
  "went s s' fds kept \<longleftrightarrow> blocks s' = blocks s \<and> next_blk s' = next_blk s \<and>
     trace s' = trace s @ map Closed fds \<and>
     sk s' = (case kept of None \<Rightarrow> sk s | Some fd \<Rightarrow> (sk s)\<lparr>s_received_len := 0, s_socket := fd\<rparr>) \<and>
     (\<exists>k. env_socket (ev s') = sdrop k (env_socket (ev s)) \<and>
       filter (\<lambda>fd. fd \<noteq> RWS_INVALID_SOCKET) (stake k (env_socket (ev s))) = fds @ (case kept of None \<Rightarrow> [] | Some fd \<Rightarrow> [fd]))"

lemma went_refl: "went s s [] None"
  by (auto simp: went_def intro!: exI [of _ 0])

lemma went_trans:
  assumes "went s t fds None" and "went t u gds kept"
  shows "went s u (fds @ gds) kept"
proof -
  obtain k where k: "env_socket (ev t) = sdrop k (env_socket (ev s))"
      "filter (\<lambda>fd. fd \<noteq> RWS_INVALID_SOCKET) (stake k (env_socket (ev s))) = fds"
    using assms(1) by (auto simp: went_def)
  obtain l where l: "env_socket (ev u) = sdrop l (env_socket (ev t))"
      "filter (\<lambda>fd. fd \<noteq> RWS_INVALID_SOCKET) (stake l (env_socket (ev t))) = gds @ (case kept of None \<Rightarrow> [] | Some fd \<Rightarrow> [fd])"
    using assms(2) by (auto simp: went_def)
  have "env_socket (ev u) = sdrop (k + l) (env_socket (ev s))"
    using k(1) l(1) by (simp add: sdrop_add)
  moreover have "filter (\<lambda>fd. fd \<noteq> RWS_INVALID_SOCKET) (stake (k + l) (env_socket (ev s))) =
      (fds @ gds) @ (case kept of None \<Rightarrow> [] | Some fd \<Rightarrow> [fd])"
    by (simp only: stake_add [of k "env_socket (ev s)" l, symmetric] filter_append k(2) l(2) [unfolded k(1)] append_assoc)
  moreover have "blocks u = blocks s" "next_blk u = next_blk s" "trace u = trace s @ map Closed (fds @ gds)" "sk t = sk s"
      "sk u = (case kept of None \<Rightarrow> sk t | Some fd \<Rightarrow> (sk t)\<lparr>s_received_len := 0, s_socket := fd\<rparr>)"
    using assms by (simp_all add: went_def)
  ultimately show ?thesis unfolding went_def by metis
qed

text \<open>One address: the call of \<open>socket\<close>, and of \<open>connect\<close> if there is a descriptor.\<close>

lemma went_no_socket:
  assumes "sys_socket s = (RWS_INVALID_SOCKET, s1)"
  shows "went s s1 [] None"
  using assms by (auto simp: went_def sys_socket_def intro!: exI [of _ 1])

lemma went_refused:
  assumes "sys_socket s = (fd, s1)" and "fd \<noteq> RWS_INVALID_SOCKET" and "sys_connect s1 = (False, s2)"
  shows "went s (s2\<lparr>trace := trace s2 @ [Closed fd]\<rparr>) [fd] None"
  using assms by (auto simp: went_def sys_socket_def sys_connect_def intro!: exI [of _ 1])

lemma went_connected:
  assumes "sys_socket s = (fd, s1)" and "fd \<noteq> RWS_INVALID_SOCKET" and "sys_connect s1 = (True, s2)"
  shows "went s (s2\<lparr>sk := (sk s2)\<lparr>s_received_len := 0, s_socket := fd\<rparr>\<rparr>) [] (Some fd)"
  using assms by (auto simp: went_def sys_socket_def sys_connect_def intro!: exI [of _ 1])

lemma try_addresses_run:
  "\<exists>sock' s' fds kept. try_addresses p sock s = (sock', s') \<and> went s s' fds kept \<and> (\<forall>fd. kept = Some fd \<longrightarrow> fd \<noteq> RWS_INVALID_SOCKET \<and> sock' = fd)"
proof (induction p arbitrary: sock s)
  case 0
  then show ?case using went_refl by auto
next
  case (Suc p)
  obtain fd s1 where fd: "sys_socket s = (fd, s1)" by (cases "sys_socket s")
  obtain ok s2 where ok: "sys_connect s1 = (ok, s2)" by (cases "sys_connect s1")
  define t where "t = (if fd = RWS_INVALID_SOCKET then s1 else s2\<lparr>trace := trace s2 @ [Closed fd]\<rparr>)"
  show ?case
  proof (cases "fd \<noteq> RWS_INVALID_SOCKET \<and> ok")
    case True
    then show ?thesis using fd ok went_connected [OF fd] by (intro exI [of _ fd]) auto
  next
    case False
    then have t: "\<exists>gds. went s t gds None" "try_addresses (Suc p) sock s = try_addresses p fd t"
      using fd ok went_no_socket [of s s1] went_refused [OF fd, of s2] by (auto simp: t_def)
    then show ?thesis using Suc.IH [of fd t] went_trans by metis
  qed
qed

lemma connect_loop_run:
  "s_socket (sk s) = RWS_INVALID_SOCKET \<Longrightarrow>
   \<exists>s' fds kept. connect_loop r sock n s = s' \<and> went s s' fds kept \<and> (\<forall>fd. kept = Some fd \<longrightarrow> fd \<noteq> RWS_INVALID_SOCKET)"
proof (induction r sock n s rule: connect_loop.induct)
  case (1 r sock n s)
  show ?case
  proof (cases "Suc r < RWS_CONNECT_ATTEMPS \<and> sock = RWS_INVALID_SOCKET")
    case True
    obtain sock' s1 fds kept where t: "try_addresses n sock s = (sock', s1)" "went s s1 fds kept"
        "\<forall>fd. kept = Some fd \<longrightarrow> fd \<noteq> RWS_INVALID_SOCKET \<and> sock' = fd"
      using try_addresses_run by metis
    show ?thesis
    proof (cases kept)
      case None
      then have "s_socket (sk s1) = RWS_INVALID_SOCKET" using t(2) 1(2) by (simp add: went_def)
      from 1(1) [OF refl True refl t(1) [symmetric] this] went_trans t(2) None show ?thesis
        using True t(1) by (subst connect_loop.simps) (auto, metis)
    next
      case (Some fd)
      then have "connect_loop (Suc r) sock' n s1 = s1" using t(3) by (subst connect_loop.simps) simp
      then show ?thesis using True t Some by (subst connect_loop.simps) auto
    qed
  next
    case False
    then show ?thesis using went_refl by (subst connect_loop.simps) auto
  qed
qed


section \<open>Name resolution\<close>

definition resolved :: "int \<times> nat \<Rightarrow> bool" where
  "resolved a \<longleftrightarrow> fst a = 0 \<and> snd a \<noteq> 0"

text \<open>The error code of the last failed call that has one.\<close>

definition last_error :: "int \<Rightarrow> (int \<times> nat) list \<Rightarrow> int" where
  "last_error l xs = fold (\<lambda>a l. if fst a \<noteq> 0 then fst a else l) xs l"

lemma getaddr_loop_run:
  fixes s :: sys
  defines "xs \<equiv> \<lambda>r s. stake (4 - r) (env_addrinfo (ev s))"
  shows "r \<le> 4 \<Longrightarrow> getaddr_loop r l s =
    (case find resolved (xs r s) of None \<Rightarrow> 0 | Some a \<Rightarrow> snd a,
     last_error l (takeWhile (Not \<circ> resolved) (xs r s)),
     s\<lparr>ev := (ev s)\<lparr>env_addrinfo := sdrop (min (4 - r) (Suc (length (takeWhile (Not \<circ> resolved) (xs r s))))) (env_addrinfo (ev s))\<rparr>\<rparr>)"
proof (induction "4 - r" arbitrary: r l s)
  case 0
  then show ?case by (subst getaddr_loop.simps) (simp add: RWS_CONNECT_ATTEMPS_def xs_def last_error_def)
next
  case (Suc k)
  then have r: "r < 4" "4 - r = Suc (4 - Suc r)" by simp_all
  obtain a as where a: "env_addrinfo (ev s) = a ## as" by (metis stream.collapse)
  define t where "t = s\<lparr>ev := (ev s)\<lparr>env_addrinfo := as\<rparr>\<rparr>"
  have call: "sys_getaddrinfo s = (fst a, snd a, t)" by (simp add: sys_getaddrinfo_def a t_def case_prod_beta Let_def)
  have one: "xs r s = a # xs (Suc r) t" unfolding xs_def r(2) by (simp add: a t_def)
  show ?case
  proof (cases "resolved a")
    case True
    then show ?thesis using r(1) call one
      by (subst getaddr_loop.simps) (simp add: RWS_CONNECT_ATTEMPS_def resolved_def last_error_def a t_def r(2))
  next
    case False
    have "getaddr_loop r l s = getaddr_loop (Suc r) (if fst a \<noteq> 0 then fst a else l) t"
      using r(1) call False by (subst getaddr_loop.simps) (auto simp: RWS_CONNECT_ATTEMPS_def resolved_def)
    also have "\<dots> = (case find resolved (xs (Suc r) t) of None \<Rightarrow> 0 | Some a \<Rightarrow> snd a,
        last_error (if fst a \<noteq> 0 then fst a else l) (takeWhile (Not \<circ> resolved) (xs (Suc r) t)),
        t\<lparr>ev := (ev t)\<lparr>env_addrinfo := sdrop (min (4 - Suc r) (Suc (length (takeWhile (Not \<circ> resolved) (xs (Suc r) t))))) (env_addrinfo (ev t))\<rparr>\<rparr>)"
      using Suc r by (intro Suc.hyps(1)) simp_all
    finally show ?thesis using False by (simp add: one t_def a last_error_def r(2))
  qed
qed


section \<open>Properties\<close>

lemma error_code_sk [simp]: "rws_error_get_code p (s\<lparr>sk := k\<rparr>) = rws_error_get_code p s"
  by (simp add: rws_error_get_code_def get_err_def obj_at_def split: ptr.splits)

lemma clean_error_fields:
  assumes "err_own s D" and "fresh_ok s"
  obtains t where "clean_error s = Some t" and "fresh_ok t" and "sk t = (sk s)\<lparr>s_error := NULL\<rparr>" "ev t = ev s" "trace t = trace s"
  using clean_error_run [OF assms(1)] assms(2) by (auto simp: fresh_ok_def)

lemma set_error_fields:
  assumes "fresh_ok s" and "c_string descr bs s"
  obtains t where "set_error code descr s = Some t" and "rws_error_get_code (s_error (sk t)) t = Some code"
    and "sk t = (sk s)\<lparr>s_error := Ptr (next_blk s) 0\<rparr>" "ev t = ev s" "trace t = trace s" "fresh_ok t"
proof -
  obtain B n D where r: "set_error code descr s = Some (set_heap B n (s\<lparr>sk := (sk s)\<lparr>s_error := Ptr (next_blk s) 0\<rparr>\<rparr>))"
    "error_at (Ptr (next_blk s) 0) code D (set_heap B n (s\<lparr>sk := (sk s)\<lparr>s_error := Ptr (next_blk s) 0\<rparr>\<rparr>))"
    "fresh_ok (set_heap B n (s\<lparr>sk := (sk s)\<lparr>s_error := Ptr (next_blk s) 0\<rparr>\<rparr>))"
    by (rule set_error_run [OF assms]) (rule that; blast)
  show thesis by (rule that [OF r(1)]) (use r(3) in \<open>simp_all add: error_at_code [OF r(2), simplified]\<close>)
qed

lemma getaddr_resolved:
  assumes "fresh_ok s" and "err_own s D" and "find resolved (stake 4 (env_addrinfo (ev s))) = Some a"
  obtains t as where "rws_socket_connect_getaddr_info s = Some (snd a, t)" and "0 < snd a" and "sk t = (sk s)\<lparr>s_error := NULL\<rparr>"
    and "ev t = (ev s)\<lparr>env_addrinfo := as\<rparr>" and "trace t = trace s"
proof -
  obtain t where t: "clean_error s = Some t" "fresh_ok t" "sk t = (sk s)\<lparr>s_error := NULL\<rparr>" "ev t = ev s" "trace t = trace s"
    by (rule clean_error_fields [OF assms(2,1)])
  obtain e as where "getaddr_loop 0 0 t = (snd a, e, t\<lparr>ev := (ev s)\<lparr>env_addrinfo := as\<rparr>\<rparr>)"
    using getaddr_loop_run [of 0 0 t] t(4) assms(3) by simp
  moreover have "0 < snd a" using assms(3) by (auto simp: find_Some_iff resolved_def)
  ultimately show thesis
    using t by (intro that [of "t\<lparr>ev := (ev s)\<lparr>env_addrinfo := as\<rparr>\<rparr>"]) (simp_all add: rws_socket_connect_getaddr_info_def)
qed

lemma getaddr_run:
  assumes "fresh_ok s" and "err_own s D"
  shows "\<exists>n s'. rws_socket_connect_getaddr_info s = Some (n, s') \<and>
    env_addrinfo (ev s') = sdrop (min 4 (Suc (length (takeWhile (Not \<circ> resolved) (stake 4 (env_addrinfo (ev s))))))) (env_addrinfo (ev s)) \<and>
    (case find resolved (stake 4 (env_addrinfo (ev s))) of
       Some a \<Rightarrow> n = snd a \<and> s_error (sk s') = NULL \<and> s_command (sk s') = s_command (sk s)
     | None \<Rightarrow> n = 0 \<and> rws_error_get_code (s_error (sk s')) s' = Some rws_error_code_connect_to_host \<and>
         s_command (sk s') = COMMAND_INFORM_DISCONNECTED) \<and>
    fresh_ok s' \<and> s_socket (sk s') = s_socket (sk s) \<and> env_socket (ev s') = env_socket (ev s) \<and>
    env_connect (ev s') = env_connect (ev s) \<and> trace s' = trace s"
proof -
  obtain t where t: "clean_error s = Some t" "fresh_ok t" "sk t = (sk s)\<lparr>s_error := NULL\<rparr>" "ev t = ev s" "trace t = trace s"
    by (rule clean_error_fields [OF assms(2,1)])
  define xs where "xs = stake 4 (env_addrinfo (ev s))"
  define e where "e = last_error 0 (takeWhile (Not \<circ> resolved) xs)"
  define u where "u = t\<lparr>ev := (ev s)\<lparr>env_addrinfo := sdrop (min 4 (Suc (length (takeWhile (Not \<circ> resolved) xs)))) (env_addrinfo (ev s))\<rparr>\<rparr>"
  have loop: "getaddr_loop 0 0 t = (case find resolved xs of None \<Rightarrow> 0 | Some a \<Rightarrow> snd a, e, u)"
    using getaddr_loop_run [of 0 0 t] t(4) by (simp add: xs_def e_def u_def)
  show ?thesis
  proof (cases "find resolved xs")
    case None
    define d where "d = (if 0 < e then c_message (env_gai_strerror (ev u) e) else lit ''Failed connect to host'')"
    have "\<exists>bs. c_string d bs u"
      unfolding d_def by (cases "0 < e") (auto intro!: exI c_string_message c_string_lit)
    then obtain bs where str: "c_string d bs u" ..
    have fu: "fresh_ok u" using t(2) by (simp add: u_def)
    obtain v where v: "set_error rws_error_code_connect_to_host d u = Some v"
        "rws_error_get_code (s_error (sk v)) v = Some rws_error_code_connect_to_host" "ev v = ev u"
        "sk v = (sk u)\<lparr>s_error := Ptr (next_blk u) 0\<rparr>" "trace v = trace u" "fresh_ok v"
      by (rule set_error_fields [OF fu str])
    then show ?thesis using None t(1,3,5) loop
      by (simp add: rws_socket_connect_getaddr_info_def d_def [symmetric] xs_def [symmetric])
        (simp add: u_def)
  next
    case (Some a)
    then have "resolved a" by (auto simp: find_Some_iff)
    then show ?thesis using Some t loop
      by (simp add: rws_socket_connect_getaddr_info_def xs_def [symmetric] resolved_def) (simp add: u_def)
  qed
qed

text \<open>No address has been reached: the error is set and the thread told to report the end.\<close>

lemma connect_none:
  assumes "rws_socket_connect_getaddr_info s = Some (n, t)" "n \<noteq> 0" "connect_loop 0 RWS_INVALID_SOCKET n t = u"
    and "fresh_ok u" "s_socket (sk u) = RWS_INVALID_SOCKET"
  obtains s' where "rws_socket_connect_to_host s = Some s'" and "s_socket (sk s') = RWS_INVALID_SOCKET"
    and "s_command (sk s') = COMMAND_INFORM_DISCONNECTED" and "rws_error_get_code (s_error (sk s')) s' = Some rws_error_code_connect_to_host"
    and "ev s' = ev u" "trace s' = trace u"
proof -
  have str: "c_string (lit ''Failed connect to host'') (cstr ''Failed connect to host'') u" by (intro c_string_lit) simp
  obtain v where v: "set_error rws_error_code_connect_to_host (lit ''Failed connect to host'') u = Some v"
      "rws_error_get_code (s_error (sk v)) v = Some rws_error_code_connect_to_host"
      "sk v = (sk u)\<lparr>s_error := Ptr (next_blk u) 0\<rparr>" "ev v = ev u" "trace v = trace u" "fresh_ok v"
    by (rule set_error_fields [OF assms(4) str])
  then show thesis using assms
    by (intro that [of "v\<lparr>sk := (sk v)\<lparr>s_command := COMMAND_INFORM_DISCONNECTED\<rparr>\<rparr>"]) (simp_all add: rws_socket_connect_to_host_def)
qed

text \<open>C13: Connecting always ends, and no descriptor is lost.  Either the socket holds a valid descriptor
  and the handshake follows, or it holds none, the error code is 5 and the thread is told to inform
  about the disconnection.  Of the descriptors that \<open>socket\<close> returned, all but the one kept are closed
  exactly once, in order.\<close>

theorem connect_outcome:
  assumes "fresh_ok s" and "err_own s D" and "s_socket (sk s) = RWS_INVALID_SOCKET"
  shows "\<exists>s' fds kept k. rws_socket_connect_to_host s = Some s' \<and> trace s' = trace s @ map Closed fds \<and>
    filter (\<lambda>fd. fd \<noteq> RWS_INVALID_SOCKET) (stake k (env_socket (ev s))) = fds @ (case kept of None \<Rightarrow> [] | Some fd \<Rightarrow> [fd]) \<and>
    env_socket (ev s') = sdrop k (env_socket (ev s)) \<and>
    (case kept of
       Some fd \<Rightarrow> fd \<noteq> RWS_INVALID_SOCKET \<and> s_socket (sk s') = fd \<and> s_command (sk s') = COMMAND_SEND_HANDSHAKE \<and>
         s_received_len (sk s') = 0 \<and> s_error (sk s') = NULL
     | None \<Rightarrow> s_socket (sk s') = RWS_INVALID_SOCKET \<and> s_command (sk s') = COMMAND_INFORM_DISCONNECTED \<and>
         rws_error_get_code (s_error (sk s')) s' = Some rws_error_code_connect_to_host)"
proof -
  let ?x = "find resolved (stake 4 (env_addrinfo (ev s)))"
  obtain n t where t: "rws_socket_connect_getaddr_info s = Some (n, t)" "fresh_ok t"
      "case ?x of Some a \<Rightarrow> n = snd a \<and> s_error (sk t) = NULL \<and> s_command (sk t) = s_command (sk s)
        | None \<Rightarrow> n = 0 \<and> rws_error_get_code (s_error (sk t)) t = Some rws_error_code_connect_to_host \<and>
           s_command (sk t) = COMMAND_INFORM_DISCONNECTED"
      "s_socket (sk t) = s_socket (sk s)" "env_socket (ev t) = env_socket (ev s)" "trace t = trace s"
    using getaddr_run [OF assms(1,2)] by blast
  have "resolved a" if "?x = Some a" for a using that by (auto simp: find_Some_iff)
  then have none: "?x = None \<longleftrightarrow> n = 0" using t(3) by (cases ?x) (auto simp: resolved_def)
  show ?thesis
  proof (cases "n = 0")
    case True
    then show ?thesis using t assms(3) none
      by (intro exI [of _ t] exI [of _ "[]"] exI [of _ None] exI [of _ 0]) (simp add: rws_socket_connect_to_host_def)
  next
    case False
    have "s_socket (sk t) = RWS_INVALID_SOCKET" using t(4) assms(3) by simp
    from connect_loop_run [OF this, of 0 RWS_INVALID_SOCKET n]
    obtain u fds kept where u: "connect_loop 0 RWS_INVALID_SOCKET n t = u" "went t u fds kept"
        "\<forall>fd. kept = Some fd \<longrightarrow> fd \<noteq> RWS_INVALID_SOCKET" by blast
    then obtain k where k: "env_socket (ev u) = sdrop k (env_socket (ev s))"
        "filter (\<lambda>fd. fd \<noteq> RWS_INVALID_SOCKET) (stake k (env_socket (ev s))) = fds @ (case kept of None \<Rightarrow> [] | Some fd \<Rightarrow> [fd])"
      using t(5) by (auto simp: went_def)
    have tr: "trace u = trace s @ map Closed fds" using u(2) t(6) by (simp add: went_def)
    show ?thesis
    proof (cases kept)
      case None
      have fu: "fresh_ok u" "s_socket (sk u) = RWS_INVALID_SOCKET"
        using u(2) None t(2,4) assms(3) by (simp_all add: went_def fresh_ok_def)
      obtain v where "rws_socket_connect_to_host s = Some v" "s_socket (sk v) = RWS_INVALID_SOCKET"
          "s_command (sk v) = COMMAND_INFORM_DISCONNECTED" "rws_error_get_code (s_error (sk v)) v = Some rws_error_code_connect_to_host"
          "ev v = ev u" "trace v = trace u"
        by (rule connect_none [OF t(1) False u(1) fu])
      then show ?thesis using k tr None by (intro exI [of _ v] exI [of _ fds] exI [of _ kept] exI [of _ k]) simp
    next
      case (Some fd)
      then have "fd \<noteq> RWS_INVALID_SOCKET" "sk u = (sk t)\<lparr>s_received_len := 0, s_socket := fd\<rparr>"
        using u(2,3) by (simp_all add: went_def)
      moreover have "s_error (sk t) = NULL" using t(3) none False by (auto split: option.splits)
      ultimately show ?thesis using t(1) False u(1) k tr Some
        by (intro exI [of _ "u\<lparr>sk := (sk u)\<lparr>s_command := COMMAND_SEND_HANDSHAKE\<rparr>\<rparr>"] exI [of _ fds] exI [of _ kept] exI [of _ k])
          (simp add: rws_socket_connect_to_host_def)
    qed
  qed
qed


theorem connect_outcome_witness:
  "\<exists>s'. rws_socket_connect_to_host (sys_of [] (zero_socket\<lparr>s_socket := -1\<rparr>)
      (quiet_env\<lparr>env_addrinfo := sconst (0, 2), env_socket := [7, 8] @- sconst (-1), env_connect := [False, True] @- sconst False\<rparr>)) = Some s' \<and>
     (s_socket (sk s') = -1 \<or> s_command (sk s') = COMMAND_SEND_HANDSHAKE)"
proof -
  let ?s = "sys_of [] (zero_socket\<lparr>s_socket := -1\<rparr>)
      (quiet_env\<lparr>env_addrinfo := sconst (0, 2), env_socket := [7, 8] @- sconst (-1), env_connect := [False, True] @- sconst False\<rparr>)"
  have "err_own ?s []" "s_socket (sk ?s) = -1" by (simp_all add: zero_socket_def)
  from connect_outcome [OF _ this] show ?thesis by (auto split: option.splits)
qed

text \<open>The addresses are tried in order; the first that accepts is kept, those before it are closed.\<close>

lemma try_accepted:
  "length fds < n \<Longrightarrow> RWS_INVALID_SOCKET \<notin> set (fds @ [fd]) \<Longrightarrow> env_socket (ev s) = (fds @ [fd]) @- socks \<Longrightarrow>
   env_connect (ev s) = (map (\<lambda>_. False) fds @ [True]) @- oks \<Longrightarrow>
   try_addresses n sock s = (fd, s\<lparr>ev := (ev s)\<lparr>env_socket := socks, env_connect := oks\<rparr>, trace := trace s @ map Closed fds,
     sk := (sk s)\<lparr>s_received_len := 0, s_socket := fd\<rparr>\<rparr>)"
proof (induction fds arbitrary: n sock s)
  case Nil
  then show ?case by (cases n) (simp_all add: sys_socket_def sys_connect_def)
next
  case (Cons f fds)
  let ?t = "s\<lparr>ev := (ev s)\<lparr>env_socket := (fds @ [fd]) @- socks, env_connect := (map (\<lambda>_. False) fds @ [True]) @- oks\<rparr>,
      trace := trace s @ [Closed f]\<rparr>"
  obtain m where n: "n = Suc m" "length fds < m" using Cons.prems(1) by (cases n) auto
  have "try_addresses n sock s = try_addresses m f ?t"
    using Cons.prems(2-4) by (auto simp: n(1) sys_socket_def sys_connect_def)
  then show ?case using Cons.IH [OF n(2), of ?t f] Cons.prems(2) by simp
qed

lemma connect_accepted:
  assumes "fresh_ok s" and "err_own s D" and "find resolved (stake 4 (env_addrinfo (ev s))) = Some a"
    and "length fds < snd a" and "RWS_INVALID_SOCKET \<notin> set (fds @ [fd])" and "env_socket (ev s) = (fds @ [fd]) @- socks"
    and "env_connect (ev s) = (map (\<lambda>_. False) fds @ [True]) @- oks"
  obtains s' as where "rws_socket_connect_to_host s = Some s'"
    and "sk s' = (sk s)\<lparr>s_error := NULL, s_received_len := 0, s_socket := fd, s_command := COMMAND_SEND_HANDSHAKE\<rparr>"
    and "ev s' = (ev s)\<lparr>env_addrinfo := as, env_socket := socks, env_connect := oks\<rparr>" and "trace s' = trace s @ map Closed fds"
proof -
  obtain t as where t: "rws_socket_connect_getaddr_info s = Some (snd a, t)" "0 < snd a" "sk t = (sk s)\<lparr>s_error := NULL\<rparr>"
      "ev t = (ev s)\<lparr>env_addrinfo := as\<rparr>" "trace t = trace s"
    by (rule getaddr_resolved [OF assms(1-3)])
  let ?u = "t\<lparr>ev := (ev t)\<lparr>env_socket := socks, env_connect := oks\<rparr>, trace := trace t @ map Closed fds,
     sk := (sk t)\<lparr>s_received_len := 0, s_socket := fd\<rparr>\<rparr>"
  have "try_addresses (snd a) RWS_INVALID_SOCKET t = (fd, ?u)"
    using assms(4-7) t(4) by (intro try_accepted) simp_all
  then have "connect_loop 0 RWS_INVALID_SOCKET (snd a) t = connect_loop (Suc 0) fd (snd a) ?u"
    by (subst connect_loop.simps) (simp add: RWS_CONNECT_ATTEMPS_def)
  then have "connect_loop 0 RWS_INVALID_SOCKET (snd a) t = ?u"
    using assms(5) by (subst (asm) (2) connect_loop.simps) simp
  then show thesis
    using t assms(5) by (intro that [of "?u\<lparr>sk := (sk ?u)\<lparr>s_command := COMMAND_SEND_HANDSHAKE\<rparr>\<rparr>" as]) (simp_all add: rws_socket_connect_to_host_def)
qed

text \<open>All addresses refuse the connection: one round over them, every descriptor closed.\<close>

lemma try_refused:
  "list_all (\<lambda>fd. fd \<noteq> RWS_INVALID_SOCKET) (stake n (env_socket (ev s))) \<Longrightarrow> stake n (env_connect (ev s)) = replicate n False \<Longrightarrow>
   try_addresses n sock s = (if n = 0 then sock else last (stake n (env_socket (ev s))),
     s\<lparr>ev := (ev s)\<lparr>env_socket := sdrop n (env_socket (ev s)), env_connect := sdrop n (env_connect (ev s))\<rparr>,
       trace := trace s @ map Closed (stake n (env_socket (ev s)))\<rparr>)"
proof (induction n arbitrary: sock s)
  case 0
  then show ?case by (cases s; cases "ev s") simp
next
  case (Suc n)
  let ?t = "s\<lparr>ev := (ev s)\<lparr>env_socket := stl (env_socket (ev s)), env_connect := stl (env_connect (ev s))\<rparr>,
      trace := trace s @ [Closed (shd (env_socket (ev s)))]\<rparr>"
  have fd: "shd (env_socket (ev s)) \<noteq> RWS_INVALID_SOCKET" "\<not> shd (env_connect (ev s))" using Suc.prems by simp_all
  have "try_addresses (Suc n) sock s = try_addresses n (shd (env_socket (ev s))) ?t"
    using fd by (simp add: sys_socket_def sys_connect_def)
  moreover have "list_all (\<lambda>fd. fd \<noteq> RWS_INVALID_SOCKET) (stake n (env_socket (ev ?t)))" "stake n (env_connect (ev ?t)) = replicate n False"
    using Suc.prems by simp_all
  note Suc.IH [OF this, of "shd (env_socket (ev s))"]
  ultimately show ?case by (cases "n = 0") (auto simp: last_ConsR)
qed

text \<open>A refused connection is not retried.  When the name resolves to \<open>n\<close> addresses at once, every
  \<open>socket\<close> call returns a descriptor and every \<open>connect\<close> fails, there are exactly \<open>n\<close> calls of
  \<open>connect\<close>, one per address, although the loop around them allows four rounds: the code tests the
  descriptor it has just closed.\<close>

lemma refused_connect_not_retried:
  assumes "fresh_ok s" and "err_own s D" and "s_socket (sk s) = RWS_INVALID_SOCKET"
    and "shd (env_addrinfo (ev s)) = (0, n)" and "0 < n"
    and "list_all (\<lambda>fd. fd \<noteq> RWS_INVALID_SOCKET) (stake n (env_socket (ev s)))"
    and "stake n (env_connect (ev s)) = replicate n False"
  shows "\<exists>s'. rws_socket_connect_to_host s = Some s' \<and> s_command (sk s') = COMMAND_INFORM_DISCONNECTED \<and>
    env_connect (ev s') = sdrop n (env_connect (ev s)) \<and> trace s' = trace s @ map Closed (stake n (env_socket (ev s)))"
proof -
  have res: "resolved (shd (env_addrinfo (ev s)))" using assms(4,5) by (simp add: resolved_def)
  have "find resolved (stake 4 (env_addrinfo (ev s))) = Some (0, n)" using res assms(4) by (simp add: eval_nat_numeral)
  with getaddr_run [OF assms(1,2)] obtain t where t: "rws_socket_connect_getaddr_info s = Some (n, t)" "fresh_ok t"
      "s_socket (sk t) = s_socket (sk s)" "env_socket (ev t) = env_socket (ev s)" "env_connect (ev t) = env_connect (ev s)"
      "trace t = trace s" by auto
  define u where "u = t\<lparr>ev := (ev t)\<lparr>env_socket := sdrop n (env_socket (ev t)), env_connect := sdrop n (env_connect (ev t))\<rparr>,
       trace := trace t @ map Closed (stake n (env_socket (ev t)))\<rparr>"
  have round: "try_addresses n RWS_INVALID_SOCKET t = (last (stake n (env_socket (ev s))), u)"
    using try_refused [of n t RWS_INVALID_SOCKET] assms(5-7) by (simp add: t u_def)
  have "last (stake n (env_socket (ev s))) \<in> set (stake n (env_socket (ev s)))" using assms(5) by (intro last_in_set) (cases n; simp)
  then have "last (stake n (env_socket (ev s))) \<noteq> RWS_INVALID_SOCKET" using assms(6) by (simp add: list_all_iff)
  then have "connect_loop (Suc 0) (last (stake n (env_socket (ev s)))) n u = u" by (subst connect_loop.simps) simp
  then have loop: "connect_loop 0 RWS_INVALID_SOCKET n t = u"
    using round by (subst connect_loop.simps) (simp add: RWS_CONNECT_ATTEMPS_def)
  have fu: "fresh_ok u" "s_socket (sk u) = RWS_INVALID_SOCKET" "n \<noteq> 0"
    using t(2,3) assms(3,5) by (simp_all add: u_def fresh_ok_def)
  obtain v where "rws_socket_connect_to_host s = Some v" "s_command (sk v) = COMMAND_INFORM_DISCONNECTED" "ev v = ev u" "trace v = trace u"
    by (rule connect_none [OF t(1) fu(3) loop fu(1,2)])
  then show ?thesis using t by (simp add: u_def)
qed

end
