(* ===== verification/Rws_Worker.thy ===== *)
theory Rws_Worker
  imports Rws_Connect
begin

text \<open>
  The work thread (\<open>rws_socket_work_th_func\<close>), one loop iteration at a time, and the release of the
  socket object (\<open>rws_socket_delete\<close>).
\<close>

section \<open>Release of the socket\<close>

text \<open>\<open>self\<close> is the address of the socket object.\<close>

definition clean_list :: "(rws_socket \<Rightarrow> ptr) \<Rightarrow> (ptr \<Rightarrow> rws_socket \<Rightarrow> rws_socket) \<Rightarrow> sys \<Rightarrow> sys option" where
  "clean_list get_list set_list s = do {
     s \<leftarrow> rws_socket_delete_all_frames_in_list (get_list (sk s)) s;
     (l, s) \<leftarrow> rws_list_delete_clean (get_list (sk s)) s;
     Some (s\<lparr>sk := set_list l (sk s)\<rparr>) }"

definition clean_send_frames :: "sys \<Rightarrow> sys option" where
  "clean_send_frames = clean_list s_send_frames (\<lambda>l k. k\<lparr>s_send_frames := l\<rparr>)"

definition clean_recvd_frames :: "sys \<Rightarrow> sys option" where
  "clean_recvd_frames = clean_list s_recvd_frames (\<lambda>l k. k\<lparr>s_recvd_frames := l\<rparr>)"

definition rws_socket_delete :: "ptr \<Rightarrow> sys \<Rightarrow> sys option" where
  "rws_socket_delete self s = do {
     let s = rws_socket_close s;
     (p, s) \<leftarrow> rws_string_delete_clean (s_sec_ws_accept (sk s)) s;
     let s = s\<lparr>sk := (sk s)\<lparr>s_sec_ws_accept := p\<rparr>\<rparr>;
     (p, s) \<leftarrow> rws_free_clean (s_received (sk s)) s;
     let s = s\<lparr>sk := (sk s)\<lparr>s_received := p, s_received_size := 0, s_received_len := 0\<rparr>\<rparr>;
     s \<leftarrow> clean_send_frames s;
     s \<leftarrow> clean_recvd_frames s;
     (p, s) \<leftarrow> rws_string_delete_clean (s_scheme (sk s)) s;
     let s = s\<lparr>sk := (sk s)\<lparr>s_scheme := p\<rparr>\<rparr>;
     (p, s) \<leftarrow> rws_string_delete_clean (s_host (sk s)) s;
     let s = s\<lparr>sk := (sk s)\<lparr>s_host := p\<rparr>\<rparr>;
     (p, s) \<leftarrow> rws_string_delete_clean (s_path (sk s)) s;
     let s = s\<lparr>sk := (sk s)\<lparr>s_path := p\<rparr>\<rparr>;
     (p, s) \<leftarrow> rws_string_delete_clean (s_sec_ws_accept (sk s)) s;
     let s = s\<lparr>sk := (sk s)\<lparr>s_sec_ws_accept := p\<rparr>\<rparr>;
     s \<leftarrow> clean_error s;
     (p, s) \<leftarrow> rws_free_clean (s_received (sk s)) s;
     let s = s\<lparr>sk := (sk s)\<lparr>s_received := p\<rparr>\<rparr>;
     s \<leftarrow> clean_send_frames s;
     s \<leftarrow> clean_recvd_frames s;
     s \<leftarrow> rws_mutex_delete (s_work_mutex (sk s)) s;
     s \<leftarrow> rws_mutex_delete (s_send_mutex (sk s)) s;
     rws_free self s }"

section \<open>The work thread\<close>

text \<open>The first \<open>switch\<close>, under the work mutex; \<open>n\<close> is \<open>loop_number\<close>.\<close>

definition work_command :: "nat \<Rightarrow> sys \<Rightarrow> (nat \<times> sys) option" where
  "work_command n s =
     (if s_command (sk s) = COMMAND_CONNECT_TO_HOST
      then map_option (Pair n) (rws_socket_connect_to_host s)
      else if s_command (sk s) = COMMAND_SEND_HANDSHAKE
      then map_option (Pair n) (rws_socket_send_handshake s)
      else if s_command (sk s) = COMMAND_WAIT_HANDSHAKE_RESPONCE
      then map_option (Pair n) (rws_socket_wait_handshake_responce s)
      else if s_command (sk s) = COMMAND_DISCONNECT
      then map_option (Pair n) (rws_socket_send_disconnect s)
      else if s_command (sk s) = COMMAND_IDLE then do {
        (n, s) \<leftarrow> (if 400 \<le> n then do {
                    s \<leftarrow> (if s_is_connected (sk s) then rws_socket_send_ping s else Some s);
                    Some (0, s) }
                  else Some (n, s));
        s \<leftarrow> (if s_is_connected (sk s) then rws_socket_idle_send s else Some s);
        s \<leftarrow> (if s_is_connected (sk s) then rws_socket_idle_recv s else Some s);
        Some (n, s) }
      else Some (n, s))"

text \<open>The second \<open>switch\<close>, without the mutex; \<open>c\<close> is the command it has read.\<close>

definition error_code_of :: "sys \<Rightarrow> int option" where
  "error_code_of s = rws_error_get_code (s_error (sk s)) s"

definition inform_branch :: "user_code \<Rightarrow> int \<Rightarrow> sys \<Rightarrow> sys option" where
  "inform_branch user c s =
     (if c = COMMAND_INFORM_CONNECTED then
        (let s = s\<lparr>sk := (sk s)\<lparr>s_command := COMMAND_IDLE\<rparr>\<rparr>
         in if s_on_connected (sk s) \<noteq> None then call_user user On_connected s else Some s)
      else if c = COMMAND_INFORM_DISCONNECTED then do {
        let s = s\<lparr>sk := (sk s)\<lparr>s_command := COMMAND_END\<rparr>\<rparr>;
        s \<leftarrow> rws_socket_send_disconnect s;
        if s_on_disconnected (sk s) \<noteq> None then do {
          code \<leftarrow> error_code_of s;
          call_user user (On_disconnected code) s }
        else Some s }
      else if c = COMMAND_IDLE then
        (if s_recvd_frames (sk s) \<noteq> NULL then rws_socket_inform_recvd_frames user s else Some s)
      else Some s)"

definition work_inform :: "user_code \<Rightarrow> sys \<Rightarrow> sys option" where
  "work_inform user s = inform_branch user (s_command (sk s)) s"

lemmas work_inform_switch = work_inform_def [unfolded inform_branch_def]

text \<open>The part of an iteration under the work mutex, and an iteration.\<close>

definition work_locked :: "nat \<Rightarrow> sys \<Rightarrow> (nat \<times> sys) option" where
  "work_locked n s = do {
     let n = n + 1;
     s \<leftarrow> rws_mutex_lock (s_work_mutex (sk s)) s;
     (n, s) \<leftarrow> work_command n s;
     s \<leftarrow> rws_mutex_unlock (s_work_mutex (sk s)) s;
     Some (n, s) }"

definition work_iteration :: "user_code \<Rightarrow> nat \<Rightarrow> sys \<Rightarrow> (nat \<times> sys) option" where
  "work_iteration user n s = do {
     (n, s) \<leftarrow> work_locked n s;
     s \<leftarrow> work_inform user s;
     Some (n, s) }"

lemma work_iteration_steps:
  "work_iteration user n s = do {
     s \<leftarrow> rws_mutex_lock (s_work_mutex (sk s)) s;
     (n, s) \<leftarrow> work_command (n + 1) s;
     s \<leftarrow> rws_mutex_unlock (s_work_mutex (sk s)) s;
     s \<leftarrow> work_inform user s;
     Some (n, s) }"
  unfolding work_iteration_def work_locked_def Let_def by (simp add: case_prod_unfold Option.bind_assoc)

partial_function (option) work_loop :: "user_code \<Rightarrow> nat \<Rightarrow> sys \<Rightarrow> sys option" where
  "work_loop user n s =
     (if s_command (sk s) < COMMAND_END then do {
        (n, s) \<leftarrow> work_iteration user n s;
        work_loop user n s }
      else Some s)"

definition rws_socket_work_th_func :: "user_code \<Rightarrow> ptr \<Rightarrow> sys \<Rightarrow> sys option" where
  "rws_socket_work_th_func user self s = do {
     s \<leftarrow> work_loop user 0 s;
     let s = rws_socket_close s;
     let s = s\<lparr>sk := (sk s)\<lparr>s_work_thread := NULL\<rparr>\<rparr>;
     rws_socket_delete self s }"

end
