(* ===== verification/Rws_Api.thy ===== *)
theory Rws_Api
  imports Rws_Worker
begin

text \<open>
  The public functions of \<open>librws.h\<close> (\<open>rws_socketpub.c\<close>).  A handle is \<open>NULL\<close> or the address of
  the socket object; using a handle after the object was released has no result.
\<close>

definition alive :: "ptr \<Rightarrow> sys \<Rightarrow> unit option" where
  "alive h s = (case obj_at h s of Some OSocket \<Rightarrow> Some () | _ \<Rightarrow> None)"

section \<open>Creation and connection\<close>

definition rws_socket_create :: "sys \<Rightarrow> ptr \<times> sys" where
  "rws_socket_create s =
     (let (self, s) = rws_malloc_zero OSocket s;
          s = s\<lparr>sk := zero_socket\<lparr>s_port := -1, s_socket := RWS_INVALID_SOCKET, s_command := COMMAND_NONE\<rparr>\<rparr>;
          (w, s) = rws_mutex_create_recursive s;
          s = s\<lparr>sk := (sk s)\<lparr>s_work_mutex := w\<rparr>\<rparr>;
          (x, s) = rws_mutex_create_recursive s;
          s = s\<lparr>sk := (sk s)\<lparr>s_send_mutex := x\<rparr>\<rparr>
      in (self, s))"

text \<open>
  The thread object is a new block; that the thread runs is the matter of
  \<open>rws_socket_work_th_func\<close>.  \<open>rws_thread_create\<close> ends the program when no thread can be made.
\<close>

definition rws_socket_create_start_work_thread :: "sys \<Rightarrow> (bool \<times> sys) option" where
  "rws_socket_create_start_work_thread s = do {
     s \<leftarrow> clean_error s;
     let s = s\<lparr>sk := (sk s)\<lparr>s_command := COMMAND_NONE\<rparr>\<rparr>;
     let (t, s) = rws_malloc_zero (OBytes []) s;
     let s = s\<lparr>sk := (sk s)\<lparr>s_work_thread := t\<rparr>\<rparr>;
     if s_work_thread (sk s) \<noteq> NULL
     then Some (True, s\<lparr>sk := (sk s)\<lparr>s_command := COMMAND_CONNECT_TO_HOST\<rparr>\<rparr>)
     else Some (False, s) }"

definition missed_parameter :: "rws_socket \<Rightarrow> string option" where
  "missed_parameter k =
     (let msg = None;
          msg = (if s_port k \<le> 0 then Some ''No URL port provided'' else msg);
          msg = (if s_scheme k = NULL then Some ''No URL scheme provided'' else msg);
          msg = (if s_host k = NULL then Some ''No URL host provided'' else msg);
          msg = (if s_path k = NULL then Some ''No URL path provided'' else msg);
          msg = (if s_on_disconnected k = None then Some ''No on_disconnected callback provided'' else msg)
      in msg)"

definition rws_socket_connect :: "ptr \<Rightarrow> sys \<Rightarrow> (bool \<times> sys) option" where
  "rws_socket_connect h s =
     (if h = NULL then Some (False, s)
      else do {
        alive h s;
        s \<leftarrow> clean_error s;
        let params_error_msg = missed_parameter (sk s);
        let s = s\<lparr>sk := (sk s)\<lparr>s_received_len := 0\<rparr>\<rparr>;
        (case params_error_msg of
           Some msg \<Rightarrow> do {
             s \<leftarrow> set_error rws_error_code_missed_parameter (lit msg) s;
             Some (False, s) }
         | None \<Rightarrow> rws_socket_create_start_work_thread s) })"

definition rws_socket_disconnect_and_release :: "ptr \<Rightarrow> sys \<Rightarrow> sys option" where
  "rws_socket_disconnect_and_release h s =
     (if h = NULL then Some s
      else do {
        alive h s;
        s \<leftarrow> rws_mutex_lock (s_work_mutex (sk s)) s;
        s \<leftarrow> rws_socket_delete_all_frames_in_list (s_send_frames (sk s)) s;
        (l, s) \<leftarrow> rws_list_delete_clean (s_send_frames (sk s)) s;
        let s = s\<lparr>sk := (sk s)\<lparr>s_send_frames := l\<rparr>\<rparr>;
        if s_is_connected (sk s) then
          rws_mutex_unlock (s_work_mutex (sk s)) (s\<lparr>sk := (sk s)\<lparr>s_command := COMMAND_DISCONNECT\<rparr>\<rparr>)
        else if s_work_thread (sk s) \<noteq> NULL then
          rws_mutex_unlock (s_work_mutex (sk s)) (s\<lparr>sk := (sk s)\<lparr>s_command := COMMAND_END\<rparr>\<rparr>)
        else if s_command (sk s) \<noteq> COMMAND_END then do {
          s \<leftarrow> rws_mutex_unlock (s_work_mutex (sk s)) s;
          rws_socket_delete h s }
        else Some s })"

definition rws_socket_send_text :: "ptr \<Rightarrow> ptr \<Rightarrow> sys \<Rightarrow> (bool \<times> sys) option" where
  "rws_socket_send_text h text s =
     (if h \<noteq> NULL then do {
        alive h s;
        s \<leftarrow> rws_mutex_lock (s_send_mutex (sk s)) s;
        (r, s) \<leftarrow> rws_socket_send_text_priv text s;
        s \<leftarrow> rws_mutex_unlock (s_send_mutex (sk s)) s;
        Some (r, s) }
      else Some (False, s))"

section \<open>Parameters\<close>

definition rws_socket_set_scheme :: "ptr \<Rightarrow> ptr \<Rightarrow> sys \<Rightarrow> sys option" where
  "rws_socket_set_scheme h scheme s =
     (if h \<noteq> NULL then do {
        alive h s;
        s \<leftarrow> rws_string_delete (s_scheme (sk s)) s;
        (p, s) \<leftarrow> rws_string_copy scheme s;
        Some (s\<lparr>sk := (sk s)\<lparr>s_scheme := p\<rparr>\<rparr>) }
      else Some s)"

definition rws_socket_set_host :: "ptr \<Rightarrow> ptr \<Rightarrow> sys \<Rightarrow> sys option" where
  "rws_socket_set_host h host s =
     (if h \<noteq> NULL then do {
        alive h s;
        s \<leftarrow> rws_string_delete (s_host (sk s)) s;
        (p, s) \<leftarrow> rws_string_copy host s;
        Some (s\<lparr>sk := (sk s)\<lparr>s_host := p\<rparr>\<rparr>) }
      else Some s)"

definition rws_socket_set_path :: "ptr \<Rightarrow> ptr \<Rightarrow> sys \<Rightarrow> sys option" where
  "rws_socket_set_path h path s =
     (if h \<noteq> NULL then do {
        alive h s;
        s \<leftarrow> rws_string_delete (s_path (sk s)) s;
        (p, s) \<leftarrow> rws_string_copy path s;
        Some (s\<lparr>sk := (sk s)\<lparr>s_path := p\<rparr>\<rparr>) }
      else Some s)"

definition rws_socket_set_port :: "ptr \<Rightarrow> int \<Rightarrow> sys \<Rightarrow> sys option" where
  "rws_socket_set_port h port s =
     (if h \<noteq> NULL then do { alive h s; Some (s\<lparr>sk := (sk s)\<lparr>s_port := port\<rparr>\<rparr>) } else Some s)"

definition rws_socket_set_url :: "ptr \<Rightarrow> ptr \<Rightarrow> ptr \<Rightarrow> int \<Rightarrow> ptr \<Rightarrow> sys \<Rightarrow> sys option" where
  "rws_socket_set_url h scheme host port path s =
     (if h \<noteq> NULL then do {
        alive h s;
        s \<leftarrow> rws_string_delete (s_scheme (sk s)) s;
        (p, s) \<leftarrow> rws_string_copy scheme s;
        let s = s\<lparr>sk := (sk s)\<lparr>s_scheme := p\<rparr>\<rparr>;
        s \<leftarrow> rws_string_delete (s_host (sk s)) s;
        (p, s) \<leftarrow> rws_string_copy host s;
        let s = s\<lparr>sk := (sk s)\<lparr>s_host := p\<rparr>\<rparr>;
        s \<leftarrow> rws_string_delete (s_path (sk s)) s;
        (p, s) \<leftarrow> rws_string_copy path s;
        let s = s\<lparr>sk := (sk s)\<lparr>s_path := p\<rparr>\<rparr>;
        Some (s\<lparr>sk := (sk s)\<lparr>s_port := port\<rparr>\<rparr>) }
      else Some s)"

definition rws_socket_get_scheme :: "ptr \<Rightarrow> sys \<Rightarrow> ptr option" where
  "rws_socket_get_scheme h s = (if h \<noteq> NULL then do { alive h s; Some (s_scheme (sk s)) } else Some NULL)"

definition rws_socket_get_host :: "ptr \<Rightarrow> sys \<Rightarrow> ptr option" where
  "rws_socket_get_host h s = (if h \<noteq> NULL then do { alive h s; Some (s_host (sk s)) } else Some NULL)"

definition rws_socket_get_path :: "ptr \<Rightarrow> sys \<Rightarrow> ptr option" where
  "rws_socket_get_path h s = (if h \<noteq> NULL then do { alive h s; Some (s_path (sk s)) } else Some NULL)"

definition rws_socket_get_port :: "ptr \<Rightarrow> sys \<Rightarrow> int option" where
  "rws_socket_get_port h s = (if h \<noteq> NULL then do { alive h s; Some (s_port (sk s)) } else Some (-1))"

definition rws_socket_get_error :: "ptr \<Rightarrow> sys \<Rightarrow> ptr option" where
  "rws_socket_get_error h s = (if h \<noteq> NULL then do { alive h s; Some (s_error (sk s)) } else Some NULL)"

definition rws_socket_set_user_object :: "ptr \<Rightarrow> ptr \<Rightarrow> sys \<Rightarrow> sys option" where
  "rws_socket_set_user_object h user_object s =
     (if h \<noteq> NULL then do { alive h s; Some (s\<lparr>sk := (sk s)\<lparr>s_user_object := user_object\<rparr>\<rparr>) } else Some s)"

definition rws_socket_get_user_object :: "ptr \<Rightarrow> sys \<Rightarrow> ptr option" where
  "rws_socket_get_user_object h s =
     (if h \<noteq> NULL then do { alive h s; Some (s_user_object (sk s)) } else Some NULL)"

definition rws_socket_set_on_connected :: "ptr \<Rightarrow> nat option \<Rightarrow> sys \<Rightarrow> sys option" where
  "rws_socket_set_on_connected h callback s =
     (if h \<noteq> NULL then do { alive h s; Some (s\<lparr>sk := (sk s)\<lparr>s_on_connected := callback\<rparr>\<rparr>) } else Some s)"

definition rws_socket_set_on_disconnected :: "ptr \<Rightarrow> nat option \<Rightarrow> sys \<Rightarrow> sys option" where
  "rws_socket_set_on_disconnected h callback s =
     (if h \<noteq> NULL then do { alive h s; Some (s\<lparr>sk := (sk s)\<lparr>s_on_disconnected := callback\<rparr>\<rparr>) } else Some s)"

definition rws_socket_set_on_received_text :: "ptr \<Rightarrow> nat option \<Rightarrow> sys \<Rightarrow> sys option" where
  "rws_socket_set_on_received_text h callback s =
     (if h \<noteq> NULL then do { alive h s; Some (s\<lparr>sk := (sk s)\<lparr>s_on_recvd_text := callback\<rparr>\<rparr>) } else Some s)"

definition rws_socket_set_on_received_bin :: "ptr \<Rightarrow> nat option \<Rightarrow> sys \<Rightarrow> sys option" where
  "rws_socket_set_on_received_bin h callback s =
     (if h \<noteq> NULL then do { alive h s; Some (s\<lparr>sk := (sk s)\<lparr>s_on_recvd_bin := callback\<rparr>\<rparr>) } else Some s)"

definition rws_socket_is_connected :: "ptr \<Rightarrow> sys \<Rightarrow> (bool \<times> sys) option" where
  "rws_socket_is_connected h s =
     (if h \<noteq> NULL then do {
        alive h s;
        s \<leftarrow> rws_mutex_lock (s_send_mutex (sk s)) s;
        let r = s_is_connected (sk s);
        s \<leftarrow> rws_mutex_unlock (s_send_mutex (sk s)) s;
        Some (r, s) }
      else Some (False, s))"

end
