(* ===== verification/Rws_Receiver.thy ===== *)
theory Rws_Receiver
  imports Rws_Traffic
begin

text \<open>
  The receiver over many rounds of \<open>rws_socket_idle_recv\<close>: the messages that reach the queue are
  those of the byte stream, however the network cuts it; and what the code does with the frames
  that break this rule.
\<close>

section \<open>Many rounds\<close>

primrec idle_recvs :: "nat \<Rightarrow> sys \<Rightarrow> sys option" where
  "idle_recvs 0 s = Some s"
| "idle_recvs (Suc n) s = do { s \<leftarrow> rws_socket_idle_recv s; idle_recvs n s }"

text \<open>The chunks that the next rounds will receive, all of them ending because \<open>recv\<close> would block.\<close>

definition arriving :: "env \<Rightarrow> u8 list list \<Rightarrow> bool" where
  "arriving e chunks \<longleftrightarrow> (\<exists>cs. stake (length chunks) (env_recv e) = map (\<lambda>c. (c, EAGAIN)) cs \<and> map recv_data cs = chunks)"

definition incoming :: "sys \<Rightarrow> u8 list list \<Rightarrow> bool" where
  "incoming s chunks \<longleftrightarrow> s_socket (sk s) \<noteq> RWS_INVALID_SOCKET \<and> arriving (ev s) chunks"

lemma incoming_Cons:
  assumes "incoming s (c # chunks)"
  shows "recv_ok s" "recv_data (fst (recv_result s)) = c"
    and "s_socket (sk s') = s_socket (sk s) \<Longrightarrow> ev s' = (ev s)\<lparr>env_recv := stl (env_recv (ev s))\<rparr> \<Longrightarrow> incoming s' chunks"
  using assms by (auto simp: incoming_def arriving_def recv_ok_def recv_result_def Cons_eq_map_conv)

lemma arriving_append:
  assumes "arriving e (xs @ ys)"
  shows "arriving e xs" and "env_recv e' = sdrop (length xs) (env_recv e) \<Longrightarrow> arriving e' ys"
proof -
  obtain cs where cs: "stake (length xs + length ys) (env_recv e) = map (\<lambda>c. (c, EAGAIN)) cs" "map recv_data cs = xs @ ys"
    using assms by (auto simp: arriving_def)
  obtain as bs where split: "cs = as @ bs" "map recv_data as = xs" "map recv_data bs = ys"
    using cs(2) unfolding map_eq_append_conv by blast
  have len: "length as = length xs" using split(2) by (metis length_map)
  have all: "stake (length xs) (env_recv e) @ stake (length ys) (sdrop (length xs) (env_recv e)) =
      map (\<lambda>c. (c, EAGAIN)) as @ map (\<lambda>c. (c, EAGAIN)) bs"
    unfolding stake_add cs(1) split(1) by (rule map_append)
  have two: "stake (length xs) (env_recv e) = map (\<lambda>c. (c, EAGAIN)) as \<and>
      stake (length ys) (sdrop (length xs) (env_recv e)) = map (\<lambda>c. (c, EAGAIN)) bs"
    by (rule append_eq_append_conv [THEN iffD1, OF _ all]) (simp add: len)
  show "arriving e xs" unfolding arriving_def using two split(2) by blast
  show "arriving e' ys" if "env_recv e' = sdrop (length xs) (env_recv e)"
    unfolding arriving_def that using two split(3) by blast
qed

lemma idle_recvs_run:
  "session s E bs D ns Fs xs ms Gs ys \<Longrightarrow> incoming s chunks \<Longrightarrow>
   list_all regular (fst (rounds check_size bs chunks)) \<Longrightarrow>
   \<exists>s' E' D' ns' Fs' ms' Gs' ws. idle_recvs (length chunks) s = Some s' \<and>
     session s' E' (snd (rounds check_size bs chunks)) D' ns' Fs'
       (xs @ concat (map message_of (fst (rounds check_size bs chunks)))) ms' Gs' (ys @ ws) \<and>
     (8 \<notin> set (map opcode_of (fst (rounds check_size bs chunks))) \<longrightarrow> s_command (sk s') = s_command (sk s)) \<and>
     (9 \<notin> set (map opcode_of (fst (rounds check_size bs chunks))) \<longrightarrow> ws = []) \<and> trace s' = trace s"
proof (induction chunks arbitrary: s E bs D ns Fs xs ms Gs ys)
  case Nil
  then show ?case by auto (metis append_Nil2)
next
  case (Cons c chunks)
  note inc = incoming_Cons [OF Cons.prems(2)]
  let ?one = "take_one check_size (bs @ c)"
  let ?rest = "rounds check_size (snd ?one) chunks"
  have split: "rounds check_size bs (c # chunks) = (fst ?one @ fst ?rest, snd ?rest)"
    by (simp add: case_prod_beta)
  have reg: "list_all regular (fst ?one)" "list_all regular (fst ?rest)"
    using Cons.prems(3) unfolding split by simp_all
  obtain s1 E1 D1 ns1 Fs1 ms1 Gs1 key where s1: "rws_socket_idle_recv s = Some s1"
      "session s1 E1 (snd ?one) D1 ns1 Fs1 (xs @ concat (map message_of (fst ?one))) ms1 Gs1
        (ys @ concat (map (answer_of key) (fst ?one)))"
      "s_command (sk s1) = (if 8 \<in> set (map opcode_of (fst ?one)) then COMMAND_INFORM_DISCONNECTED else s_command (sk s))"
      "s_socket (sk s1) = s_socket (sk s)" "ev s1 = (ev s)\<lparr>env_recv := stl (env_recv (ev s))\<rparr>" "trace s1 = trace s"
    by (rule idle_recv_run [OF Cons.prems(1) inc(1), of "bs @ c"]) (use inc(2) reg(1) in simp_all)
  have "incoming s1 chunks" using inc(3) s1(4,5) by blast
  from Cons.IH [OF s1(2) this reg(2)] obtain s2 E2 D2 ns2 Fs2 ms2 Gs2 ws where s2:
      "idle_recvs (length chunks) s1 = Some s2"
      "session s2 E2 (snd ?rest) D2 ns2 Fs2 ((xs @ concat (map message_of (fst ?one))) @ concat (map message_of (fst ?rest)))
        ms2 Gs2 ((ys @ concat (map (answer_of key) (fst ?one))) @ ws)"
      "8 \<notin> set (map opcode_of (fst ?rest)) \<longrightarrow> s_command (sk s2) = s_command (sk s1)"
      "9 \<notin> set (map opcode_of (fst ?rest)) \<longrightarrow> ws = []" "trace s2 = trace s1" by blast
  have none: "concat (map (answer_of key) (fst ?one)) = []" if "9 \<notin> set (map opcode_of (fst ?one))"
    using that by (auto simp: answer_of_def)
  show ?case
    unfolding split
    by (rule exI [of _ s2], rule exI [of _ E2], rule exI [of _ D2], rule exI [of _ ns2], rule exI [of _ Fs2],
        rule exI [of _ ms2], rule exI [of _ Gs2], rule exI [of _ "concat (map (answer_of key) (fst ?one)) @ ws"])
      (use s1 s2 none in auto)
qed

text \<open>The frames of a sender are regular and carry what was sent.\<close>

lemma encode_opcode: "op < 16 \<Longrightarrow> opcode_of (encode_frame op key payload) = op"
  using encode_first(1) [of op key payload "[]"] opcode_mod [of op] by (simp add: opcode_of_def)

lemma encode_regular:
  assumes "op < 16" and "encodable (op, key, payload)"
  shows "regular (encode (op, key, payload))"
    and "op \<in> {1, 2} \<Longrightarrow> payload \<noteq> [] \<Longrightarrow> message_of (encode (op, key, payload)) = [(of_nat op, payload)]"
proof -
  have ok: "key_ok key" "length payload < 2 ^ 32" using assms(2) by (auto simp: encodable_def)
  have "payload_at (encode_frame op key payload) = payload"
    using payload_encode [OF ok, of op "[]"] by simp
  then show "op \<in> {1, 2} \<Longrightarrow> payload \<noteq> [] \<Longrightarrow> message_of (encode (op, key, payload)) = [(of_nat op, payload)]"
    using encode_opcode [OF assms(1)] by (auto simp: message_of_def encode_def)
  show "regular (encode (op, key, payload))"
    using encode_hdr [OF ok, of op "[]"] encode_first(1) [OF assms(1), of key payload "[]"]
      hdr_len_bounds(1) [of "encode_frame op key payload"]
    by (simp add: regular_def encode_def)
qed

text \<open>
  What text and binary messages are to the receiver, once the network has delivered their bytes in
  some chunks and enough quiet rounds follow.
\<close>

lemma peer_messages:
  assumes "list_all (\<lambda>(op, key, payload). op \<in> {1, 2} \<and> payload \<noteq> [] \<and> encodable (op, key, payload)) msgs"
    and "concat chunks = concat (map encode msgs)" and "length msgs \<le> n"
  shows "rounds check_size [] (chunks @ replicate n []) = (map encode msgs, [])"
    and "list_all regular (map encode msgs)"
    and "concat (map message_of (map encode msgs)) = map (\<lambda>(op, key, payload). (of_nat op, payload)) msgs"
    and "8 \<notin> set (map opcode_of (map encode msgs))" "9 \<notin> set (map opcode_of (map encode msgs))"
proof -
  have fits: "list_all encodable msgs" using assms(1) by (auto simp: list_all_iff)
  show "rounds check_size [] (chunks @ replicate n []) = (map encode msgs, [])"
    by (rule wire.rounds_frames [OF fits assms(2,3)])
  have msg: "regular (encode x)" "message_of (encode x) = [(of_nat (fst x), snd (snd x))]" "opcode_of (encode x) \<in> {1, 2}"
    if "x \<in> set msgs" for x
  proof -
    obtain op key payload where x: "x = (op, key, payload)" by (cases x)
    have "op \<in> {1, 2}" "payload \<noteq> []" "encodable (op, key, payload)" "op < 16"
      using that assms(1) x by (auto simp: list_all_iff)
    then show "regular (encode x)" "message_of (encode x) = [(of_nat (fst x), snd (snd x))]" "opcode_of (encode x) \<in> {1, 2}"
      using x encode_regular [of op key payload] encode_opcode [of op key payload] by (simp_all add: encode_def)
  qed
  show "list_all regular (map encode msgs)" using msg(1) by (simp add: list_all_iff)
  show "concat (map message_of (map encode msgs)) = map (\<lambda>(op, key, payload). (of_nat op, payload)) msgs"
    using msg(2) by (induction msgs) (auto simp: case_prod_beta)
  show "8 \<notin> set (map opcode_of (map encode msgs))" "9 \<notin> set (map opcode_of (map encode msgs))"
    using msg(3) by fastforce+
qed

section \<open>Properties\<close>

text \<open>C12: Messages arrive complete, unchanged and in order, however the network cuts the stream.  When
  the peer sends text and binary frames (masked or not), the network delivers their bytes in any
  chunks, one per round, and as many quiet rounds follow as there are messages, then the queue of
  received frames holds exactly these messages in the order of sending and no byte is left over.\<close>

theorem messages_received_in_order:
  assumes "session s E [] D ns Fs xs ms Gs ys"
    and "list_all (\<lambda>(op, key, payload). op \<in> {1, 2} \<and> payload \<noteq> [] \<and> encodable (op, key, payload)) msgs"
    and "incoming s (chunks @ replicate n [])" and "concat chunks = concat (map encode msgs)"
    and "length msgs \<le> n"
  shows "\<exists>s' E' D' ns' Fs' ms' Gs'. idle_recvs (length chunks + n) s = Some s' \<and>
    session s' E' [] D' ns' Fs' (xs @ map (\<lambda>(op, key, payload). (of_nat op, payload)) msgs) ms' Gs' ys \<and>
    s_command (sk s') = s_command (sk s)"
proof -
  note peer = peer_messages [OF assms(2,4,5)]
  have reg: "list_all regular (fst (rounds check_size [] (chunks @ replicate n [])))"
    using peer(1,2) by simp
  from idle_recvs_run [OF assms(1,3) reg] obtain s' E' D' ns' Fs' ms' Gs' ws where
    "idle_recvs (length (chunks @ replicate n [])) s = Some s'"
    "session s' E' [] D' ns' Fs' (xs @ concat (map message_of (map encode msgs))) ms' Gs' (ys @ ws)"
    "s_command (sk s') = s_command (sk s)" "ws = []"
    unfolding peer(1) fst_conv snd_conv using peer(4,5) by blast
  then show ?thesis unfolding peer(3) by simp blast
qed

theorem messages_received_in_order_witness:
  "\<exists>s'. idle_recvs 5 (sys_of [] (zero_socket\<lparr>s_socket := 3, s_command := COMMAND_IDLE\<rparr>)
      (quiet_env\<lparr>env_recv := [([[129]], EAGAIN), ([[1, 72], [130, 2]], EAGAIN), ([[7, 8]], EAGAIN)] @- sconst ([], EAGAIN)\<rparr>)) =
        Some s' \<and>
     (\<exists>p ns Fs. queue_holds (blocks s') p ns Fs [(rws_opcode_text_frame, [72]), (rws_opcode_binary_frame, [7, 8])])"
proof -
  let ?s = "sys_of [] (zero_socket\<lparr>s_socket := 3, s_command := COMMAND_IDLE\<rparr>)
      (quiet_env\<lparr>env_recv := [([[129]], EAGAIN), ([[1, 72], [130, 2]], EAGAIN), ([[7, 8]], EAGAIN)] @- sconst ([], EAGAIN)\<rparr>)"
  let ?msgs = "[(1, None, [72]), (2, None, [7, 8])] :: (nat \<times> u8 list option \<times> u8 list) list"
  have ses: "session ?s [] [] [] [] [] [] [] [] []"
    by (simp add: session_def buffer_at_def zero_socket_def queue_blks_def)
  have "incoming ?s ([[129], [1, 72, 130, 2], [7, 8]] @ replicate 2 [])"
    unfolding incoming_def arriving_def
    by (intro conjI exI [of _ "[[[129]], [[1, 72], [130, 2]], [[7, 8]], [], []]"])
      (simp_all add: zero_socket_def quiet_env_def eval_nat_numeral)
  moreover have "concat [[129], [1, 72, 130, 2], [7, 8]] = concat (map encode ?msgs)"
    by (simp add: encode_def encode_frame_def header_bytes_def mask_with_def)
  moreover have "list_all (\<lambda>(op, key, payload). op \<in> {1, 2} \<and> payload \<noteq> [] \<and> encodable (op, key, payload)) ?msgs"
    by (simp add: encodable_def key_ok_def)
  ultimately show ?thesis
    using messages_received_in_order [OF ses, of ?msgs "[[129], [1, 72, 130, 2], [7, 8]]" 2]
    by (auto simp: session_def eval_nat_numeral)
qed

text \<open>C24: A ping is answered.  When the next complete frame in the buffer is a ping, one round of the
  receiver removes it from the buffer and appends to the send queue one pong frame, masked with a
  four-byte key, that carries exactly the payload of the ping; nothing else is queued.\<close>

theorem ping_answered_with_pong:
  assumes "session s E bs D ns Fs xs ms Gs ys" and "recv_ok s"
    and "bs @ recv_data (fst (recv_result s)) = u @ rest" and "check_size (u @ rest) = length u"
    and "regular u" and "opcode_of u = 9"
  shows "\<exists>s' E' D' ns' Fs' ms' Gs' key. rws_socket_idle_recv s = Some s' \<and> length key = 4 \<and>
    session s' E' rest D' ns' Fs' xs ms' Gs' (ys @ [(rws_opcode_pong, encode_frame 10 (Some key) (payload_at u))]) \<and>
    s_command (sk s') = s_command (sk s)"
proof -
  have "2 \<le> length u" using assms(5) by (simp add: regular_def)
  then have one: "take_one check_size (u @ rest) = ([u], rest)" using assms(4) by (auto simp: take_one_def)
  have add: "message_of u = []" "answer_of key u = [(rws_opcode_pong, encode_frame 10 (Some key) (payload_at u))]" for key
    using assms(6) by (simp_all add: message_of_def answer_of_def)
  obtain s' E' D' ns' Fs' ms' Gs' key where "rws_socket_idle_recv s = Some s'" "length key = 4"
    "session s' E' (snd (take_one check_size (u @ rest))) D' ns' Fs'
      (xs @ concat (map message_of (fst (take_one check_size (u @ rest))))) ms' Gs'
      (ys @ concat (map (answer_of key) (fst (take_one check_size (u @ rest)))))"
    "s_command (sk s') = (if 8 \<in> set (map opcode_of (fst (take_one check_size (u @ rest))))
      then COMMAND_INFORM_DISCONNECTED else s_command (sk s))"
    by (rule idle_recv_run [OF assms(1,2) assms(3) [symmetric]]) (use assms(5) one in simp_all)
  then show ?thesis unfolding one using add assms(6) by (simp add: one) blast
qed

theorem ping_answered_with_pong_witness:
  "\<exists>s' key p ns Fs. rws_socket_idle_recv (sys_of [] (zero_socket\<lparr>s_socket := 3\<rparr>)
       (quiet_env\<lparr>env_recv := sconst ([[137, 1, 65]], EAGAIN)\<rparr>)) = Some s' \<and> length key = 4 \<and>
     queue_holds (blocks s') p ns Fs [(rws_opcode_pong, encode_frame 10 (Some key) [65])]"
proof -
  let ?s = "sys_of [] (zero_socket\<lparr>s_socket := 3\<rparr>) (quiet_env\<lparr>env_recv := sconst ([[137, 1, 65]], EAGAIN)\<rparr>)"
  let ?u = "[137, 1, 65] :: u8 list"
  have ses: "session ?s [] [] [] [] [] [] [] [] []"
    by (simp add: session_def buffer_at_def zero_socket_def queue_blks_def)
  have res: "recv_result ?s = ([?u], EAGAIN)" by (simp add: recv_result_def quiet_env_def zero_socket_def)
  have u: "hdr_len ?u = 2" "low_len ?u = 1" "payload_at ?u = [65]" "opcode_of ?u = 9"
    by (simp_all add: hdr_len_def low_len_def payload_at_def masked_bit_def len7_def opcode_of_def)
  show ?thesis
    using ping_answered_with_pong [OF ses, of ?u "[]"] u
    by (auto simp: recv_ok_def res regular_def check_size_def session_def)
qed

lemma close_recv_run:
  assumes ses: "session s E bs D ns Fs xs ms Gs ys" and ok: "recv_ok s" and u: "bs @ recv_data (fst (recv_result s)) = u @ rest"
    "check_size (u @ rest) = length u" "regular u" "opcode_of u = 8"
  obtains s' ns' Fs' where "rws_socket_idle_recv s = Some s'" and "s_command (sk s') = COMMAND_INFORM_DISCONNECTED"
    and "rws_error_get_code (s_error (sk s')) s' = Some rws_error_code_connection_closed"
    and "queue_holds (blocks s') (s_recvd_frames (sk s')) ns' Fs' xs"
proof -
  have "2 \<le> length u" using u(3) by (simp add: regular_def)
  then have one: "take_one check_size (u @ rest) = ([u], rest)" using u(2) by (auto simp: take_one_def)
  have none: "message_of u = []" using u(4) by (simp add: message_of_def)
  obtain s' E' D' ns' Fs' ms' Gs' key where s': "rws_socket_idle_recv s = Some s'" "length key = 4"
    "session s' E' (snd (take_one check_size (u @ rest))) D' ns' Fs'
      (xs @ concat (map message_of (fst (take_one check_size (u @ rest))))) ms' Gs'
      (ys @ concat (map (answer_of key) (fst (take_one check_size (u @ rest)))))"
    "s_command (sk s') = (if 8 \<in> set (map opcode_of (fst (take_one check_size (u @ rest))))
      then COMMAND_INFORM_DISCONNECTED else s_command (sk s))"
    "if 8 \<in> set (map opcode_of (fst (take_one check_size (u @ rest))))
      then error_at (s_error (sk s')) rws_error_code_connection_closed E' s' else E' = []"
    by (rule idle_recv_run [OF ses ok u(1) [symmetric]]) (use u(3) one in simp_all)
  then have "error_at (s_error (sk s')) rws_error_code_connection_closed E' s'"
      "s_command (sk s') = COMMAND_INFORM_DISCONNECTED"
      "queue_holds (blocks s') (s_recvd_frames (sk s')) ns' Fs' xs"
    using u(4) none by (simp_all add: one session_def)
  with s'(1) show thesis by (auto simp: error_at_code intro: that)
qed

lemma failed_recv_run:
  assumes ses: "session s E bs D ns Fs xs ms Gs ys" and "\<not> recv_ok s"
  obtains s' where "rws_socket_idle_recv s = Some s'" and "s_command (sk s') = COMMAND_INFORM_DISCONNECTED"
    and "rws_error_get_code (s_error (sk s')) s' = Some rws_error_code_read_write_socket"
    and "s_socket (sk s') = RWS_INVALID_SOCKET" and "\<not> s_is_connected (sk s')"
proof -
  from ses have pre: "fresh_ok s" "err_own s E" "buffer_at (blocks s) (sk s) bs D" "set E \<inter> set D = {}"
    by (auto simp: session_def)
  obtain s' E' D' where run: "rws_socket_recv s = Some (recv_ok s, s')" and out: "recv_outcome s E bs D s' E' D'"
    using rws_socket_recv_run [OF pre] by blast
  then have at: "error_at (s_error (sk s')) rws_error_code_read_write_socket E' s'"
    using assms(2) by (simp add: recv_outcome_def)
  have sk: "s_socket (sk s') = RWS_INVALID_SOCKET" "\<not> s_is_connected (sk s')"
    using out assms(2) by (auto simp: recv_outcome_def)
  have "s_error (sk s') \<noteq> NULL" using at by (auto simp: error_at_def)
  then have "rws_socket_idle_recv s = Some (s'\<lparr>sk := (sk s')\<lparr>s_command := COMMAND_INFORM_DISCONNECTED\<rparr>\<rparr>)"
    using run assms(2) by (simp add: rws_socket_idle_recv_def)
  moreover have "error_at (s_error (sk s')) rws_error_code_read_write_socket E'
      (s'\<lparr>sk := (sk s')\<lparr>s_command := COMMAND_INFORM_DISCONNECTED\<rparr>\<rparr>)"
    using at by (rule error_at_cong [rotated]) simp
  ultimately show thesis using sk
    by (intro that [of "s'\<lparr>sk := (sk s')\<lparr>s_command := COMMAND_INFORM_DISCONNECTED\<rparr>\<rparr>"]) (simp_all add: error_at_code)
qed

text \<open>C25: A close frame ends the session: one round of the receiver consumes it, puts the command to
  \<open>COMMAND_INFORM_DISCONNECTED\<close> and records the error for a closed connection; messages received
  before it stay in the queue.  When reading fails instead, the round puts the same command, and the
  error is the one for read and write errors, with the descriptor closed.\<close>

theorem close_or_failure_ends_session:
  assumes "session s E bs D ns Fs xs ms Gs ys"
    and "recv_ok s \<Longrightarrow> \<exists>u rest. bs @ recv_data (fst (recv_result s)) = u @ rest \<and> check_size (u @ rest) = length u \<and>
      regular u \<and> opcode_of u = 8"
  shows "\<exists>s'. rws_socket_idle_recv s = Some s' \<and> s_command (sk s') = COMMAND_INFORM_DISCONNECTED \<and>
    (if recv_ok s
     then rws_error_get_code (s_error (sk s')) s' = Some rws_error_code_connection_closed \<and>
       (\<exists>ns' Fs'. queue_holds (blocks s') (s_recvd_frames (sk s')) ns' Fs' xs)
     else rws_error_get_code (s_error (sk s')) s' = Some rws_error_code_read_write_socket \<and>
       s_socket (sk s') = RWS_INVALID_SOCKET \<and> \<not> s_is_connected (sk s'))"
proof (cases "recv_ok s")
  case True
  then obtain u rest where u: "bs @ recv_data (fst (recv_result s)) = u @ rest" "check_size (u @ rest) = length u"
      "regular u" "opcode_of u = 8" using assms(2) by blast
  show ?thesis by (rule close_recv_run [OF assms(1) True u]) (use True in auto)
next
  case False
  show ?thesis by (rule failed_recv_run [OF assms(1) False]) (use False in auto)
qed

theorem close_or_failure_ends_session_witness:
  "\<exists>s'. rws_socket_idle_recv (sys_of [] (zero_socket\<lparr>s_socket := 3\<rparr>)
       (quiet_env\<lparr>env_recv := sconst ([[136, 0]], EAGAIN)\<rparr>)) = Some s' \<and>
     rws_error_get_code (s_error (sk s')) s' = Some rws_error_code_connection_closed"
proof -
  let ?s = "sys_of [] (zero_socket\<lparr>s_socket := 3\<rparr>) (quiet_env\<lparr>env_recv := sconst ([[136, 0]], EAGAIN)\<rparr>)"
  let ?u = "[136, 0] :: u8 list"
  have ses: "session ?s [] [] [] [] [] [] [] [] []"
    by (simp add: session_def buffer_at_def zero_socket_def queue_blks_def)
  have res: "recv_result ?s = ([?u], EAGAIN)" by (simp add: recv_result_def quiet_env_def zero_socket_def)
  have "hdr_len ?u = 2" "low_len ?u = 0" "opcode_of ?u = 8"
    by (simp_all add: hdr_len_def low_len_def masked_bit_def len7_def opcode_of_def)
  then have "\<exists>u rest. [] @ recv_data (fst (recv_result ?s)) = u @ rest \<and> check_size (u @ rest) = length u \<and>
      regular u \<and> opcode_of u = 8"
    by (intro exI [of _ ?u] exI [of _ "[]"]) (simp add: res check_size_def regular_def)
  then show ?thesis
    using close_or_failure_ends_session [OF ses] by (auto simp: recv_ok_def res)
qed

section \<open>Fragmented messages\<close>

text \<open>
  A message in fragments, step by step: the first part is queued, the second one is combined with it, and
  the result points behind its first part; delivering it, or combining it with a third part, reads past its end.
\<close>

abbreviation fragment_node :: "ptr \<Rightarrow> obj" where
  "fragment_node p \<equiv> ONode \<lparr>n_value = p, n_next = NULL\<rparr>"

lemma last_unfin_end: "last_unfin_loop NULL r (m :: sys) = Some r"
  by (subst last_unfin_loop.simps) simp

lemma first_fragment_queued:
  assumes empty: "s_recvd_frames (sk s) = NULL" and p: "p = Ptr a 0" "blocks s a = Some (OFrame f)"
    and f: "f_opcode f \<in> {rws_opcode_text_frame, rws_opcode_binary_frame}" "\<not> f_is_finished f" "f_data f = Ptr x 0" "0 < f_data_size f"
  shows "rws_socket_process_received_frame p s = Some (set_heap ((blocks s)(next_blk s \<mapsto> fragment_node p)) (Suc (next_blk s))
    (s\<lparr>sk := (sk s)\<lparr>s_recvd_frames := Ptr (next_blk s) 0\<rparr>\<rparr>))"
  using p f empty
  by (auto simp: rws_socket_process_received_frame_def rws_socket_process_bin_or_text_frame_def run_simps
      rws_socket_last_unfin_recvd_frame_by_opcode_def last_unfin_end rws_socket_append_recvd_frames_def
      rws_list_create_def rws_malloc_zero_def zero_node_def)

lemma second_fragment_combined:
  assumes fresh: "fresh_ok s" and node: "s_recvd_frames (sk s) = Ptr n 0" "blocks s n = Some (fragment_node (Ptr a 0))"
    and f: "blocks s a = Some (OFrame f)" "\<not> f_is_finished f" "f_data f = Ptr x 0" "blocks s x = Some (OBytes (map Some ts))"
      "f_data_size f = length ts" "ts \<noteq> []"
    and g: "blocks s b = Some (OFrame g)" "f_opcode g = rws_opcode_continuation" "f_data g = Ptr y 0"
      "blocks s y = Some (OBytes (map Some rs))" "f_data_size g = length rs"
    and apart: "distinct [a, b, x, y, n]"
  defines "t \<equiv> f\<lparr>f_data := Ptr (next_blk s) (length ts), f_data_size := length ts + length rs, f_is_finished := f_is_finished g\<rparr>"
  obtains s' where "rws_socket_process_received_frame (Ptr b 0) s = Some s'" and "s_recvd_frames (sk s') = Ptr n 0"
    and "blocks s' n = Some (fragment_node (Ptr a 0))" and "blocks s' a = Some (OFrame t)"
    and "blocks s' (next_blk s) = Some (OBytes (map Some (ts @ rs)))" and "fresh_ok s'"
proof -
  define m where "m = next_blk s"
  have new: "a < m" "x < m" "b < m" "y < m" "n < m" using fresh node(2) f(1,4) g(1,4) by (auto simp: fresh_ok_def m_def)
  have ne: "a \<noteq> b" "b \<noteq> a" "x \<noteq> b" "b \<noteq> x" "x \<noteq> y" "y \<noteq> x" "a \<noteq> y" "y \<noteq> a" "x \<noteq> a" "a \<noteq> x" "b \<noteq> y" "y \<noteq> b"
      "n \<noteq> a" "n \<noteq> b" "n \<noteq> x" "n \<noteq> y" using apart by auto
  have last: "last_unfin_loop (Ptr n 0) NULL s = Some (Ptr a 0)"
    using node(2) f(1,2) by (subst last_unfin_loop.simps) (simp add: run_simps last_unfin_end)
  have ld: "load_bytes (f_data g) (f_data_size g) s = Some rs" using g(3-5) by (simp add: run_simps)
  define t1 where "t1 = f\<lparr>f_data := Ptr m (length ts), f_data_size := length ts + length rs\<rparr>"
  define s1 where "s1 = set_heap ((blocks s)(a \<mapsto> OFrame t1, x := None, m \<mapsto> OBytes (map Some (ts @ rs)))) (Suc m) s"
  have comb: "rws_frame_combine_datas (Ptr a 0) (Ptr b 0) s = Some s1"
    using combine_run [OF fresh f(1,3,4,5,6) g(1) ld] by (simp add: s1_def t1_def m_def)
  define s2 where "s2 = set_heap ((blocks s1)(a \<mapsto> OFrame t)) (Suc m) s1"
  have put: "put_frame (Ptr a 0) (t1\<lparr>f_is_finished := f_is_finished g\<rparr>) s1 = Some s2" "get_frame (Ptr a 0) s1 = Some t1"
      "get_frame (Ptr b 0) s1 = Some g"
    using new ne g(1) by (simp_all add: s2_def s1_def t1_def t_def m_def run_simps)
  have at: "frame_at (Ptr b 0) g [b, y] (blocks s2)"
    using g ne new by (simp add: s2_def s1_def frame_at_def)
  define s3 where "s3 = set_heap (\<lambda>c. if c \<in> {b, y} then None else blocks s2 c) (Suc m) s2"
  have del: "rws_frame_delete (Ptr b 0) s2 = Some s3"
    using rws_frame_delete_run [OF at] by (simp add: s3_def s2_def)
  have run: "rws_socket_process_received_frame (Ptr b 0) s = Some s3"
    using node(1) g(1,2) last comb put del
    by (simp add: rws_socket_process_received_frame_def rws_socket_process_bin_or_text_frame_def run_simps
        rws_socket_last_unfin_recvd_frame_by_opcode_def)
  have "fresh_ok s3" using fresh new(1) by (auto simp: s3_def s2_def s1_def m_def fresh_ok_def less_Suc_eq)
  then show thesis
    by (intro that [OF run]) (use new ne node in \<open>simp_all add: s3_def s2_def s1_def m_def\<close>)
qed

lemma combined_not_delivered:
  assumes node: "s_recvd_frames (sk s) = Ptr n 0" "blocks s n = Some (fragment_node (Ptr a 0))"
    and t: "blocks s a = Some (OFrame t)" "f_is_finished t" "f_opcode t \<in> {rws_opcode_text_frame, rws_opcode_binary_frame}" "f_data t = Ptr d (length ts)"
      "f_data_size t = length ts + length rs" "ts \<noteq> []"
    and d: "blocks s d = Some (OBytes (map Some (ts @ rs)))" and size: "length ts + length rs < 2 ^ 32"
  shows "rws_socket_inform_recvd_frames user s = None"
proof -
  have len: "unat (word_of_nat (length ts + length rs) :: u32) = length ts + length rs"
    using size by (simp add: unat_of_nat del: of_nat_add)
  have "callback_bytes t s = None"
    using d len t(4-6) by (simp add: callback_bytes_def load_bytes_def load_past_end del: of_nat_add)
  moreover have "rws_frame_delete (Ptr a 0) s = None"
    using t by (simp add: rws_frame_delete_def run_simps rws_free_bad)
  ultimately have "deliver_frame user t s \<bind> rws_frame_delete (Ptr a 0) = None"
    using t(3) by (auto simp: deliver_frame_def)
  then have "inform_loop user (Ptr n 0) True s = None"
    using node(2) t(1,2) by (subst inform_loop.simps) (auto simp: run_simps Option.bind_eq_None_conv)
  then show ?thesis using node(1) by (simp add: rws_socket_inform_recvd_frames_def)
qed

lemma combined_not_extended:
  assumes node: "s_recvd_frames (sk s) = Ptr n 0" "blocks s n = Some (fragment_node (Ptr a 0))"
    and t: "blocks s a = Some (OFrame t)" "\<not> f_is_finished t" "f_data t = Ptr d (length ts)"
      "f_data_size t = length ts + length rs" "ts \<noteq> []"
    and d: "blocks s d = Some (OBytes (map Some (ts @ rs)))" and fresh: "fresh_ok s"
    and h: "get_frame r s = Some h" "f_opcode h \<in> {rws_opcode_text_frame, rws_opcode_binary_frame, rws_opcode_continuation}"
  shows "rws_socket_process_received_frame r s = None"
proof -
  have last: "last_unfin_loop (Ptr n 0) NULL s = Some (Ptr a 0)"
    using node(2) t(1,2) by (subst last_unfin_loop.simps) (simp add: run_simps last_unfin_end)
  have "d \<noteq> next_blk s" using d fresh by (auto simp: fresh_ok_def)
  then have past: "memcpy q (Ptr d (length ts)) (length ts + length rs) (set_heap ((blocks s)(next_blk s \<mapsto> obj)) k s) = None" for q obj k
    using d t(5) by (simp add: memcpy_def load_past_end)
  have "rws_frame_combine_datas (Ptr a 0) r s = None"
    using t(1,3-5) h(1) past by (simp add: rws_frame_combine_datas_def run_simps case_prod_unfold)
  then show ?thesis
    using h node(1) last
    by (auto simp: rws_socket_process_received_frame_def rws_socket_process_bin_or_text_frame_def
        rws_socket_last_unfin_recvd_frame_by_opcode_def)
qed

text \<open>C35: A message in fragments is lost to undefined behaviour.  Let the receive queue be empty, and let the first fragment of a
  text or binary message carry some data.  It is queued, and the second fragment, if it carries a data block, is combined with it, both without
  error; but the combined frame points behind its first part.  If the second fragment was the last one, delivery of the message reads past the end
  of the buffer, or, without a callback, frees a pointer into the middle of a block; if it was not, the next fragment that
  arrives, whatever it carries, makes the combination read past the end.\<close>

theorem fragmented_message_undefined:
  assumes fresh: "fresh_ok s" and empty: "s_recvd_frames (sk s) = NULL"
    and f: "frame_at p f [a, x] (blocks s)" "f_opcode f \<in> {rws_opcode_text_frame, rws_opcode_binary_frame}" "\<not> f_is_finished f"
      "blocks s x = Some (OBytes (map Some ts))" "f_data_size f = length ts" "ts \<noteq> []"
    and g: "frame_at q g [b, y] (blocks s)" "f_opcode g = rws_opcode_continuation"
      "blocks s y = Some (OBytes (map Some rs))" "f_data_size g = length rs"
    and sep: "{a, x} \<inter> {b, y} = {}" and size: "length ts + length rs < 2 ^ 32"
  shows "\<exists>s1 s2. rws_socket_process_received_frame p s = Some s1 \<and> rws_socket_process_received_frame q s1 = Some s2 \<and>
    (f_is_finished g \<longrightarrow> rws_socket_inform_recvd_frames user s2 = None) \<and>
    (\<not> f_is_finished g \<longrightarrow> (\<forall>r h. get_frame r s2 = Some h \<and>
       f_opcode h \<in> {rws_opcode_text_frame, rws_opcode_binary_frame, rws_opcode_continuation} \<longrightarrow>
       rws_socket_process_received_frame r s2 = None))"
proof -
  have p: "p = Ptr a 0" "blocks s a = Some (OFrame f)" "f_data f = Ptr x 0" "a \<noteq> x"
    using f(1) by (auto simp: frame_at_def split: ptr.splits)
  have q: "q = Ptr b 0" "blocks s b = Some (OFrame g)" "f_data g = Ptr y 0" "b \<noteq> y"
    using g(1) by (auto simp: frame_at_def split: ptr.splits)
  define n where "n = next_blk s"
  have new: "a < n" "x < n" "b < n" "y < n" using fresh p q f(4) g(3) by (auto simp: fresh_ok_def n_def)
  let ?t = "set_heap ((blocks s)(n \<mapsto> fragment_node p)) (Suc n) (s\<lparr>sk := (sk s)\<lparr>s_recvd_frames := Ptr n 0\<rparr>\<rparr>)"
  have first: "rws_socket_process_received_frame p s = Some ?t"
    using first_fragment_queued [OF empty p(1,2) f(2,3) p(3)] f(5,6) by (simp add: n_def)
  have t: "fresh_ok ?t" "s_recvd_frames (sk ?t) = Ptr n 0" "blocks ?t n = Some (fragment_node (Ptr a 0))" "blocks ?t a = Some (OFrame f)"
      "blocks ?t x = Some (OBytes (map Some ts))" "blocks ?t b = Some (OFrame g)" "blocks ?t y = Some (OBytes (map Some rs))"
    using fresh new p q f(4) g(3) by (auto simp: fresh_ok_def n_def less_Suc_eq)
  have apart: "distinct [a, b, x, y, n]" using new sep p(4) q(4) by auto
  obtain s2 where s2: "rws_socket_process_received_frame (Ptr b 0) ?t = Some s2" "s_recvd_frames (sk s2) = Ptr n 0"
      "blocks s2 n = Some (fragment_node (Ptr a 0))"
      "blocks s2 a = Some (OFrame (f\<lparr>f_data := Ptr (next_blk ?t) (length ts), f_data_size := length ts + length rs,
         f_is_finished := f_is_finished g\<rparr>))"
      "blocks s2 (next_blk ?t) = Some (OBytes (map Some (ts @ rs)))" "fresh_ok s2"
    by (rule second_fragment_combined [OF t(1-4) f(3) p(3) t(5) f(5,6) t(6) g(2) q(3) t(7) g(4) apart])
  have "rws_socket_inform_recvd_frames user s2 = None" if "f_is_finished g"
    by (rule combined_not_delivered [OF s2(2-4) _ _ _ _ f(6) s2(5) size]) (use that f(2) in simp_all)
  moreover have "rws_socket_process_received_frame r s2 = None" if "\<not> f_is_finished g" "get_frame r s2 = Some h"
      "f_opcode h \<in> {rws_opcode_text_frame, rws_opcode_binary_frame, rws_opcode_continuation}" for r h
    by (rule combined_not_extended [OF s2(2-4) _ _ _ f(6) s2(5,6) that(2,3)]) (use that(1) in simp_all)
  ultimately show ?thesis using first s2(1) q(1) by blast
qed

theorem fragmented_message_undefined_witness:
  "\<exists>s1 s2. rws_socket_process_received_frame (Ptr 0 0) (sys_of
      [OFrame (zero_frame\<lparr>f_data := Ptr 1 0, f_data_size := 1, f_opcode := 1\<rparr>), OBytes [Some 72],
       OFrame (zero_frame\<lparr>f_data := Ptr 3 0, f_data_size := 1, f_is_finished := True\<rparr>), OBytes [Some 105]] zero_socket quiet_env) = Some s1 \<and>
    rws_socket_process_received_frame (Ptr 2 0) s1 = Some s2 \<and> rws_socket_inform_recvd_frames (\<lambda>_. Some) s2 = None"
proof -
  let ?f = "zero_frame\<lparr>f_data := Ptr 1 0, f_data_size := 1, f_opcode := 1\<rparr>"
  let ?g = "zero_frame\<lparr>f_data := Ptr 3 0, f_data_size := 1, f_is_finished := True\<rparr>"
  let ?s = "sys_of [OFrame ?f, OBytes [Some 72], OFrame ?g, OBytes [Some 105]] zero_socket quiet_env"
  show ?thesis
    using fragmented_message_undefined [of ?s "Ptr 0 0" ?f 0 1 "[72]" "Ptr 2 0" ?g 2 3 "[105]" "\<lambda>_. Some"]
    by (simp add: frame_at_def zero_frame_def zero_socket_def)
qed

section \<open>Any input\<close>

lemma consume_total:
  assumes "buffer_at (blocks s) (sk s) bs D" and "0 < t" "t \<le> length bs"
  shows "consume_received t s \<noteq> None"
proof -
  have "bs \<noteq> []" using assms(2,3) by auto
  with assms(1) obtain b cs where b: "s_received (sk s) = Ptr b 0" "blocks s b = Some (OBytes cs)"
      "length bs \<le> length cs" by (auto elim: buffer_at_cases)
  moreover have "s_received_len (sk s) = length bs" using assms(1) by (rule buffer_at_len)
  ultimately show ?thesis using assms(2,3)
    by (simp add: consume_received_def memcpy_def load_block store_block Let_def)
qed

lemma process_unfinished:
  assumes ses: "session s E bs D ns Fs xs ms Gs ys" and fr: "beside s (foot E D ns Fs ms Gs) q f Df"
    and op: "f_opcode f \<in> {0, 1, 2}" and data: "f_data f \<noteq> NULL" "f_data_size f \<noteq> 0"
  obtains s' where "rws_socket_process_received_frame q s = Some s'" and "buffer_at (blocks s') (sk s') bs D"
proof -
  have get: "get_frame q s = Some f" using fr by (auto simp: beside_def run_simps dest!: frame_at_Ptr)
  have run: "rws_socket_process_received_frame q s = rws_socket_append_recvd_frames q s"
    using op get data last_unfin_session [OF ses]
    by (auto simp: rws_socket_process_received_frame_def rws_socket_process_bin_or_text_frame_def)
  from ses fr have pre: "fresh_ok s" "queue_at (blocks s) (s_recvd_frames (sk s)) ns Fs" "frame_at q f Df (blocks s)"
      "set Df \<inter> set (queue_blks ns Fs) = {}"
    by (auto simp: session_def beside_def queue_holds_def)
  obtain B p where new: "rws_socket_append_recvd_frames q s = Some (set_heap B (Suc (next_blk s)) (s\<lparr>sk := (sk s)\<lparr>s_recvd_frames := p\<rparr>\<rparr>))"
    and same: "\<forall>b. b \<notin> node_blks ns \<longrightarrow> b \<noteq> next_blk s \<longrightarrow> B b = blocks s b"
    using recvd_queue.enq_frame [OF pre] by blast
  have "B b = blocks s b" if "b \<in> set D" for b
  proof -
    have "b \<notin> node_blks ns" using that ses node_blks_sub [of b ns Fs] by (auto simp: session_def)
    moreover have "b \<noteq> next_blk s" using that session_live(2) [OF ses, of b] by auto
    ultimately show ?thesis using same by blast
  qed
  then have "buffer_at B (sk s) bs D"
    using ses by (intro buffer_at_cong [of "sk s" "sk s" D B "blocks s"]) (auto simp: session_def)
  with run new show thesis by (intro that [of "set_heap B (Suc (next_blk s)) (s\<lparr>sk := (sk s)\<lparr>s_recvd_frames := p\<rparr>\<rparr>)"]) simp_all
qed

text \<open>A frame is built from the bytes that the check accepts, if they make one, and processed.\<close>

lemma create_process_total:
  assumes ses: "session s [] all D ns Fs xs ms Gs ys" and t: "t = check_size all" "0 < t"
  obtains q s2 s3 where "rws_frame_create_with_recv_data (s_received (sk s)) t s = Some (q, s2)"
    and "(if q \<noteq> NULL then rws_socket_process_received_frame q s2 else Some s2) = Some s3"
    and "buffer_at (blocks s3) (sk s3) all D"
proof -
  let ?u = "take t all"
  have le: "t \<le> length all" using check_size_le [of all] by (simp add: t(1))
  have buf: "buffer_at (blocks s) (sk s) all D" using ses by (simp add: session_def)
  have "all \<noteq> []" using t(2) le by auto
  note ld = buffer_at_load [OF buf this]
  show thesis
  proof (cases "t < 2 \<or> t < hdr_len ?u")
    case True
    have "load_bytes (s_received (sk s)) t s = Some ?u" using load_bytes_prefix [OF ld le] .
    from recv_create_short [OF this True] buf show thesis by (intro that [of NULL s s]) simp_all
  next
    case False
    have lu: "length ?u = t" using le by simp
    then have fits: "2 \<le> length ?u" "hdr_len ?u + low_len ?u \<le> length ?u"
      using checked_size [of t all] t le False by auto
    obtain s2 f Df where s2: "rws_frame_create_with_recv_data (s_received (sk s)) (length ?u) s = Some (Ptr (next_blk s) 0, s2)"
      "session s2 [] all D ns Fs xs ms Gs ys" "beside s2 (foot [] D ns Fs ms Gs) (Ptr (next_blk s) 0) f Df"
      "f_opcode f = of_nat (opcode_of ?u)" "f_is_finished f = (128 \<le> unat (?u ! 0))"
      "f_data f = NULL \<and> f_data_size f = 0 \<and> (opcode_of ?u \<in> {8, 10} \<or> payload_at ?u = []) \<or>
        opcode_of ?u \<notin> {8, 10} \<and> payload_at ?u \<noteq> [] \<and> f_data_size f = length (payload_at ?u) \<and>
        (\<exists>d \<in> set Df. f_data f = Ptr d 0 \<and> blocks s2 d = Some (OBytes (map Some (payload_at ?u))))"
      by (rule recv_frame_session [OF ses _ fits, of "drop t all"]) simp_all
    have "\<exists>s3. rws_socket_process_received_frame (Ptr (next_blk s) 0) s2 = Some s3 \<and> buffer_at (blocks s3) (sk s3) all D"
    proof (cases "regular ?u")
      case True
      show ?thesis by (rule process_regular [OF s2(2,3) True s2(4-6)]) (auto simp: session_def)
    next
      case False
      then have "f_opcode f \<in> {0, 1, 2}" "f_data f \<noteq> NULL" "f_data_size f \<noteq> 0"
        using fits s2(4,6) by (auto simp: regular_def)
      from process_unfinished [OF s2(2,3) this] show ?thesis by blast
    qed
    with s2(1) lu that [of "Ptr (next_blk s) 0" s2] show thesis by auto
  qed
qed

text \<open>C5: No input breaks a round of the receiver that starts without an unfinished fragment: whatever
  bytes arrive and however reading ends, \<open>rws_socket_idle_recv\<close> runs to its end without touching
  memory it does not own.\<close>

theorem idle_recv_safe:
  assumes ses: "session s E bs D ns Fs xs ms Gs ys"
  shows "rws_socket_idle_recv s \<noteq> None"
proof (cases "recv_ok s")
  case False
  from ses have pre: "fresh_ok s" "err_own s E" "buffer_at (blocks s) (sk s) bs D" "set E \<inter> set D = {}"
    by (auto simp: session_def)
  from rws_socket_recv_run [OF this] False show ?thesis by (auto simp: rws_socket_idle_recv_def)
next
  case True
  define all where "all = bs @ recv_data (fst (recv_result s))"
  obtain s1 D1 where s1: "rws_socket_recv s = Some (True, s1)" "session s1 [] all D1 ns Fs xs ms Gs ys"
    unfolding all_def by (rule recv_session [OF ses True]) blast
  have buf: "buffer_at (blocks s1) (sk s1) all D1" using s1(2) by (simp add: session_def)
  have chk: "rws_check_recv_frame_size (s_received (sk s1)) (s_received_len (sk s1)) s1 = Some (check_size all)"
    using check_recv_frame_size_run [OF buffer_at_load [OF buf]] buffer_at_len [OF buf]
    by (cases "all = []") (simp_all add: rws_check_recv_frame_size_def check_size_def)
  show ?thesis
  proof (cases "check_size all = 0")
    case True
    then show ?thesis using s1(1) chk by (simp add: rws_socket_idle_recv_def)
  next
    case False
    then have t: "0 < check_size all" "check_size all \<le> length all" using check_size_le [of all] by simp_all
    obtain q s2 s3 where "rws_frame_create_with_recv_data (s_received (sk s1)) (check_size all) s1 = Some (q, s2)"
        "(if q \<noteq> NULL then rws_socket_process_received_frame q s2 else Some s2) = Some s3" "buffer_at (blocks s3) (sk s3) all D1"
      by (rule create_process_total [OF s1(2) refl t(1)])
    then show ?thesis using s1(1) chk t(1) consume_total [OF _ t] by (fastforce simp: rws_socket_idle_recv_def)
  qed
qed

theorem idle_recv_safe_witness:
  "rws_socket_idle_recv (sys_of [] (zero_socket\<lparr>s_socket := 3\<rparr>)
     (quiet_env\<lparr>env_recv := sconst ([[1, 255, 0, 0, 0, 0, 255, 255, 255, 255, 1, 2, 3, 4]], EAGAIN)\<rparr>)) \<noteq> None"
proof -
  let ?s = "sys_of [] (zero_socket\<lparr>s_socket := 3\<rparr>)
     (quiet_env\<lparr>env_recv := sconst ([[1, 255, 0, 0, 0, 0, 255, 255, 255, 255, 1, 2, 3, 4]], EAGAIN)\<rparr>)"
  have "session ?s [] [] [] [] [] [] [] [] []"
    by (simp add: session_def buffer_at_def zero_socket_def queue_blks_def)
  then show ?thesis by (rule idle_recv_safe)
qed

end
