(* ===== verification/Rws_Delivery.thy ===== *)
theory Rws_Delivery imports Rws_Receiver begin

text \<open>
  Delivery of the received messages to the callbacks of the application
  (\<open>rws_socket_inform_recvd_frames\<close>).
\<close>

section \<open>Delivery\<close>

text \<open>
  The callback made for a queued message, if the application has set it; frames of other opcodes
  are passed over.
\<close>

definition event_of :: "rws_socket \<Rightarrow> rws_opcode \<times> u8 list \<Rightarrow> event list" where
  "event_of k x =
     (if fst x = rws_opcode_text_frame then (if s_on_recvd_text k = None then [] else [On_text (snd x)])
      else if fst x = rws_opcode_binary_frame then (if s_on_recvd_bin k = None then [] else [On_bin (snd x)])
      else [])"

lemma carries_bytes:
  assumes "carries (blocks s) F x" and "length (snd x) < 2 ^ 32"
  shows "callback_bytes (fst F) s = Some (snd x)"
proof -
  have "unat (word_of_nat (length (snd x)) :: u32) = length (snd x)" using assms(2) by (simp add: unat_of_nat)
  then show ?thesis using assms(1) by (auto simp: carries_def callback_bytes_def run_simps)
qed

text \<open>Callbacks for received data that only look at it.\<close>

definition looks_on :: "user_code \<Rightarrow> bool" where
  "looks_on user \<longleftrightarrow> (\<forall>bs s. user (On_text bs) s = Some s \<and> user (On_bin bs) s = Some s)"

lemma looks_onI: "(\<And>e s. user e s = Some s) \<Longrightarrow> looks_on user"
  by (simp add: looks_on_def)

lemma deliver_run:
  assumes "looks_on user" and "carries (blocks s) F x" and "length (snd x) < 2 ^ 32"
  shows "deliver_frame user (fst F) s = Some (s\<lparr>trace := trace s @ event_of (sk s) x\<rparr>)"
  using assms carries_bytes [OF assms(2,3)]
  by (auto simp: deliver_frame_def event_of_def call_user_def carries_def looks_on_def)

definition emptied :: "(nat \<times> ptr) list \<Rightarrow> (nat \<times> ptr) list" where
  "emptied ns = map (\<lambda>n. (fst n, NULL)) ns"

lemma inform_loop_run:
  assumes user: "looks_on user"
  shows "nodes_at (blocks s) p ns \<Longrightarrow> list_all2 (\<lambda>n F. frame_at (snd n) (fst F) (snd F) (blocks s)) ns Fs \<Longrightarrow>
    list_all2 (carries (blocks s)) Fs xs \<Longrightarrow> distinct (queue_blks ns Fs) \<Longrightarrow>
    list_all (\<lambda>x. length (snd x) < 2 ^ 32) xs \<Longrightarrow>
    \<exists>B. inform_loop user p r s = Some (r, set_heap B (next_blk s)
        (s\<lparr>trace := trace s @ concat (map (event_of (sk s)) xs)\<rparr>)) \<and>
      nodes_at B p (emptied ns) \<and> (\<forall>b \<in> set (concat (map snd Fs)). B b = None) \<and>
      (\<forall>b. b \<notin> set (queue_blks ns Fs) \<longrightarrow> B b = blocks s b)"
proof (induction ns arbitrary: p Fs xs s)
  case Nil
  then have "p = NULL" "Fs = []" "xs = []" by simp_all
  then show ?case by (intro exI [of _ "blocks s"]) (subst inform_loop.simps, simp add: set_heap_def emptied_def)
next
  case (Cons n ns)
  obtain b v where n: "n = (b, v)" by (cases n)
  obtain F Fs' where Fs: "Fs = F # Fs'" using Cons.prems(2) by (cases Fs) auto
  obtain x xs' where xs: "xs = x # xs'" using Cons.prems(3) Fs by (cases xs) auto
  have at: "frame_at v (fst F) (snd F) (blocks s)" and ats: "list_all2 (\<lambda>n F. frame_at (snd n) (fst F) (snd F) (blocks s)) ns Fs'"
    and car: "carries (blocks s) F x" and cars: "list_all2 (carries (blocks s)) Fs' xs'"
    and len: "length (snd x) < 2 ^ 32" and lens: "list_all (\<lambda>x. length (snd x) < 2 ^ 32) xs'"
    using Cons.prems n Fs xs by auto
  from Cons.prems(1) n obtain y where y: "p = Ptr b 0" "blocks s b = Some (ONode y)" "n_value y = v"
      "nodes_at (blocks s) (n_next y) ns" by auto
  have dist: "b \<notin> set (queue_blks ns Fs')" "b \<notin> set (snd F)" "set (snd F) \<inter> set (queue_blks ns Fs') = {}"
      "distinct (queue_blks ns Fs')"
    using Cons.prems(4) n Fs by (auto simp: queue_blks_def)
  from frame_at_Ptr [OF at] obtain c C where c: "v = Ptr c 0" "blocks s c = Some (OFrame (fst F))" by auto
  have fin: "f_is_finished (fst F)" using car by (simp add: carries_def)
  let ?s1 = "s\<lparr>trace := trace s @ event_of (sk s) x\<rparr>"
  let ?B = "(\<lambda>a. if a \<in> set (snd F) then None else blocks s a)(b \<mapsto> ONode (y\<lparr>n_value := NULL\<rparr>))"
  let ?s2 = "set_heap ?B (next_blk s) ?s1"
  have del: "rws_frame_delete v ?s1 = Some (set_heap (\<lambda>a. if a \<in> set (snd F) then None else blocks s a) (next_blk s) ?s1)"
  proof -
    have "blocks ?s1 = blocks s" "next_blk ?s1 = next_blk s" by simp_all
    then show ?thesis using rws_frame_delete_run [of v "fst F" "snd F" ?s1] at by metis
  qed
  have step: "inform_loop user p r s = inform_loop user (n_next y) r ?s2"
    using y c fin deliver_run [OF user car len] del dist(2)
    by (subst inform_loop.simps) (simp add: run_simps)
  have keep: "blocks ?s2 a = blocks s a" if "a \<in> set (queue_blks ns Fs')" for a
    using that dist by auto
  have n1: "nodes_at (blocks ?s2) (n_next y) ns"
    using y(4) keep nodes_at_cong [of ns "blocks ?s2" "blocks s"] node_blks_sub by (metis (no_types, lifting))
  have n2: "list_all2 (\<lambda>n F. frame_at (snd n) (fst F) (snd F) (blocks ?s2)) ns Fs'"
    using ats keep frames_cong [of Fs' "blocks ?s2" "blocks s" ns] by (auto simp: queue_blks_def)
  have n3: "list_all2 (carries (blocks ?s2)) Fs' xs'"
  proof (rule carries_list_cong [OF _ cars])
    fix F a assume "F \<in> set Fs'" "a \<in> set (snd F)"
    then show "blocks ?s2 a = blocks s a" by (intro keep) (auto simp: queue_blks_def)
  qed
  from Cons.IH [OF n1 n2 n3 dist(4) lens] obtain B where
      "inform_loop user (n_next y) r ?s2 = Some (r, set_heap B (next_blk ?s2)
        (?s2\<lparr>trace := trace ?s2 @ concat (map (event_of (sk ?s2)) xs')\<rparr>))"
      "nodes_at B (n_next y) (emptied ns)" "\<forall>b \<in> set (concat (map snd Fs')). B b = None"
      "\<forall>b. b \<notin> set (queue_blks ns Fs') \<longrightarrow> B b = blocks ?s2 b" by blast
  then have B: "inform_loop user (n_next y) r ?s2 = Some (r, set_heap B (next_blk s)
        (s\<lparr>trace := trace s @ event_of (sk s) x @ concat (map (event_of (sk s)) xs')\<rparr>))"
      "nodes_at B (n_next y) (emptied ns)" "\<forall>b \<in> set (concat (map snd Fs')). B b = None"
      "\<forall>b. b \<notin> set (queue_blks ns Fs') \<longrightarrow> B b = ?B b"
    by (simp_all add: set_heap_def)
  have "nodes_at B p (emptied (n # ns))"
    using B(2,4) dist(1) y(1) n by (simp add: emptied_def)
  moreover have "\<forall>b \<in> set (concat (map snd Fs)). B b = None"
    using B(3,4) dist Fs by auto
  moreover have "\<forall>a. a \<notin> set (queue_blks (n # ns) Fs) \<longrightarrow> B a = blocks s a"
    using B(4) n Fs by (auto simp: queue_blks_def)
  ultimately show ?case using step B(1) xs by auto
qed

lemma node_blks_emptied [simp]: "node_blks (emptied ns) = node_blks ns"
  by (force simp: emptied_def)

lemma session_drop_recvd:
  assumes "session s E bs D ns Fs xs ms Gs ys" and "fresh_ok s'"
    and "\<And>b. b \<in> set E \<union> set D \<union> set (queue_blks ms Gs) \<Longrightarrow> blocks s' b = blocks s b"
    and "s_error (sk s') = s_error (sk s)" "s_received (sk s') = s_received (sk s)"
      "s_received_size (sk s') = s_received_size (sk s)" "s_received_len (sk s') = s_received_len (sk s)"
      "s_recvd_frames (sk s') = NULL" "s_send_frames (sk s') = s_send_frames (sk s)"
  shows "session s' E bs D [] [] [] ms Gs ys"
  using assms err_own_cong [of s' s E] buffer_at_cong [of "sk s'" "sk s" D "blocks s'" "blocks s" bs]
    queue_holds_cong [of ms Gs "blocks s'" "blocks s"]
  by (auto simp: session_def queue_blks_def)

lemma inform_run:
  assumes "session s E bs D ns Fs xs ms Gs ys" and "list_all (\<lambda>x. length (snd x) < 2 ^ 32) xs"
    and "looks_on user"
  shows "\<exists>s'. rws_socket_inform_recvd_frames user s = Some s' \<and>
    trace s' = trace s @ concat (map (event_of (sk s)) xs) \<and> session s' E bs D [] [] [] ms Gs ys \<and>
    s_recvd_frames (sk s') = NULL \<and> (\<forall>b \<in> set (queue_blks ns Fs). blocks s' b = None) \<and> keeps_mutexes s s' \<and>
    sk s' = (sk s)\<lparr>s_recvd_frames := NULL\<rparr> \<and> ev s' = ev s \<and>
    evolves (foot E D ns Fs ms Gs) s (foot E D [] [] ms Gs) s'"
proof -
  have at: "nodes_at (blocks s) (s_recvd_frames (sk s)) ns" "distinct (queue_blks ns Fs)"
    "list_all2 (\<lambda>n F. frame_at (snd n) (fst F) (snd F) (blocks s)) ns Fs" "list_all2 (carries (blocks s)) Fs xs"
    using assms(1) by (simp_all add: session_def queue_holds_def queue_at_def)
  obtain B where B: "inform_loop user (s_recvd_frames (sk s)) True s = Some (True, set_heap B (next_blk s)
        (s\<lparr>trace := trace s @ concat (map (event_of (sk s)) xs)\<rparr>))"
      "nodes_at B (s_recvd_frames (sk s)) (emptied ns)" "\<forall>b \<in> set (concat (map snd Fs)). B b = None"
      "\<forall>b. b \<notin> set (queue_blks ns Fs) \<longrightarrow> B b = blocks s b"
    using inform_loop_run [where user = user and r = True, OF assms(3) at(1,3,4,2) assms(2)] by blast
  let ?B = "\<lambda>b. if b \<in> node_blks ns then None else B b"
  let ?s' = "set_heap ?B (next_blk s) (s\<lparr>trace := trace s @ concat (map (event_of (sk s)) xs),
    sk := (sk s)\<lparr>s_recvd_frames := NULL\<rparr>\<rparr>)"
  have run: "rws_socket_inform_recvd_frames user s = Some ?s'"
    using B(1) rws_list_delete_run [of "set_heap B (next_blk s) (s\<lparr>trace := trace s @ concat (map (event_of (sk s)) xs)\<rparr>)"
        "s_recvd_frames (sk s)" "emptied ns"] B(2)
    by (simp add: rws_socket_inform_recvd_frames_def rws_list_delete_clean_def run_simps cong del: if_weak_cong)
  have old: "blocks ?s' b = blocks s b" if "b \<notin> set (queue_blks ns Fs)" for b
    using that B(4) by (auto simp: queue_blks_def)
  have apart: "set (queue_blks ns Fs) \<inter> (set E \<union> set D \<union> set (queue_blks ms Gs)) = {}"
    using assms(1) by (auto simp: session_def)
  have above: "b < next_blk s" if "blocks ?s' b \<noteq> None" for b
  proof (cases "b \<in> set (queue_blks ns Fs)")
    case True
    then show ?thesis using session_live(2) [OF assms(1), of b] by simp
  next
    case False
    then have "blocks s b \<noteq> None" using that old by simp
    then show ?thesis using assms(1) by (simp add: session_def fresh_ok_def)
  qed
  then have "fresh_ok ?s'" unfolding fresh_ok_def by simp
  then have "session ?s' E bs D [] [] [] ms Gs ys"
  proof (rule session_drop_recvd [OF assms(1)])
    fix b assume "b \<in> set E \<union> set D \<union> set (queue_blks ms Gs)"
    then have "b \<notin> set (queue_blks ns Fs)" using apart by blast
    then show "blocks ?s' b = blocks s b" by (rule old)
  qed simp_all
  moreover have "blocks ?s' b = None" if "b \<in> set (queue_blks ns Fs)" for b
    using that B(3) by (auto simp: queue_blks_def)
  moreover have ev: "evolves (foot E D ns Fs ms Gs) s (foot E D [] [] ms Gs) ?s'"
  proof (rule evolvesI)
    fix k assume "k \<notin> foot E D ns Fs ms Gs"
    then show "k \<notin> foot E D [] [] ms Gs \<and> blocks ?s' k = blocks s k" using old [of k] by (auto simp: queue_blks_def)
  qed simp
  moreover have "keeps_mutexes s ?s'" by (rule evolves_keeps [OF assms(1) ev])
  ultimately show ?thesis using run by (intro exI [of _ ?s']) simp
qed

text \<open>C15: Delivery.  One round of delivery calls the callbacks the application has set, once per
  finished message and in the order of arrival, each with exactly the bytes of its message; it then
  has released every frame, its data and every list entry, the receive queue is empty, and the
  buffer and the send queue are as before.\<close>

theorem messages_delivered_in_order:
  assumes "session s E bs D ns Fs xs ms Gs ys" and "list_all (\<lambda>x. length (snd x) < 2 ^ 32) xs"
    and "\<And>e s. user e s = Some s"
  shows "\<exists>s'. rws_socket_inform_recvd_frames user s = Some s' \<and>
    trace s' = trace s @ concat (map (event_of (sk s)) xs) \<and> session s' E bs D [] [] [] ms Gs ys \<and>
    s_recvd_frames (sk s') = NULL \<and> (\<forall>b \<in> set (queue_blks ns Fs). blocks s' b = None)"
  using inform_run [where user = user, OF assms(1,2) looks_onI [OF assms(3)]] by blast

theorem messages_delivered_in_order_witness:
  "\<exists>s'. rws_socket_inform_recvd_frames (\<lambda>_. Some)
      (sys_of [ONode \<lparr>n_value = Ptr 1 0, n_next = NULL\<rparr>,
        OFrame (zero_frame\<lparr>f_data := Ptr 2 0, f_data_size := 2, f_opcode := 1, f_is_finished := True\<rparr>),
        OBytes [Some 72, Some 105]] (zero_socket\<lparr>s_recvd_frames := Ptr 0 0, s_on_recvd_text := Some 0\<rparr>) quiet_env) = Some s' \<and>
     trace s' = [On_text [72, 105]] \<and> s_recvd_frames (sk s') = NULL"
proof -
  let ?f = "zero_frame\<lparr>f_data := Ptr 2 0, f_data_size := 2, f_opcode := 1, f_is_finished := True\<rparr>"
  let ?s = "sys_of [ONode \<lparr>n_value = Ptr 1 0, n_next = NULL\<rparr>, OFrame ?f, OBytes [Some 72, Some 105]]
    (zero_socket\<lparr>s_recvd_frames := Ptr 0 0, s_on_recvd_text := Some 0\<rparr>) quiet_env"
  have "session ?s [] [] [] [(0, Ptr 1 0)] [(?f, [1, 2])] [(1, [72, 105])] [] [] []"
    by (simp add: session_def buffer_at_def zero_socket_def queue_blks_def queue_holds_def queue_at_def
        carries_def frame_at_def zero_frame_def)
  from messages_delivered_in_order [OF this, of "\<lambda>_. Some"] show ?thesis
    by (auto simp: event_of_def zero_socket_def)
qed

text \<open>A message whose first fragment is empty never reaches the application.  The empty first frame
  leaves no trace in the queue, so the final continuation frame is queued as a message of its own,
  with the opcode of a continuation; delivery frees it without any callback.\<close>

lemma empty_first_fragment_loses_message:
  assumes "session s E [] D [] [] [] ms Gs ys" and "incoming s [[op, 0], encode (0, None, p)]"
    and "op \<in> {1, 2}" and "p \<noteq> []" and "encodable (0, None, p)" and "\<And>e s. user e s = Some s"
  shows "\<exists>s1 s2. idle_recvs 2 s = Some s1 \<and> rws_socket_inform_recvd_frames user s1 = Some s2 \<and>
    s_recvd_frames (sk s2) = NULL \<and> trace s2 = trace s"
proof -
  let ?v = "encode (0, None, p)"
  have len: "length p < 2 ^ 32" using assms(5) by (simp add: encodable_def)
  have u: "hdr_len [op, 0] = 2" "low_len [op, 0] = 0" "payload_at [op, 0] = []" "opcode_of [op, 0] = unat op"
    using assms(3) by (auto simp: hdr_len_def low_len_def payload_at_def masked_bit_def len7_def opcode_of_def)
  have v: "check_size ?v = length ?v" "regular ?v" "opcode_of ?v = 0" "payload_at ?v = p"
    using check_size_encode [of None p 0 "[]"] encode_regular(1) [OF _ assms(5)] encode_opcode [of 0 None p]
      payload_encode [of None p 0 "[]"] assms(5)
    by (simp_all add: encode_def encodable_def)
  have all: "rounds check_size [] [[op, 0], ?v] = ([[op, 0], ?v], [])"
    using u v(1,2) by (auto simp: take_one_def check_size_def regular_def)
  have reg: "list_all regular (fst (rounds check_size [] [[op, 0], ?v]))"
    unfolding all using u v(2) by (simp add: regular_def)
  have "message_of [op, 0] = []" "message_of ?v = [(0, p)]"
    using u v assms(4) by (simp_all add: message_of_def)
  then have msg: "[] @ concat (map message_of [[op, 0], ?v]) = [(0, p)]" by simp
  have two: "length [[op, 0], ?v] = 2" by simp
  from idle_recvs_run [OF assms(1,2) reg]
  obtain s1 E' D' ns' Fs' ms' Gs' ws where s1: "idle_recvs 2 s = Some s1"
      "session s1 E' [] D' ns' Fs' [(0, p)] ms' Gs' (ys @ ws)" "trace s1 = trace s"
    unfolding all fst_conv snd_conv msg two by blast
  with inform_run [OF s1(2) _ looks_onI [where user = user, OF assms(6)]] len show ?thesis
    by (auto simp: event_of_def)
qed

end
