(* ===== verification/Rws_Sender.thy ===== *)
theory Rws_Sender imports Rws_Delivery begin

text \<open>
  The send queue: \<open>rws_socket_idle_send\<close> on a queue of frames, for every outcome of the calls of
  \<open>send\<close> it makes.
\<close>

section \<open>One frame\<close>

lemma carries_send_bytes:
  assumes "carries B F x" and "length (snd x) < 2 ^ 31" and "blocks s = B"
  shows "load_bytes (f_data (fst F)) (send_len (f_data_size (fst F))) s = Some (snd x)"
  using assms by (auto simp: carries_def run_simps send_len_def)

lemma send_taken:
  assumes "s_error (sk s) = NULL" and "s_socket (sk s) \<noteq> RWS_INVALID_SOCKET"
    and "env_send (ev s) = r ## es" and "0 < fst r" and "load_bytes data (send_len n) s = Some bs"
  shows "rws_socket_send data n s = Some (True, s\<lparr>ev := (ev s)\<lparr>env_send := es\<rparr>,
    trace := trace s @ [Sent (take (nat (fst r)) bs)]\<rparr>)"
proof -
  have "(sk s)\<lparr>s_error := NULL\<rparr> = sk s" using assms(1) by (cases "sk s") simp
  then have "clean_error s = Some s"
    using clean_error_run [of s "[]"] assms(1) by (simp add: set_heap_def)
  then show ?thesis using assms by (simp add: rws_socket_send_def sys_send_def case_prod_beta)
qed

text \<open>The events of a run of successful calls: of every frame the bytes the kernel took.\<close>

definition sent_events :: "(int \<times> int) list \<Rightarrow> (rws_opcode \<times> u8 list) list \<Rightarrow> event list" where
  "sent_events rs xs = map2 (\<lambda>r x. Sent (take (nat (fst r)) (snd x))) rs xs"

lemma sent_events_simps [simp]:
  "sent_events [] [] = []"
  "sent_events (r # rs) (x # xs) = Sent (take (nat (fst r)) (snd x)) # sent_events rs xs"
  by (simp_all add: sent_events_def)

section \<open>A run of frames\<close>

text \<open>Frames, nodes and contents depend on the blocks of the queue only.\<close>

lemma queue_rest_cong:
  assumes keep: "\<And>a. a \<in> set (queue_blks (ns @ us) Fs) \<Longrightarrow> B' a = B a"
    and at: "nodes_at B p (ns @ us)" "list_all2 (\<lambda>n F. frame_at (snd n) (fst F) (snd F) B) ns Fs" "list_all2 (carries B) Fs xs"
  shows "nodes_at B' p (ns @ us)" and "list_all2 (\<lambda>n F. frame_at (snd n) (fst F) (snd F) B') ns Fs"
    and "list_all2 (carries B') Fs xs"
proof -
  show "nodes_at B' p (ns @ us)"
    using at(1) keep nodes_at_cong [of "ns @ us" B' B] node_blks_sub by (metis (no_types, lifting))
  show "list_all2 (\<lambda>n F. frame_at (snd n) (fst F) (snd F) B') ns Fs"
    using at(2) keep frames_cong [of Fs B' B ns] by (auto simp: queue_blks_def)
  show "list_all2 (carries B') Fs xs"
  proof (rule carries_list_cong [OF _ at(3)])
    fix F a assume "F \<in> set Fs" "a \<in> set (snd F)"
    then show "B' a = B a" by (intro keep) (auto simp: queue_blks_def)
  qed
qed

text \<open>One entry of the queue, taken by the kernel.\<close>

lemma send_one_taken:
  assumes y: "blocks s b = Some (ONode y)" and at: "frame_at (n_value y) (fst F) (snd F) (blocks s)" "b \<notin> set (snd F)"
    and car: "carries (blocks s) F x" "length (snd x) < 2 ^ 31"
    and conn: "s_error (sk s) = NULL" "s_socket (sk s) \<noteq> RWS_INVALID_SOCKET" "s_is_connected (sk s)"
    and env: "env_send (ev s) = r ## es" "0 < fst r"
  shows "idle_send_loop (Ptr b 0) True s = idle_send_loop (n_next y) True
    (set_heap (\<lambda>a. if a \<in> set (snd F) then None else ((blocks s)(b \<mapsto> ONode (y\<lparr>n_value := NULL\<rparr>))) a) (next_blk s)
      (s\<lparr>ev := (ev s)\<lparr>env_send := es\<rparr>, trace := trace s @ [Sent (take (nat (fst r)) (snd x))]\<rparr>))"
proof -
  from frame_at_Ptr [OF at(1)] obtain c C where c: "n_value y = Ptr c 0" "snd F = c # C" "blocks s c = Some (OFrame (fst F))" by auto
  let ?s0 = "set_heap ((blocks s)(b \<mapsto> ONode (y\<lparr>n_value := NULL\<rparr>))) (next_blk s) s"
  let ?s1 = "?s0\<lparr>ev := (ev s)\<lparr>env_send := es\<rparr>, trace := trace s @ [Sent (take (nat (fst r)) (snd x))]\<rparr>"
  have car0: "carries (blocks ?s0) F x" by (rule carries_cong [OF _ car(1)]) (use at(2) in auto)
  have at0: "frame_at (n_value y) (fst F) (snd F) (blocks ?s1)"
  proof (subst frame_at_cong [of "snd F" "blocks ?s1" "blocks s"])
    show "blocks ?s1 a = blocks s a" if "a \<in> set (snd F)" for a using that at(2) by auto
  qed (rule at(1))
  have send: "rws_socket_send (f_data (fst F)) (f_data_size (fst F)) ?s0 = Some (True, ?s1)"
    using send_taken [of ?s0 r es, OF _ _ _ env(2) carries_send_bytes [OF car0 car(2) refl]] conn(1,2) env(1) by simp
  have "b \<noteq> c" using c at(2) by auto
  then show ?thesis
    using y c send rws_frame_delete_run [OF at0] at(2) conn(3) by (subst idle_send_loop.simps) (simp add: run_simps cong del: if_weak_cong)
qed

lemma send_loop_run:
  "nodes_at (blocks s) p (ns @ us) \<Longrightarrow>
    list_all2 (\<lambda>n F. frame_at (snd n) (fst F) (snd F) (blocks s)) ns Fs \<Longrightarrow>
    list_all2 (carries (blocks s)) Fs xs \<Longrightarrow> distinct (queue_blks (ns @ us) Fs) \<Longrightarrow>
    list_all (\<lambda>x. length (snd x) < 2 ^ 31) xs \<Longrightarrow>
    s_error (sk s) = NULL \<Longrightarrow> s_socket (sk s) \<noteq> RWS_INVALID_SOCKET \<Longrightarrow> s_is_connected (sk s) \<Longrightarrow>
    env_send (ev s) = rs @- es \<Longrightarrow> length rs = length Fs \<Longrightarrow> list_all (\<lambda>r. 0 < fst r) rs \<Longrightarrow>
    \<exists>B q. idle_send_loop p True s = idle_send_loop q True (set_heap B (next_blk s)
        (s\<lparr>ev := (ev s)\<lparr>env_send := es\<rparr>, trace := trace s @ sent_events rs xs\<rparr>)) \<and>
      nodes_at B p (emptied ns @ us) \<and> nodes_at B q us \<and> (\<forall>b \<in> set (concat (map snd Fs)). B b = None) \<and>
      (\<forall>b. b \<notin> set (queue_blks ns Fs) \<longrightarrow> B b = blocks s b)"
proof (induction ns arbitrary: p Fs xs rs s)
  case Nil
  then have nil: "Fs = []" "xs = []" "rs = []" "env_send (ev s) = es" by simp_all
  then have "(ev s)\<lparr>env_send := es\<rparr> = ev s" by (cases "ev s") auto
  then have same: "set_heap (blocks s) (next_blk s) (s\<lparr>ev := (ev s)\<lparr>env_send := es\<rparr>,
      trace := trace s @ sent_events rs xs\<rparr>) = s"
    unfolding nil by (cases s) (simp add: set_heap_def)
  show ?case
    by (rule exI [of _ "blocks s"], rule exI [of _ p], unfold same) (use Nil.prems(1) nil in \<open>simp add: emptied_def\<close>)
next
  case (Cons n ns)
  obtain b v where n: "n = (b, v)" by (cases n)
  obtain F Fs' where Fs: "Fs = F # Fs'" using Cons.prems(2) by (cases Fs) auto
  obtain x xs' where xs: "xs = x # xs'" using Cons.prems(3) Fs by (cases xs) auto
  obtain r rs' where rs: "rs = r # rs'" using Cons.prems(10) Fs by (cases rs) auto
  have at: "frame_at v (fst F) (snd F) (blocks s)" and ats: "list_all2 (\<lambda>n F. frame_at (snd n) (fst F) (snd F) (blocks s)) ns Fs'"
    and car: "carries (blocks s) F x" and cars: "list_all2 (carries (blocks s)) Fs' xs'"
    and len: "length (snd x) < 2 ^ 31" and lens: "list_all (\<lambda>x. length (snd x) < 2 ^ 31) xs'"
    and pos: "0 < fst r" "list_all (\<lambda>r. 0 < fst r) rs'" and env: "env_send (ev s) = r ## (rs' @- es)"
    and lrs: "length rs' = length Fs'"
    using Cons.prems n Fs xs rs by auto
  from Cons.prems(1) n obtain y where y: "p = Ptr b 0" "blocks s b = Some (ONode y)" "n_value y = v"
      "nodes_at (blocks s) (n_next y) (ns @ us)" by auto
  have dist: "b \<notin> set (queue_blks (ns @ us) Fs')" "b \<notin> set (snd F)" "set (snd F) \<inter> set (queue_blks (ns @ us) Fs') = {}"
      "distinct (queue_blks (ns @ us) Fs')"
    using Cons.prems(4) n Fs by (auto simp: queue_blks_def)
  let ?B = "\<lambda>a. if a \<in> set (snd F) then None else ((blocks s)(b \<mapsto> ONode (y\<lparr>n_value := NULL\<rparr>))) a"
  let ?s2 = "set_heap ?B (next_blk s) (s\<lparr>ev := (ev s)\<lparr>env_send := rs' @- es\<rparr>, trace := trace s @ [Sent (take (nat (fst r)) (snd x))]\<rparr>)"
  have step: "idle_send_loop p True s = idle_send_loop (n_next y) True ?s2"
    unfolding y(1) by (rule send_one_taken [OF y(2) at [folded y(3)] dist(2) car len Cons.prems(6-8) env pos(1)])
  have keep: "blocks ?s2 a = blocks s a" if "a \<in> set (queue_blks (ns @ us) Fs')" for a
    using that dist by auto
  note rest = queue_rest_cong [OF keep y(4) ats cars]
  have n4: "s_error (sk ?s2) = NULL" "s_socket (sk ?s2) \<noteq> RWS_INVALID_SOCKET" "s_is_connected (sk ?s2)"
      "env_send (ev ?s2) = rs' @- es"
    using Cons.prems(6-8) by simp_all
  from Cons.IH [OF rest dist(4) lens n4 lrs pos(2)] obtain B q where
      "idle_send_loop (n_next y) True ?s2 = idle_send_loop q True (set_heap B (next_blk ?s2)
        (?s2\<lparr>ev := (ev ?s2)\<lparr>env_send := es\<rparr>, trace := trace ?s2 @ sent_events rs' xs'\<rparr>))"
      "nodes_at B (n_next y) (emptied ns @ us)" "nodes_at B q us" "\<forall>b \<in> set (concat (map snd Fs')). B b = None"
      "\<forall>b. b \<notin> set (queue_blks ns Fs') \<longrightarrow> B b = blocks ?s2 b" by blast
  then have B: "idle_send_loop (n_next y) True ?s2 = idle_send_loop q True (set_heap B (next_blk s)
        (s\<lparr>ev := (ev s)\<lparr>env_send := es\<rparr>, trace := trace s @ sent_events rs xs\<rparr>))"
      "nodes_at B (n_next y) (emptied ns @ us)" "nodes_at B q us" "\<forall>b \<in> set (concat (map snd Fs')). B b = None"
      "\<forall>b. b \<notin> set (queue_blks ns Fs') \<longrightarrow> B b = ?B b"
    by (simp_all add: set_heap_def rs xs)
  have sub: "set (queue_blks ns Fs') \<subseteq> set (queue_blks (ns @ us) Fs')" by (auto simp: queue_blks_def)
  have "nodes_at B p (emptied (n # ns) @ us)"
    using B(2,5) dist(1,2) sub y(1) n by (auto simp: emptied_def)
  moreover have "\<forall>b \<in> set (concat (map snd Fs)). B b = None"
  proof -
    have "B a = None" if "a \<in> set (snd F)" for a
      using B(5) that dist(3) sub dist(2) by (metis (no_types, lifting) disjoint_iff subsetD)
    then show ?thesis using B(4) Fs by auto
  qed
  moreover have "\<forall>a. a \<notin> set (queue_blks (n # ns) Fs) \<longrightarrow> B a = blocks s a"
    using B(5) n Fs by (auto simp: queue_blks_def)
  ultimately show ?case using step B(1,3) by (intro exI [of _ B] exI [of _ q]) simp
qed

section \<open>The mutex around it\<close>

text \<open>A mutex object with its lock count.  It cannot be one of the blocks of a session.\<close>

definition mutex_at :: "'a mem_scheme \<Rightarrow> ptr \<Rightarrow> nat \<Rightarrow> bool" where
  "mutex_at m p c \<longleftrightarrow> (\<exists>k. p = Ptr k 0 \<and> blocks m k = Some (OMutex c))"

lemma mutex_at_keeps: "keeps_mutexes m m' \<Longrightarrow> mutex_at m p c \<Longrightarrow> mutex_at m' p c"
  by (auto simp: mutex_at_def keeps_mutexes_def)

text \<open>The state with another lock count in the mutex \<open>p\<close>.\<close>

definition with_count :: "ptr \<Rightarrow> nat \<Rightarrow> sys \<Rightarrow> sys" where
  "with_count p c s = set_obj p (OMutex c) s"

lemma with_count_simps [simp]:
  "sk (with_count p c s) = sk s" "ev (with_count p c s) = ev s" "trace (with_count p c s) = trace s"
  "next_blk (with_count p c s) = next_blk s" "rands (with_count p c s) = rands s"
  "b \<notin> ptr_blks p \<Longrightarrow> blocks (with_count p c s) b = blocks s b"
  by (auto simp: with_count_def set_obj_def split: ptr.split)

lemma mutex_at_count: "mutex_at s p c \<Longrightarrow> mutex_at (with_count p c' s) p c'"
  by (auto simp: mutex_at_def with_count_def set_obj_def)

lemma fresh_ok_count: "mutex_at s p c \<Longrightarrow> fresh_ok (with_count p c' s) = fresh_ok s"
  by (auto simp: mutex_at_def with_count_def set_obj_def fresh_ok_def split: if_splits)

lemma lock_run: "mutex_at s p c \<Longrightarrow> rws_mutex_lock p s = Some (with_count p (Suc c) s)"
  by (auto simp: mutex_at_def rws_mutex_lock_def obj_at_def with_count_def)

lemma unlock_run: "mutex_at s p (Suc c) \<Longrightarrow> rws_mutex_unlock p s = Some (with_count p c s)"
  by (auto simp: mutex_at_def rws_mutex_unlock_def obj_at_def with_count_def)

lemma mutex_apart: "session s E bs D ns Fs xs ms Gs ys \<Longrightarrow> mutex_at s p c \<Longrightarrow>
    ptr_blks p \<inter> foot E D ns Fs ms Gs = {}"
  using session_kind(1) [of s E bs D ns Fs xs ms Gs ys] by (auto simp: mutex_at_def)

lemma count_session:
  assumes ses: "session s E bs D ns Fs xs ms Gs ys" and mx: "mutex_at s p c"
  shows "session (with_count p c' s) E bs D ns Fs xs ms Gs ys"
proof (rule session_cong [OF ses])
  show "fresh_ok (with_count p c' s)" using ses by (simp add: fresh_ok_count [OF mx] session_def)
  fix b assume "b \<in> set E \<union> set D \<union> set (queue_blks ns Fs) \<union> set (queue_blks ms Gs)"
  then have "b \<notin> ptr_blks p" using mutex_apart [OF ses mx] by blast
  then show "blocks (with_count p c' s) b = blocks s b" by simp
qed simp_all

text \<open>A mutex beside the session that is taken and given back is as before.\<close>

lemma evolves_locked:
  assumes "mutex_at s p c" and "ptr_blks p \<inter> F = {}" and "evolves F (with_count p (Suc c) s) F' s'"
  shows "evolves F s F' (with_count p c s')"
  using assms by (auto simp: evolves_def mutex_at_def with_count_def set_obj_def)

text \<open>Locked, changed elsewhere, and unlocked again: all mutexes are as before.\<close>

lemma keeps_locked:
  assumes "mutex_at s p c" and "keeps_mutexes (with_count p (Suc c) s) s'"
  shows "keeps_mutexes s (with_count p c s')"
  using assms by (auto simp: keeps_mutexes_def mutex_at_def with_count_def set_obj_def)

lemma queue_blks_Nil [simp]: "queue_blks [] [] = []"
  by (simp add: queue_blks_def)

lemma error_at_nonempty: "\<not> error_at e code [] m"
  by (cases e) (auto simp: error_at_def get_err_def obj_at_def split: option.splits ptr.splits)

lemma err_own_Nil [simp]: "err_own s [] \<longleftrightarrow> s_error (sk s) = NULL"
  by (simp add: err_own_def error_at_nonempty)

lemma session_drop_send:
  assumes "session s E bs D ns Fs xs ms Gs ys" and "fresh_ok s'"
    and "\<And>b. b \<in> set E \<union> set D \<union> set (queue_blks ns Fs) \<Longrightarrow> blocks s' b = blocks s b"
    and "s_error (sk s') = s_error (sk s)" "s_received (sk s') = s_received (sk s)"
      "s_received_size (sk s') = s_received_size (sk s)" "s_received_len (sk s') = s_received_len (sk s)"
      "s_send_frames (sk s') = NULL" "s_recvd_frames (sk s') = s_recvd_frames (sk s)"
  shows "session s' E bs D ns Fs xs [] [] []"
  using assms err_own_cong [of s' s E] buffer_at_cong [of "sk s'" "sk s" D "blocks s'" "blocks s" bs]
    queue_holds_cong [of ns Fs "blocks s'" "blocks s"]
  by (auto simp: session_def queue_blks_def)

text \<open>The part of \<open>rws_socket_idle_send\<close> between lock and unlock.\<close>

definition send_round :: "sys \<Rightarrow> sys option" where
  "send_round s =
     (if s_send_frames (sk s) \<noteq> NULL then do {
         s \<leftarrow> idle_send_loop (s_send_frames (sk s)) True s;
         (l, s) \<leftarrow> rws_list_delete_clean (s_send_frames (sk s)) s;
         let s = s\<lparr>sk := (sk s)\<lparr>s_send_frames := l\<rparr>\<rparr>;
         Some (if s_error (sk s) \<noteq> NULL
               then s\<lparr>sk := (sk s)\<lparr>s_command := COMMAND_INFORM_DISCONNECTED\<rparr>\<rparr> else s) }
       else Some s)"

lemma idle_send_steps:
  "rws_socket_idle_send s = do {
     s \<leftarrow> rws_mutex_lock (s_send_mutex (sk s)) s;
     s \<leftarrow> send_round s;
     rws_mutex_unlock (s_send_mutex (sk s)) s }"
  unfolding rws_socket_idle_send_def send_round_def ..

lemma idle_send_round:
  assumes mx: "mutex_at s (s_send_mutex (sk s)) c" and t: "send_round (with_count (s_send_mutex (sk s)) (Suc c) s) = Some t"
    and keep: "keeps_mutexes (with_count (s_send_mutex (sk s)) (Suc c) s) t" and same: "s_send_mutex (sk t) = s_send_mutex (sk s)"
  shows "rws_socket_idle_send s = Some (with_count (s_send_mutex (sk s)) c t)"
    and "keeps_mutexes s (with_count (s_send_mutex (sk s)) c t)" and "mutex_at t (s_send_mutex (sk s)) (Suc c)"
proof -
  show mx': "mutex_at t (s_send_mutex (sk s)) (Suc c)" by (rule mutex_at_keeps [OF keep mutex_at_count [OF mx]])
  show "rws_socket_idle_send s = Some (with_count (s_send_mutex (sk s)) c t)"
    using lock_run [OF mx] t unlock_run [OF mx'] same by (simp add: idle_send_steps)
  show "keeps_mutexes s (with_count (s_send_mutex (sk s)) c t)" by (rule keeps_locked [OF mx keep])
qed

section \<open>The whole queue\<close>

text \<open>All frames are taken by the kernel, in part or as a whole.\<close>

lemma send_round_taken:
  assumes ses: "session s [] bs D ns Fs xs ms Gs ys" and len: "list_all (\<lambda>y. length (snd y) < 2 ^ 31) ys"
    and conn: "s_is_connected (sk s)" "s_socket (sk s) \<noteq> RWS_INVALID_SOCKET"
    and env: "env_send (ev s) = rs @- es" "length rs = length ys" "list_all (\<lambda>r. 0 < fst r) rs"
  obtains s' where "send_round s = Some s'" and "session s' [] bs D ns Fs xs [] [] []"
    and "trace s' = trace s @ sent_events rs ys" and "sk s' = (sk s)\<lparr>s_send_frames := NULL\<rparr>" and "keeps_mutexes s s'"
    and "ev s' = (ev s)\<lparr>env_send := es\<rparr>" and "\<And>b. b \<in> set (queue_blks ms Gs) \<Longrightarrow> blocks s' b = None"
proof -
  have at: "nodes_at (blocks s) (s_send_frames (sk s)) (ms @ [])" "distinct (queue_blks (ms @ []) Gs)"
    "list_all2 (\<lambda>n F. frame_at (snd n) (fst F) (snd F) (blocks s)) ms Gs" "list_all2 (carries (blocks s)) Gs ys"
    using ses by (simp_all add: session_def queue_holds_def queue_at_def)
  have err: "s_error (sk s) = NULL" using ses by (simp add: session_def)
  have n: "length rs = length Gs" using env(2) list_all2_lengthD [OF at(4)] by simp
  have none: "idle_send_loop NULL True z = Some z" for z by (subst idle_send_loop.simps) simp
  obtain B where B: "idle_send_loop (s_send_frames (sk s)) True s = Some (set_heap B (next_blk s)
        (s\<lparr>ev := (ev s)\<lparr>env_send := es\<rparr>, trace := trace s @ sent_events rs ys\<rparr>))"
      "nodes_at B (s_send_frames (sk s)) (emptied ms)" "\<forall>b \<in> set (concat (map snd Gs)). B b = None"
      "\<forall>b. b \<notin> set (queue_blks ms Gs) \<longrightarrow> B b = blocks s b"
    using send_loop_run [OF at(1,3,4,2) len err conn(2,1) env(1) n env(3)] none by auto
  let ?t = "set_heap B (next_blk s) (s\<lparr>ev := (ev s)\<lparr>env_send := es\<rparr>, trace := trace s @ sent_events rs ys\<rparr>)"
  let ?u = "set_heap (\<lambda>b. if b \<in> node_blks ms then None else B b) (next_blk s) (?t\<lparr>sk := (sk s)\<lparr>s_send_frames := NULL\<rparr>\<rparr>)"
  have run: "send_round s = Some ?u"
  proof (cases "s_send_frames (sk s) = NULL")
    case True
    with at have nil: "ms = []" by simp
    have k: "(sk s)\<lparr>s_send_frames := NULL\<rparr> = sk s" using True by (cases "sk s") simp
    have "?t = s" using B(1) True none [of s] by simp
    moreover have "?u = ?t\<lparr>sk := (sk s)\<lparr>s_send_frames := NULL\<rparr>\<rparr>" using nil by simp
    ultimately have "?u = s\<lparr>sk := (sk s)\<lparr>s_send_frames := NULL\<rparr>\<rparr>" by (simp only:)
    then have "?u = s" unfolding k by simp
    then show ?thesis using True by (simp add: send_round_def)
  next
    case False
    then show ?thesis using B(1,2) err rws_list_delete_run [of ?t "s_send_frames (sk s)" "emptied ms"]
      by (simp add: send_round_def rws_list_delete_clean_def cong del: if_weak_cong)
  qed
  have dist: "set (queue_blks ms Gs) \<inter> foot [] D ns Fs [] [] = {}" using ses by (auto simp: session_def)
  have old: "blocks ?u b = blocks s b" if "b \<notin> set (queue_blks ms Gs)" for b
    using that B(4) by (auto simp: queue_blks_def)
  have gone: "blocks ?u b = None" if "b \<in> set (queue_blks ms Gs)" for b
    using that B(3) by (auto simp: queue_blks_def)
  have "b < next_blk ?u" if "blocks ?u b \<noteq> None" for b
  proof -
    have "blocks s b \<noteq> None" using that old [of b] gone [of b] by (cases "b \<in> set (queue_blks ms Gs)") simp_all
    then show ?thesis using ses by (simp add: session_def fresh_ok_def)
  qed
  then have "fresh_ok ?u" unfolding fresh_ok_def by blast
  then have ses': "session ?u [] bs D ns Fs xs [] [] []"
  proof (rule session_drop_send [OF ses])
    show "blocks ?u b = blocks s b" if "b \<in> set [] \<union> set D \<union> set (queue_blks ns Fs)" for b
      using that dist by (intro old) auto
  qed simp_all
  have keep: "keeps_mutexes s ?u" by (rule session_keeps [OF ses], rule old) simp
  show thesis by (rule that [OF run ses' _ _ keep _ gone]) simp_all
qed

lemma idle_send_taken:
  assumes ses: "session s [] bs D ns Fs xs ms Gs ys" and mx: "mutex_at s (s_send_mutex (sk s)) c"
    and len: "list_all (\<lambda>y. length (snd y) < 2 ^ 31) ys"
    and conn: "s_is_connected (sk s)" "s_socket (sk s) \<noteq> RWS_INVALID_SOCKET"
    and env: "env_send (ev s) = rs @- es" "length rs = length ys" "list_all (\<lambda>r. 0 < fst r) rs"
  shows "\<exists>s'. rws_socket_idle_send s = Some s' \<and> session s' [] bs D ns Fs xs [] [] [] \<and>
    trace s' = trace s @ sent_events rs ys \<and> sk s' = (sk s)\<lparr>s_send_frames := NULL\<rparr> \<and>
    keeps_mutexes s s' \<and> ev s' = (ev s)\<lparr>env_send := es\<rparr> \<and>
    (\<forall>b \<in> set (queue_blks ms Gs). blocks s' b = None)"
proof -
  let ?p = "s_send_mutex (sk s)" and ?s1 = "with_count (s_send_mutex (sk s)) (Suc c) s"
  have conn1: "s_is_connected (sk ?s1)" "s_socket (sk ?s1) \<noteq> RWS_INVALID_SOCKET" "env_send (ev ?s1) = rs @- es"
    using conn env(1) by simp_all
  obtain t where t: "send_round ?s1 = Some t" "session t [] bs D ns Fs xs [] [] []" "trace t = trace ?s1 @ sent_events rs ys"
      "sk t = (sk ?s1)\<lparr>s_send_frames := NULL\<rparr>" "keeps_mutexes ?s1 t" "ev t = (ev ?s1)\<lparr>env_send := es\<rparr>"
      "\<And>b. b \<in> set (queue_blks ms Gs) \<Longrightarrow> blocks t b = None"
    by (rule send_round_taken [OF count_session [OF ses mx] len conn1 env(2,3)]) (rule that; assumption)
  have "s_send_mutex (sk t) = ?p" using t(4) by simp
  note idle = idle_send_round [OF mx t(1,5) this]
  have "blocks (with_count ?p c t) b = None" if "b \<in> set (queue_blks ms Gs)" for b
    using t(7) [OF that] that mutex_apart [OF ses mx] by (subst with_count_simps(6)) auto
  then show ?thesis using idle t(3,4,6) count_session [OF t(2) idle(3), of c]
    by (intro exI [of _ "with_count ?p c t"]) simp
qed

text \<open>C16: The send queue is drained.  When the kernel takes every frame whole, one round sends the
  frames of the queue in order, each exactly once and with all its bytes, leaves the queue empty
  and every frame and list entry released, and changes nothing else of the session, and every
  mutex has its lock count back.\<close>

theorem idle_send_drains_queue:
  assumes "session s [] bs D ns Fs xs ms Gs ys" and "mutex_at s (s_send_mutex (sk s)) c"
    and "list_all (\<lambda>y. length (snd y) < 2 ^ 31) ys"
    and "s_is_connected (sk s)" and "s_socket (sk s) \<noteq> RWS_INVALID_SOCKET"
    and "env_send (ev s) = map (\<lambda>y. (int (length (snd y)), e)) ys @- es"
  shows "\<exists>s'. rws_socket_idle_send s = Some s' \<and> session s' [] bs D ns Fs xs [] [] [] \<and>
    trace s' = trace s @ map (\<lambda>y. Sent (snd y)) ys \<and> sk s' = (sk s)\<lparr>s_send_frames := NULL\<rparr> \<and>
    keeps_mutexes s s' \<and>
    (\<forall>b \<in> set (queue_blks ms Gs). blocks s' b = None)"
proof -
  let ?rs = "map (\<lambda>y. (int (length (snd y)), e)) ys"
  have "list_all2 (carries (blocks s)) Gs ys" using assms(1) by (simp add: session_def queue_holds_def)
  then have "\<forall>y \<in> set ys. snd y \<noteq> []" by (induction rule: list_all2_induct) (auto simp: carries_def)
  then have "list_all (\<lambda>r. 0 < fst r) ?rs" by (simp add: list_all_iff)
  moreover have "sent_events ?rs ys = map (\<lambda>y. Sent (snd y)) ys" by (induction ys) simp_all
  ultimately show ?thesis using idle_send_taken [OF assms(1-6)] by auto
qed

theorem idle_send_drains_queue_witness:
  "\<exists>s'. rws_socket_idle_send
      (sys_of [ONode \<lparr>n_value = Ptr 1 0, n_next = NULL\<rparr>,
        OFrame (zero_frame\<lparr>f_data := Ptr 2 0, f_data_size := 2, f_opcode := 1, f_is_finished := True\<rparr>),
        OBytes [Some 129, Some 0], OMutex 0]
       (zero_socket\<lparr>s_send_frames := Ptr 0 0, s_socket := 3, s_is_connected := True, s_send_mutex := Ptr 3 0\<rparr>)
       (quiet_env\<lparr>env_send := (2, 0) ## sconst (-1, EAGAIN)\<rparr>)) = Some s' \<and> trace s' = [Sent [129, 0]] \<and> blocks s' 1 = None"
proof -
  let ?f = "zero_frame\<lparr>f_data := Ptr 2 0, f_data_size := 2, f_opcode := 1, f_is_finished := True\<rparr>"
  let ?s = "sys_of [ONode \<lparr>n_value = Ptr 1 0, n_next = NULL\<rparr>, OFrame ?f, OBytes [Some 129, Some 0], OMutex 0]
       (zero_socket\<lparr>s_send_frames := Ptr 0 0, s_socket := 3, s_is_connected := True, s_send_mutex := Ptr 3 0\<rparr>)
       (quiet_env\<lparr>env_send := (2, 0) ## sconst (-1, EAGAIN)\<rparr>)"
  have ses: "session ?s [] [] [] [] [] [] [(0, Ptr 1 0)] [(?f, [1, 2])] [(1, [129, 0])]"
    by (simp add: session_def buffer_at_def zero_socket_def queue_blks_def queue_holds_def queue_at_def
        carries_def frame_at_def zero_frame_def)
  have mx: "mutex_at ?s (s_send_mutex (sk ?s)) 0"
    by (simp add: mutex_at_def)
  have env: "env_send (ev ?s) = map (\<lambda>y. (int (length (snd y)), 0)) [(1, [129, 0])] @- sconst (-1, EAGAIN)"
    by simp
  show ?thesis using idle_send_drains_queue [OF ses mx _ _ _ env]
    by (auto simp: zero_socket_def queue_blks_def)
qed

section \<open>A failing call\<close>

text \<open>A refused write: the error is new, and the descriptor is closed.\<close>

lemma send_refused:
  assumes fresh: "fresh_ok s" and err: "s_error (sk s) = NULL" and ld: "load_bytes data (send_len k) s = Some bs" and fails: "send_fails s"
  obtains s' E' where "rws_socket_send data k s = Some (False, s')" and "fresh_ok s'"
    and "error_at (s_error (sk s')) rws_error_code_read_write_socket E' s'" and "\<And>a. a \<in> set E' \<Longrightarrow> next_blk s \<le> a"
    and "\<And>a. a \<notin> set E' \<Longrightarrow> blocks s' a = blocks s a" and "sk s' = closed_sk ((sk s)\<lparr>s_error := s_error (sk s')\<rparr>)"
    and "trace s' = trace s @ (if s_socket (sk s) = RWS_INVALID_SOCKET then [] else [Closed (s_socket (sk s))])"
proof (rule rws_socket_send_run [of s "[]", OF fresh _ ld], goal_cases)
  case 1 show ?case using err by simp
next
  case 2 show ?case by simp
next
  case (3 s1 E')
  have none: "\<not> 0 < fst (send_result s)" using fails by (simp add: send_fails_def)
  show ?case
  proof (rule 3(1))
    show "rws_socket_send data k s = Some (False, s1)" using 3(2) fails by simp
    show "fresh_ok s1" by (rule 3(3))
    show "error_at (s_error (sk s1)) rws_error_code_read_write_socket E' s1" using 3(10) [OF fails] by (rule conjunct1)
    show "next_blk s \<le> a" if "a \<in> set E'" for a using 3(6) [OF that] .
    show "blocks s1 a = blocks s a" if "a \<notin> set E'" for a using 3(7) [OF that] by simp
    show "sk s1 = closed_sk ((sk s)\<lparr>s_error := s_error (sk s1)\<rparr>)" using 3(10) [OF fails] by (rule conjunct2)
    show "trace s1 = trace s @ (if s_socket (sk s) = RWS_INVALID_SOCKET then [] else [Closed (s_socket (sk s))])"
      using 3(8) none fails by (simp split: if_splits)
  qed
qed

lemma send_loop_fails:
  assumes fresh: "fresh_ok s" and err: "s_error (sk s) = NULL"
    and nodes: "nodes_at (blocks s) p ((b, v) # us)" and fr: "frame_at v f Df (blocks s)"
    and car: "carries (blocks s) (f, Df) y" and len: "length (snd y) < 2 ^ 31"
    and apart: "b \<notin> set Df" "b \<notin> node_blks us" "set Df \<inter> node_blks us = {}"
    and conn: "s_is_connected (sk s)" and fails: "send_fails s"
  shows "\<exists>s' E'. idle_send_loop p True s = Some s' \<and> fresh_ok s' \<and>
    error_at (s_error (sk s')) rws_error_code_read_write_socket E' s' \<and> (\<forall>a \<in> set E'. next_blk s \<le> a) \<and>
    sk s' = closed_sk ((sk s)\<lparr>s_error := s_error (sk s')\<rparr>) \<and> nodes_at (blocks s') p ((b, NULL) # us) \<and>
    trace s' = trace s @ (if s_socket (sk s) = RWS_INVALID_SOCKET then [] else [Closed (s_socket (sk s))]) \<and>
    (\<forall>a. a \<noteq> b \<longrightarrow> a \<notin> set E' \<longrightarrow> a \<notin> set Df \<longrightarrow> blocks s' a = blocks s a)"
proof -
  from nodes obtain x where x: "p = Ptr b 0" "blocks s b = Some (ONode x)" "n_value x = v"
      "nodes_at (blocks s) (n_next x) us" by auto
  from frame_at_Ptr [OF fr] obtain c C where c: "v = Ptr c 0" "Df = c # C" "blocks s c = Some (OFrame f)" by auto
  have low: "a < next_blk s" if "blocks s a \<noteq> None" for a using fresh that by (simp add: fresh_ok_def)
  let ?s0 = "set_heap ((blocks s)(b \<mapsto> ONode (x\<lparr>n_value := NULL\<rparr>))) (next_blk s) s"
  have fresh0: "fresh_ok ?s0" using fresh low [of b] x(2) by (auto simp: fresh_ok_def)
  have car0: "carries (blocks ?s0) (f, Df) y" by (rule carries_cong [OF _ car]) (use apart(1) in auto)
  have ld: "load_bytes (f_data f) (send_len (f_data_size f)) ?s0 = Some (snd y)"
    using carries_send_bytes [OF car0 len refl] by simp
  have same: "send_fails ?s0 = send_fails s" by (rule send_result_cong) simp_all
  have fails0: "send_fails ?s0" and err0: "s_error (sk ?s0) = NULL" using fails same err by simp_all
  obtain s1 E' where s1': "rws_socket_send (f_data f) (f_data_size f) ?s0 = Some (False, s1)" "fresh_ok s1"
      "error_at (s_error (sk s1)) rws_error_code_read_write_socket E' s1" "\<And>a. a \<in> set E' \<Longrightarrow> next_blk ?s0 \<le> a"
      "\<And>a. a \<notin> set E' \<Longrightarrow> blocks s1 a = blocks ?s0 a" "sk s1 = closed_sk ((sk ?s0)\<lparr>s_error := s_error (sk s1)\<rparr>)"
      "trace s1 = trace ?s0 @ (if s_socket (sk ?s0) = RWS_INVALID_SOCKET then [] else [Closed (s_socket (sk ?s0))])"
    by (rule send_refused [OF fresh0 err0 ld fails0]) (rule that; assumption)
  note s1 = s1' [unfolded set_heap_sys set_heap_simps(2)]
  have new: "a \<notin> set E'" if "blocks s a \<noteq> None" for a using low [OF that] s1(4) [of a] by auto
  have at1: "frame_at v f Df (blocks s1)"
  proof (subst frame_at_cong [of Df "blocks s1" "blocks s"])
    fix a assume "a \<in> set Df"
    with apart(1) new [of a] frame_at_live [OF fr, of a] show "blocks s1 a = blocks s a" by (auto simp: s1(5))
  qed (rule fr)
  have b1: "blocks s1 b = Some (ONode (x\<lparr>n_value := NULL\<rparr>))" using x(2) new [of b] by (simp add: s1(5))
  let ?s2 = "set_heap (\<lambda>a. if a \<in> set Df then None else blocks s1 a) (next_blk s1) s1"
  have conn1: "\<not> s_is_connected (sk s1)" by (subst s1(6)) simp
  have "idle_send_loop q z ?s2 = Some ?s2" for q z
    using conn1 by (subst idle_send_loop.simps) simp
  then have run: "idle_send_loop p True s = Some ?s2"
    using x c apart(1) conn s1(1) b1 rws_frame_delete_run [OF at1]
    by (subst idle_send_loop.simps) (simp add: run_simps)
  have newDf: "set Df \<inter> set E' = {}" using new frame_at_live [OF fr] by blast
  have err2: "error_at (s_error (sk ?s2)) rws_error_code_read_write_socket E' ?s2"
  proof (subst set_heap_sys(1), rule error_at_cong [OF _ s1(3)])
    show "blocks ?s2 a = blocks s1 a" if "a \<in> set E'" for a using that newDf by auto
  qed
  have us: "nodes_at (blocks ?s2) (n_next x) us"
  proof (subst nodes_at_cong [of us "blocks ?s2" "blocks s"])
    fix a assume "a \<in> node_blks us"
    with apart(2,3) new [of a] nodes_at_live [OF x(4), of a] show "blocks ?s2 a = blocks s a"
      by (auto simp: s1(5))
  qed (rule x(4))
  have "nodes_at (blocks ?s2) p ((b, NULL) # us)" using x(1) b1 us apart(1) by simp
  moreover have "fresh_ok ?s2" using s1(2) by (simp add: fresh_ok_def)
  moreover have "blocks ?s2 a = blocks s a" if "a \<noteq> b" "a \<notin> set E'" "a \<notin> set Df" for a
    using that by (simp add: s1(5))
  ultimately show ?thesis using run err2 s1(4,6,7)
    by (intro exI [of _ ?s2] exI [of _ E']) (simp only: set_heap_sys, blast)
qed

lemma nodes_at_replace_tail:
  "nodes_at B p (xs @ (b, v) # us) \<Longrightarrow> nodes_at B' (Ptr b 0) ((b, v') # us') \<Longrightarrow>
   (\<And>a. a \<in> node_blks xs \<Longrightarrow> B' a = B a) \<Longrightarrow> nodes_at B' p (xs @ (b, v') # us')"
proof (induction xs arbitrary: p)
  case (Cons x xs)
  then show ?case by (cases x) auto
qed auto

lemma closed_sk_mutex [simp]: "s_send_mutex (closed_sk k) = s_send_mutex k"
  by (simp add: closed_sk_def)

lemma send_loop_to_failure:
  assumes ses: "session s [] bs D ns Fs xs (ms @ (b, v) # us) (Gs @ G # Hs) (ys @ y # zs)"
    and len: "list_all (\<lambda>y. length (snd y) < 2 ^ 31) (ys @ [y])"
    and conn: "s_is_connected (sk s)" "s_socket (sk s) \<noteq> RWS_INVALID_SOCKET"
    and split: "length ms = length ys" "length Gs = length ys" "length rs = length ys"
    and env: "env_send (ev s) = rs @- (r ## es)" "list_all (\<lambda>r. 0 < fst r) rs"
    and fails: "fst r \<le> 0" "write_code (snd r) s \<in> set write_errnos"
  shows "\<exists>s3 E'. idle_send_loop (s_send_frames (sk s)) True s = Some s3 \<and>
    error_at (s_error (sk s3)) rws_error_code_read_write_socket E' s3 \<and> (\<forall>a \<in> set E'. next_blk s \<le> a) \<and>
    sk s3 = closed_sk ((sk s)\<lparr>s_error := s_error (sk s3)\<rparr>) \<and>
    nodes_at (blocks s3) (s_send_frames (sk s)) (emptied ms @ (b, NULL) # us) \<and>
    trace s3 = trace s @ sent_events rs ys @ [Closed (s_socket (sk s))] \<and>
    (\<forall>a. a < next_blk s \<longrightarrow> a \<notin> set (queue_blks (ms @ (b, v) # us) (Gs @ [G])) \<longrightarrow> blocks s3 a = blocks s a)"
proof -
  let ?p = "s_send_frames (sk s)"
  have err: "s_error (sk s) = NULL" using ses by (simp add: session_def)
  have q: "nodes_at (blocks s) ?p (ms @ (b, v) # us)" "distinct (queue_blks (ms @ (b, v) # us) (Gs @ G # Hs))"
    "list_all2 (\<lambda>n F. frame_at (snd n) (fst F) (snd F) (blocks s)) (ms @ (b, v) # us) (Gs @ G # Hs)"
    "list_all2 (carries (blocks s)) (Gs @ G # Hs) (ys @ y # zs)"
    using ses by (simp_all add: session_def queue_holds_def queue_at_def)
  have fs: "list_all2 (\<lambda>n F. frame_at (snd n) (fst F) (snd F) (blocks s)) ms Gs" "frame_at v (fst G) (snd G) (blocks s)"
    and cs: "list_all2 (carries (blocks s)) Gs ys" "carries (blocks s) G y"
    using q(3,4) split(1,2) by (simp_all add: list_all2_append)
  have dist: "distinct (queue_blks (ms @ (b, v) # us) Gs)" "b \<notin> set (queue_blks ms Gs)"
      "set (snd G) \<inter> set (queue_blks ms Gs) = {}" "b \<notin> set (snd G)" "b \<notin> node_blks us" "set (snd G) \<inter> node_blks us = {}"
      "node_blks us \<inter> set (queue_blks ms Gs) = {}"
    using q(2) by (auto simp: queue_blks_def)
  have lens: "list_all (\<lambda>y. length (snd y) < 2 ^ 31) ys" "length (snd y) < 2 ^ 31" using len by simp_all
  obtain B q' where mid: "idle_send_loop ?p True s = idle_send_loop q' True (set_heap B (next_blk s)
        (s\<lparr>ev := (ev s)\<lparr>env_send := r ## es\<rparr>, trace := trace s @ sent_events rs ys\<rparr>))"
      "nodes_at B ?p (emptied ms @ (b, v) # us)" "nodes_at B q' ((b, v) # us)"
      "\<forall>b \<in> set (concat (map snd Gs)). B b = None" "\<forall>b. b \<notin> set (queue_blks ms Gs) \<longrightarrow> B b = blocks s b"
    using send_loop_run [OF q(1) fs(1) cs(1) dist(1) lens(1), of rs "r ## es"] err conn env split by auto
  define s2 where "s2 = set_heap B (next_blk s) (s\<lparr>ev := (ev s)\<lparr>env_send := r ## es\<rparr>, trace := trace s @ sent_events rs ys\<rparr>)"
  have s2: "blocks s2 = B" "next_blk s2 = next_blk s" "sk s2 = sk s" "trace s2 = trace s @ sent_events rs ys"
    by (simp_all add: s2_def)
  have live1: "a < next_blk s" if "blocks s a \<noteq> None" for a
    using that ses by (auto simp: session_def fresh_ok_def)
  have "a < next_blk s2" if "blocks s2 a \<noteq> None" for a
  proof (cases "a \<in> set (queue_blks ms Gs)")
    case True
    then have "a \<in> set (queue_blks (ms @ (b, v) # us) (Gs @ G # Hs))" by (auto simp: queue_blks_def)
    then show ?thesis using session_live(2) [OF ses, of a] s2(2) by auto
  next
    case False then show ?thesis using that mid(5) live1 s2(1,2) by simp
  qed
  then have fresh2: "fresh_ok s2" by (simp add: fresh_ok_def)
  have G2: "frame_at v (fst G) (snd G) (blocks s2)"
  proof (subst frame_at_cong [of "snd G" "blocks s2" "blocks s"])
    show "blocks s2 a = blocks s a" if "a \<in> set (snd G)" for a using that dist(3) mid(5) s2(1) by auto
  qed (rule fs(2))
  have car2: "carries (blocks s2) (fst G, snd G) y"
    using carries_cong [of G "blocks s2" "blocks s" y] cs(2) dist(3) mid(5) s2(1) by (auto simp: disjoint_iff)
  have bad: "send_fails s2"
    using fails conn(2)
    by (auto simp: send_fails_def send_result_def write_code_def pending_error_def s2_def split: if_splits)
  have q'2: "nodes_at (blocks s2) q' ((b, v) # us)" and err2: "s_error (sk s2) = NULL" and conn2: "s_is_connected (sk s2)"
    using mid(3) s2(1,3) err conn(1) by simp_all
  obtain s3 E' where s3: "idle_send_loop q' True s2 = Some s3" "fresh_ok s3"
      "error_at (s_error (sk s3)) rws_error_code_read_write_socket E' s3" "\<forall>a \<in> set E'. next_blk s2 \<le> a"
      "sk s3 = closed_sk ((sk s2)\<lparr>s_error := s_error (sk s3)\<rparr>)" "nodes_at (blocks s3) q' ((b, NULL) # us)"
      "trace s3 = trace s2 @ (if s_socket (sk s2) = RWS_INVALID_SOCKET then [] else [Closed (s_socket (sk s2))])"
      "\<forall>a. a \<noteq> b \<longrightarrow> a \<notin> set E' \<longrightarrow> a \<notin> set (snd G) \<longrightarrow> blocks s3 a = blocks s2 a"
    using send_loop_fails [OF fresh2 err2 q'2 G2 car2 lens(2) dist(4,5,6) conn2 bad] by blast
  have high: "a \<notin> set E'" if "a < next_blk s" for a using s3(4) s2(2) that by auto
  have q': "q' = Ptr b 0" using q'2 by simp
  have nodes: "nodes_at (blocks s3) ?p (emptied ms @ (b, NULL) # us)"
  proof (rule nodes_at_replace_tail [OF mid(2)])
    show "nodes_at (blocks s3) (Ptr b 0) ((b, NULL) # us)" using s3(6) q' by simp
    fix a assume "a \<in> node_blks (emptied ms)"
    then have a: "a \<in> set (queue_blks ms Gs)" by (simp add: queue_blks_def)
    then have "a < next_blk s" using session_live(2) [OF ses, of a] by (auto simp: queue_blks_def)
    moreover have "a \<noteq> b" "a \<notin> set (snd G)" using a dist(2,3) by auto
    ultimately show "blocks s3 a = B a" using s3(8) high s2(1) by auto
  qed
  have "blocks s3 a = blocks s a" if "a < next_blk s" "a \<notin> set (queue_blks (ms @ (b, v) # us) (Gs @ [G]))" for a
    using that s3(8) high [of a] mid(5) s2(1) by (simp add: queue_blks_def)
  then show ?thesis
    using mid(1) s3(1,3,4,5,7) nodes s2 conn(2) unfolding s2_def [symmetric] s2(3) [symmetric]
    by (intro exI [of _ s3] exI [of _ E']) (simp only: s2, simp)
qed

text \<open>
  The round in which a write fails: the queue list is deleted with the node of the failed frame, whose object is
  freed, and the nodes behind it, whose objects are not.
\<close>

lemma failed_round:
  assumes ses: "session s [] bs D ns Fs xs (ms @ (b, v) # us) (Gs @ G # Hs) (ys @ y # zs)"
    and len: "list_all (\<lambda>y. length (snd y) < 2 ^ 31) (ys @ [y])"
    and conn: "s_is_connected (sk s)" "s_socket (sk s) \<noteq> RWS_INVALID_SOCKET"
    and split: "length ms = length ys" "length Gs = length ys" "length rs = length ys"
    and env: "env_send (ev s) = rs @- (r ## es)" "list_all (\<lambda>r. 0 < fst r) rs"
    and fails: "fst r \<le> 0" "write_code (snd r) s \<in> set write_errnos"
  obtains s' e E' where "send_round s = Some s'" and "error_at e rws_error_code_read_write_socket E' s'"
    and "\<And>a. a \<in> set E' \<Longrightarrow> next_blk s \<le> a"
    and "sk s' = (closed_sk ((sk s)\<lparr>s_error := e\<rparr>))\<lparr>s_send_frames := NULL, s_command := COMMAND_INFORM_DISCONNECTED\<rparr>"
    and "trace s' = trace s @ sent_events rs ys @ [Closed (s_socket (sk s))]"
    and "\<And>a. a < next_blk s \<Longrightarrow> a \<notin> set (queue_blks (ms @ (b, v) # us) (Gs @ [G])) \<Longrightarrow> blocks s' a = blocks s a"
proof -
  let ?p = "s_send_frames (sk s)" and ?N = "node_blks (emptied ms @ (b, NULL) # us)"
  obtain t E' where t: "idle_send_loop ?p True s = Some t"
      "error_at (s_error (sk t)) rws_error_code_read_write_socket E' t" "\<forall>a \<in> set E'. next_blk s \<le> a"
      "sk t = closed_sk ((sk s)\<lparr>s_error := s_error (sk t)\<rparr>)" "nodes_at (blocks t) ?p (emptied ms @ (b, NULL) # us)"
      "trace t = trace s @ sent_events rs ys @ [Closed (s_socket (sk s))]"
      "\<forall>a. a < next_blk s \<longrightarrow> a \<notin> set (queue_blks (ms @ (b, v) # us) (Gs @ [G])) \<longrightarrow> blocks t a = blocks s a"
    using send_loop_to_failure [OF ses len conn split env fails] by blast
  let ?u = "set_heap (\<lambda>a. if a \<in> ?N then None else blocks t a) (next_blk t)
    (t\<lparr>sk := (sk t)\<lparr>s_send_frames := NULL, s_command := COMMAND_INFORM_DISCONNECTED\<rparr>\<rparr>)"
  have "s_error (sk t) \<noteq> NULL" using t(2) by (auto simp: error_at_def get_err_def obj_at_def)
  moreover have "?p \<noteq> NULL" using t(5) by (cases ms) auto
  moreover have "s_send_frames (sk t) = ?p" by (subst t(4), simp)
  ultimately have run: "send_round s = Some ?u"
    using t(1) rws_list_delete_run [OF t(5)] by (simp add: send_round_def rws_list_delete_clean_def del: node_blks_emptied)
  have low: "a < next_blk s" if "a \<in> set (queue_blks (ms @ (b, v) # us) (Gs @ G # Hs))" for a
    using session_live(2) [OF ses, of a] that by simp
  have err: "error_at (s_error (sk t)) rws_error_code_read_write_socket E' ?u"
  proof (rule error_at_cong [OF _ t(2)])
    fix a assume "a \<in> set E'"
    then have "next_blk s \<le> a" using t(3) by auto
    then have "a \<notin> ?N" using low [of a] by (auto simp: queue_blks_def image_Un)
    then show "blocks ?u a = blocks t a" by simp
  qed
  have keep: "blocks ?u a = blocks s a" if "a < next_blk s" "a \<notin> set (queue_blks (ms @ (b, v) # us) (Gs @ [G]))" for a
    using that t(7) by (simp add: queue_blks_def image_Un)
  have "sk ?u = (closed_sk ((sk s)\<lparr>s_error := s_error (sk t)\<rparr>))\<lparr>s_send_frames := NULL, s_command := COMMAND_INFORM_DISCONNECTED\<rparr>"
    by (simp, subst t(4), simp)
  then show thesis using run err t(3,6) keep by (intro that [of ?u "s_error (sk t)" E']) simp_all
qed

lemma failed_round_run:
  assumes ses: "session s [] bs D ns Fs xs (ms @ (b, v) # us) (Gs @ G # Hs) (ys @ y # zs)"
    and mx: "mutex_at s (s_send_mutex (sk s)) c"
    and len: "list_all (\<lambda>y. length (snd y) < 2 ^ 31) (ys @ [y])"
    and conn: "s_is_connected (sk s)" "s_socket (sk s) \<noteq> RWS_INVALID_SOCKET"
    and split: "length ms = length ys" "length Gs = length ys" "length rs = length ys"
    and env: "env_send (ev s) = rs @- (r ## es)" "list_all (\<lambda>r. 0 < fst r) rs"
    and fails: "fst r \<le> 0" "write_code (snd r) s \<in> set write_errnos"
  obtains s' e E' where "rws_socket_idle_send s = Some s'" and "error_at e rws_error_code_read_write_socket E' s'"
    and "sk s' = (closed_sk ((sk s)\<lparr>s_error := e\<rparr>))\<lparr>s_send_frames := NULL, s_command := COMMAND_INFORM_DISCONNECTED\<rparr>"
    and "trace s' = trace s @ sent_events rs ys @ [Closed (s_socket (sk s))]"
    and "\<And>a. a < next_blk s \<Longrightarrow> a \<notin> set (queue_blks (ms @ (b, v) # us) (Gs @ [G])) \<Longrightarrow> blocks s' a = blocks s a"
proof -
  let ?m = "s_send_mutex (sk s)" and ?s1 = "with_count (s_send_mutex (sk s)) (Suc c) s"
  have ses1: "session ?s1 [] bs D ns Fs xs (ms @ (b, v) # us) (Gs @ G # Hs) (ys @ y # zs)" by (rule count_session [OF ses mx])
  have "write_code (snd r) ?s1 = write_code (snd r) s" by (rule send_result_cong) simp_all
  then have pre: "s_is_connected (sk ?s1)" "s_socket (sk ?s1) \<noteq> RWS_INVALID_SOCKET" "env_send (ev ?s1) = rs @- (r ## es)"
      "write_code (snd r) ?s1 \<in> set write_errnos" using conn env(1) fails(2) by simp_all
  obtain t e E' where t: "send_round ?s1 = Some t" "error_at e rws_error_code_read_write_socket E' t"
      "\<And>a. a \<in> set E' \<Longrightarrow> next_blk ?s1 \<le> a"
      "sk t = (closed_sk ((sk ?s1)\<lparr>s_error := e\<rparr>))\<lparr>s_send_frames := NULL, s_command := COMMAND_INFORM_DISCONNECTED\<rparr>"
      "trace t = trace ?s1 @ sent_events rs ys @ [Closed (s_socket (sk ?s1))]"
      "\<And>a. a < next_blk ?s1 \<Longrightarrow> a \<notin> set (queue_blks (ms @ (b, v) # us) (Gs @ [G])) \<Longrightarrow> blocks t a = blocks ?s1 a"
    by (rule failed_round [OF ses1 len pre(1,2) split pre(3) env(2) fails(1) pre(4)]) (rule that; assumption)
  have "keeps_mutexes ?s1 t"
    by (rule session_keeps [OF ses1], rule t(6)) (simp_all add: queue_blks_def)
  moreover have "s_send_mutex (sk t) = ?m" by (simp add: t(4))
  ultimately have run: "rws_socket_idle_send s = Some (with_count ?m c t)" by (rule idle_send_round(1) [OF mx t(1)])
  obtain k where k: "?m = Ptr k 0" "blocks s k = Some (OMutex c)" "k < next_blk s"
    using mx ses by (auto simp: mutex_at_def session_def fresh_ok_def)
  have "error_at e rws_error_code_read_write_socket E' (with_count ?m c t)"
    by (rule error_at_cong [OF _ t(2)]) (use t(3) k in force)
  moreover have "blocks (with_count ?m c t) a = blocks s a"
    if "a < next_blk s" "a \<notin> set (queue_blks (ms @ (b, v) # us) (Gs @ [G]))" for a
    using t(6) [of a] that k by (cases "a = k") (simp_all add: with_count_def set_obj_def)
  ultimately show thesis using run t(4,5) by (intro that [of "with_count ?m c t" e E']) simp_all
qed

text \<open>C39: A failed write ends the session, and it leaks.  When the kernel takes the first frames of the
  queue and the next call of \<open>send\<close> fails with a write error, the round records that error, closes
  the descriptor and puts the command to \<open>COMMAND_INFORM_DISCONNECTED\<close>; the queue is empty
  afterwards, but the objects of the frames behind the failed one stay allocated although nothing
  points to them any more.\<close>

theorem idle_send_failure_leaks:
  assumes ses: "session s [] bs D ns Fs xs (ms @ (b, v) # us) (Gs @ G # Hs) (ys @ y # zs)"
    and mx: "mutex_at s (s_send_mutex (sk s)) c"
    and len: "list_all (\<lambda>y. length (snd y) < 2 ^ 31) (ys @ [y])"
    and conn: "s_is_connected (sk s)" "s_socket (sk s) \<noteq> RWS_INVALID_SOCKET"
    and split: "length ms = length ys" "length Gs = length ys" "length rs = length ys"
    and env: "env_send (ev s) = rs @- (r ## es)" "list_all (\<lambda>r. 0 < fst r) rs"
    and fails: "fst r \<le> 0" "write_code (snd r) s \<in> set write_errnos"
  shows "\<exists>s'. rws_socket_idle_send s = Some s' \<and> s_command (sk s') = COMMAND_INFORM_DISCONNECTED \<and>
    rws_error_get_code (s_error (sk s')) s' = Some rws_error_code_read_write_socket \<and>
    \<not> s_is_connected (sk s') \<and> s_send_frames (sk s') = NULL \<and>
    trace s' = trace s @ sent_events rs ys @ [Closed (s_socket (sk s))] \<and>
    (\<forall>H \<in> set Hs. \<forall>a \<in> set (snd H). blocks s' a = blocks s a \<and> blocks s a \<noteq> None)"
proof -
  obtain s' E' e where s': "rws_socket_idle_send s = Some s'" "error_at e rws_error_code_read_write_socket E' s'"
      "sk s' = (closed_sk ((sk s)\<lparr>s_error := e\<rparr>))\<lparr>s_send_frames := NULL, s_command := COMMAND_INFORM_DISCONNECTED\<rparr>"
      "trace s' = trace s @ sent_events rs ys @ [Closed (s_socket (sk s))]"
      "\<And>a. a < next_blk s \<Longrightarrow> a \<notin> set (queue_blks (ms @ (b, v) # us) (Gs @ [G])) \<Longrightarrow> blocks s' a = blocks s a"
    by (rule failed_round_run [OF assms]) (rule that; assumption)
  have dist: "distinct (queue_blks (ms @ (b, v) # us) (Gs @ G # Hs))" using ses by (simp add: session_def)
  have "blocks s' a = blocks s a \<and> blocks s a \<noteq> None" if "H \<in> set Hs" "a \<in> set (snd H)" for H a
  proof -
    have "a \<in> set (queue_blks (ms @ (b, v) # us) (Gs @ G # Hs))" using that by (auto simp: queue_blks_def)
    then have "a < next_blk s" "blocks s a \<noteq> None" using session_live [OF ses, of a] by auto
    moreover have "a \<notin> set (queue_blks (ms @ (b, v) # us) (Gs @ [G]))" using that dist by (auto simp: queue_blks_def)
    ultimately show ?thesis using s'(5) by simp
  qed
  then show ?thesis using s'(1,4) error_at_code [OF s'(2)] by (intro exI [of _ s']) (simp add: s'(3))
qed

theorem idle_send_failure_leaks_witness:
  "\<exists>s'. rws_socket_idle_send
      (sys_of [ONode \<lparr>n_value = Ptr 1 0, n_next = Ptr 3 0\<rparr>,
        OFrame (zero_frame\<lparr>f_data := Ptr 2 0, f_data_size := 2, f_opcode := 1, f_is_finished := True\<rparr>),
        OBytes [Some 129, Some 0], ONode \<lparr>n_value = Ptr 4 0, n_next = NULL\<rparr>,
        OFrame (zero_frame\<lparr>f_data := Ptr 5 0, f_data_size := 2, f_opcode := 1, f_is_finished := True\<rparr>),
        OBytes [Some 129, Some 0], OMutex 0]
       (zero_socket\<lparr>s_send_frames := Ptr 0 0, s_socket := 3, s_is_connected := True, s_send_mutex := Ptr 6 0\<rparr>)
       (quiet_env\<lparr>env_send := (-1, 32) ## sconst (-1, EAGAIN)\<rparr>)) = Some s' \<and>
     s_send_frames (sk s') = NULL \<and> blocks s' 5 = Some (OBytes [Some 129, Some 0])"
proof -
  let ?f = "\<lambda>d. zero_frame\<lparr>f_data := Ptr d 0, f_data_size := 2, f_opcode := 1, f_is_finished := True\<rparr>"
  let ?s = "sys_of [ONode \<lparr>n_value = Ptr 1 0, n_next = Ptr 3 0\<rparr>, OFrame (?f 2), OBytes [Some 129, Some 0],
        ONode \<lparr>n_value = Ptr 4 0, n_next = NULL\<rparr>, OFrame (?f 5), OBytes [Some 129, Some 0], OMutex 0]
       (zero_socket\<lparr>s_send_frames := Ptr 0 0, s_socket := 3, s_is_connected := True, s_send_mutex := Ptr 6 0\<rparr>)
       (quiet_env\<lparr>env_send := (-1, 32) ## sconst (-1, EAGAIN)\<rparr>)"
  have ses: "session ?s [] [] [] [] [] [] ([] @ (0, Ptr 1 0) # [(3, Ptr 4 0)]) ([] @ (?f 2, [1, 2]) # [(?f 5, [4, 5])])
      ([] @ (1, [129, 0]) # [(1, [129, 0])])"
    by (simp add: session_def buffer_at_def zero_socket_def queue_blks_def queue_holds_def queue_at_def
        carries_def frame_at_def zero_frame_def)
  have mx: "mutex_at ?s (s_send_mutex (sk ?s)) 0"
    by (simp add: mutex_at_def)
  have wc: "write_code (snd (-1, 32)) ?s \<in> set write_errnos"
    by (simp add: write_code_def pending_error_def quiet_env_def write_errnos_def)
  show ?thesis using idle_send_failure_leaks [OF ses mx, of "[]" "(-1, 32)"] wc by auto
qed

end
