(* ===== verification/Rws_Lifecycle.thy ===== *)
theory Rws_Lifecycle imports Rws_Api Rws_Sender begin

text \<open>
  The components together: the public calls on a session, and the iterations of the work thread
  that drain the send queue, read from the network and deliver to the application.
\<close>

section \<open>Queueing text\<close>

lemma c_string_count:
  assumes "mutex_at s p c" and "c_string t msg s"
  shows "c_string t msg (with_count p c' s)"
proof -
  have "blocks (with_count p c' s) b = blocks s b" if "t = Ptr b off" for b off
  proof -
    have "blocks s b \<noteq> Some (OMutex c)"
      using assms(2) that by (auto simp: c_string_def load_bytes_def load_def cells_from_def split: option.splits)
    then have "b \<notin> ptr_blks p" using assms(1) by (auto simp: mutex_at_def)
    then show ?thesis by simp
  qed
  then show ?thesis using assms(2) c_string_cong [of t "with_count p c' s" s msg] by simp
qed

lemma with_count_twice:
  assumes "mutex_at s p c"
  shows "with_count p c (with_count p c' s) = s"
proof -
  have "(blocks s)(k \<mapsto> OMutex c) = blocks s" if "blocks s k = Some (OMutex c)" for k
    using that by (simp add: fun_upd_idem)
  then show ?thesis using assms by (auto simp: mutex_at_def with_count_def set_obj_def)
qed

lemma mutex_park: "mutex_at (park r s) p c = mutex_at s p c"
  by (simp add: mutex_at_def)

lemma count_park: "with_count p c (park r s) = park r (with_count p c s)"
  by (simp add: with_count_def set_obj_def park_def split: ptr.split)

lemma parked_text_call:
  assumes h: "h \<noteq> NULL" "alive h s = Some ()" and ses: "session (park r s) E bs D ns Fs xs ms Gs ys"
    and mx: "mutex_at s (s_send_mutex (sk s)) c"
    and str: "c_string t msg s" "msg \<noteq> []" "length msg < 2 ^ 32"
  obtains s' b F key p where "rws_socket_send_text h t s = Some (True, s')" and "length key = 4"
    and "session (park r s') E bs D ns Fs xs (ms @ [b]) (Gs @ [F]) (ys @ [(rws_opcode_text_frame, encode_frame 1 (Some key) msg)])"
    and "sk s' = (sk s)\<lparr>s_send_frames := p\<rparr>" and "trace s' = trace s"
    and "evolves (foot E D ns Fs ms Gs) s (foot E D ns Fs (ms @ [b]) (Gs @ [F])) s'"
proof -
  let ?p = "s_send_mutex (sk s)"
  let ?s1 = "with_count ?p (Suc c) s"
  have ses1: "session (park r ?s1) E bs D ns Fs xs ms Gs ys" using count_session [OF ses] mx by (simp add: mutex_park count_park)
  obtain s2 b F q where s2: "rws_socket_send_text_priv t ?s1 = Some (True, s2)"
      "session (park r s2) E bs D ns Fs xs (ms @ [b]) (Gs @ [F])
        (ys @ [(rws_opcode_text_frame, ready_bytes rws_opcode_text_frame msg ?s1)])"
      "sk s2 = (sk ?s1)\<lparr>s_send_frames := q\<rparr>" "ev s2 = ev ?s1" "trace s2 = trace ?s1"
      "evolves (foot E D ns Fs ms Gs) ?s1 (foot E D ns Fs (ms @ [b]) (Gs @ [F])) s2"
    by (rule parked_text_run [OF ses1 c_string_count [OF mx str(1)] str(2,3)])
  have ev1: "evolves (foot E D ns Fs ms Gs) (park r ?s1) (foot E D ns Fs (ms @ [b]) (Gs @ [F])) s2"
    using s2(6) by (simp add: evolves_def)
  have mx2: "mutex_at s2 ?p (Suc c)"
    by (rule mutex_at_keeps [OF evolves_keeps [OF ses1 ev1]]) (simp add: mutex_park mutex_at_count [OF mx])
  let ?s3 = "with_count ?p c s2"
  have run: "rws_socket_send_text h t s = Some (True, ?s3)"
    using h s2(1,3) lock_run [OF mx] unlock_run [OF mx2] by (simp add: rws_socket_send_text_def)
  have ses3: "session (park r ?s3) E bs D ns Fs xs (ms @ [b]) (Gs @ [F])
      (ys @ [(rws_opcode_text_frame, encode_frame 1 (Some (made_key ?s1)) msg)])"
    using count_session [OF s2(2)] mx2 by (simp add: mutex_park count_park ready_bytes_def)
  have ev: "evolves (foot E D ns Fs ms Gs) s (foot E D ns Fs (ms @ [b]) (Gs @ [F])) ?s3"
    by (rule evolves_locked [OF mx mutex_apart [OF ses, unfolded mutex_park, OF mx] s2(6)])
  show thesis by (rule that [OF run _ ses3 _ _ ev]) (use s2(3,5) in simp_all)
qed

lemma send_text_call:
  assumes h: "h \<noteq> NULL" "alive h s = Some ()" and ses: "session s E bs D ns Fs xs ms Gs ys"
    and mx: "mutex_at s (s_send_mutex (sk s)) c"
    and str: "c_string t msg s" "msg \<noteq> []" "length msg < 2 ^ 32"
  obtains s' b F key p where "rws_socket_send_text h t s = Some (True, s')" and "length key = 4"
    and "session s' E bs D ns Fs xs (ms @ [b]) (Gs @ [F]) (ys @ [(rws_opcode_text_frame, encode_frame 1 (Some key) msg)])"
    and "sk s' = (sk s)\<lparr>s_send_frames := p\<rparr>" and "trace s' = trace s"
    and "evolves (foot E D ns Fs ms Gs) s (foot E D ns Fs (ms @ [b]) (Gs @ [F])) s'"
proof -
  have "session (park (s_recvd_frames (sk s)) s) E bs D ns Fs xs ms Gs ys" using ses by (simp add: park_self)
  then show thesis by (rule parked_text_call [OF h _ mx str]) (rule that; simp add: park_self)
qed

text \<open>C17: Text handed to \<open>rws_socket_send_text\<close> is queued as one text frame, masked with a four-byte
  key, that carries exactly its bytes, behind the frames already waiting; the call returns true,
  sends nothing by itself, and gives the send mutex back.\<close>

theorem send_text_queues_frame:
  assumes "h \<noteq> NULL" and "alive h s = Some ()" and "session s E bs D ns Fs xs ms Gs ys"
    and "mutex_at s (s_send_mutex (sk s)) c"
    and "c_string t msg s" and "msg \<noteq> []" and "length msg < 2 ^ 32"
  shows "\<exists>s' ms' Gs' key p. rws_socket_send_text h t s = Some (True, s') \<and> length key = 4 \<and>
    session s' E bs D ns Fs xs ms' Gs' (ys @ [(rws_opcode_text_frame, encode_frame 1 (Some key) msg)]) \<and>
    sk s' = (sk s)\<lparr>s_send_frames := p\<rparr> \<and> trace s' = trace s \<and> keeps_mutexes s s'"
proof -
  obtain s' b F key p where s': "rws_socket_send_text h t s = Some (True, s')" "length key = 4"
      "session s' E bs D ns Fs xs (ms @ [b]) (Gs @ [F]) (ys @ [(rws_opcode_text_frame, encode_frame 1 (Some key) msg)])"
      "sk s' = (sk s)\<lparr>s_send_frames := p\<rparr>" "trace s' = trace s"
      "evolves (foot E D ns Fs ms Gs) s (foot E D ns Fs (ms @ [b]) (Gs @ [F])) s'"
    by (rule send_text_call [OF assms])
  then show ?thesis using evolves_keeps [OF assms(3) s'(6)] by blast
qed

theorem send_text_queues_frame_witness:
  "\<exists>s' p ns Fs key. rws_socket_send_text (Ptr 0 0) (lit ''Hi'') (sys_of [OSocket, OMutex 0]
      (zero_socket\<lparr>s_send_mutex := Ptr 1 0\<rparr>) quiet_env) = Some (True, s') \<and>
    queue_holds (blocks s') p ns Fs [(rws_opcode_text_frame, encode_frame 1 (Some key) [72, 105])]"
proof -
  let ?s = "sys_of [OSocket, OMutex 0] (zero_socket\<lparr>s_send_mutex := Ptr 1 0\<rparr>) quiet_env"
  have ses: "session ?s [] [] [] [] [] [] [] [] []"
    by (simp add: session_def buffer_at_def zero_socket_def queue_blks_def)
  have "c_string (lit ''Hi'') [72, 105] ?s"
    using c_string_lit [of "''Hi''" ?s] by (simp add: cstr_def)
  with send_text_queues_frame [OF _ _ ses, of "Ptr 0 0" 0]
  have "\<exists>s' ms' Gs' key. rws_socket_send_text (Ptr 0 0) (lit ''Hi'') ?s = Some (True, s') \<and>
      session s' [] [] [] [] [] [] ms' Gs' [(rws_opcode_text_frame, encode_frame 1 (Some key) [72, 105])]"
    by (fastforce simp: alive_def obj_at_def mutex_at_def)
  then show ?thesis unfolding session_def by blast
qed

text \<open>A missing or empty text is refused: \<open>rws_socket_send_text\<close> returns false and the state, the
  send mutex included, is exactly as before.\<close>

lemma send_text_refused:
  assumes "h = NULL \<or> alive h s = Some () \<and> mutex_at s (s_send_mutex (sk s)) c \<and> (t = NULL \<or> c_string t [] s)"
  shows "rws_socket_send_text h t s = Some (False, s)"
proof (cases "h = NULL")
  case True
  then show ?thesis by (simp add: rws_socket_send_text_def)
next
  case False
  let ?p = "s_send_mutex (sk s)"
  have mx: "mutex_at s ?p c" using assms False by simp
  have "rws_socket_send_text_priv t (with_count ?p (Suc c) s) = Some (False, with_count ?p (Suc c) s)"
  proof (cases "t = NULL")
    case False
    then have "strlen t (with_count ?p (Suc c) s) = Some 0"
      using assms \<open>h \<noteq> NULL\<close> strlen_c_string [OF c_string_count [OF mx], of t "[]" "Suc c"] by simp
    then show ?thesis using False by (simp add: rws_socket_send_text_priv_def)
  qed (simp add: rws_socket_send_text_priv_def)
  then show ?thesis
    using assms False lock_run [OF mx] unlock_run [OF mutex_at_count [OF mx]] with_count_twice [OF mx]
    by (simp add: rws_socket_send_text_def)
qed

text \<open>The message numbers of pings and disconnect messages stay between 1 and 10000000, so their
  decimal digits always fit the 16-byte array; the counter never exceeds 9999999 between calls.\<close>

lemma message_ids_bounded:
  assumes "s_next_message_id (sk s) \<le> 9999999"
  shows "\<exists>i s' d. rws_socket_get_next_message_id s = (i, s') \<and> 1 \<le> i \<and> i \<le> 10000000 \<and>
    s_next_message_id (sk s') \<le> 9999999 \<and> sprint_id i = Some d \<and> length d \<le> 8"
proof -
  let ?i = "s_next_message_id (sk s)"
  have i: "unat ?i \<le> 9999999" using assms by (simp add: word_le_nat_alt)
  then have suc: "unat (?i + 1) = Suc (unat ?i)" by (simp add: unat_word_ariths)
  then have "1 \<le> next_id s" "next_id s \<le> 10000000" using i by (simp_all add: next_id_def word_le_nat_alt)
  moreover have "length (utoa (unat (next_id s))) \<le> Suc 7"
    using i suc by (intro length_utoa) (simp add: next_id_def)
  moreover have "s_next_message_id (sk (bump_id s)) \<le> 9999999" by (simp add: not_less)
  ultimately show ?thesis by (simp add: next_message_id_run sprint_id_run)
qed

section \<open>One iteration of an idle connection\<close>

text \<open>
  \<open>online s\<close>: the connection is open and the work thread in its idle command, with both mutexes
  in place.
\<close>

definition online :: "sys \<Rightarrow> bool" where
  "online s \<longleftrightarrow> s_command (sk s) = COMMAND_IDLE \<and> s_is_connected (sk s) \<and> s_socket (sk s) \<noteq> RWS_INVALID_SOCKET \<and>
     (\<exists>c. mutex_at s (s_work_mutex (sk s)) c) \<and> (\<exists>c. mutex_at s (s_send_mutex (sk s)) c)"

lemma online_keeps:
  assumes "online s" and "keeps_mutexes s s'" and "same_setup (sk s) (sk s')"
    and "s_command (sk s') = s_command (sk s)" "s_is_connected (sk s') = s_is_connected (sk s)"
      "s_socket (sk s') = s_socket (sk s)"
  shows "online s'"
  using assms mutex_at_keeps [OF assms(2)] by (auto simp: online_def same_setup_def)

lemma small_messages:
  assumes "list_all regular us"
  shows "list_all (\<lambda>x. length (snd x) < 2 ^ 32) (concat (map message_of us))"
proof -
  have "length (payload_at u) < 2 ^ 32" if "u \<in> set us" for u
    using that assms length_payload_at [of u] low_len_less [of u] by (simp add: list_all_iff regular_def)
  then show ?thesis by (auto simp: list_all_iff message_of_def)
qed

text \<open>
  The work under the mutex: all waiting frames go out, the next frame of the stream comes in.
\<close>

lemma idle_command_run:
  assumes ses: "session s [] bs D ns Fs xs ms Gs ys" and on: "online s" and n: "n < 400"
    and len: "list_all (\<lambda>y. length (snd y) < 2 ^ 31) ys"
    and env: "env_send (ev s) = rs @- es" "length rs = length ys" "list_all (\<lambda>r. 0 < fst r) rs"
    and ok: "recv_ok s" and all: "all = bs @ recv_data (fst (recv_result s))"
    and reg: "list_all regular (fst (take_one check_size all))"
    and open_: "8 \<notin> set (map opcode_of (fst (take_one check_size all)))"
  obtains s' D' ns' Fs' ms' Gs' key where "work_command n s = Some (n, s')" and "length key = 4"
    and "session s' [] (snd (take_one check_size all)) D' ns' Fs'
      (xs @ concat (map message_of (fst (take_one check_size all)))) ms' Gs'
      (concat (map (answer_of key) (fst (take_one check_size all))))"
    and "online s'" and "keeps_mutexes s s'" and "same_setup (sk s) (sk s')" "s_socket (sk s') = s_socket (sk s)"
    and "trace s' = trace s @ sent_events rs ys"
    and "ev s' = (ev s)\<lparr>env_send := es, env_recv := stl (env_recv (ev s))\<rparr>"
proof -
  obtain c where mx: "mutex_at s (s_send_mutex (sk s)) c" using on by (auto simp: online_def)
  have conn: "s_is_connected (sk s)" "s_socket (sk s) \<noteq> RWS_INVALID_SOCKET" using on by (simp_all add: online_def)
  obtain s1 where s1: "rws_socket_idle_send s = Some s1" "session s1 [] bs D ns Fs xs [] [] []"
      "trace s1 = trace s @ sent_events rs ys" "sk s1 = (sk s)\<lparr>s_send_frames := NULL\<rparr>" "keeps_mutexes s s1"
      "ev s1 = (ev s)\<lparr>env_send := es\<rparr>"
    using idle_send_taken [OF ses mx len conn env] by blast
  have res: "recv_result s1 = recv_result s" by (simp add: recv_result_def s1(4,6))
  then have ok1: "recv_ok s1" and all1: "all = bs @ recv_data (fst (recv_result s1))"
    using ok all by (simp_all add: recv_ok_def)
  obtain s2 E' D' ns' Fs' ms' Gs' key where s2: "rws_socket_idle_recv s1 = Some s2" "length key = 4"
      "session s2 E' (snd (take_one check_size all)) D' ns' Fs'
        (xs @ concat (map message_of (fst (take_one check_size all)))) ms' Gs'
        ([] @ concat (map (answer_of key) (fst (take_one check_size all))))"
      "s_command (sk s2) = (if 8 \<in> set (map opcode_of (fst (take_one check_size all)))
        then COMMAND_INFORM_DISCONNECTED else s_command (sk s1))"
      "if 8 \<in> set (map opcode_of (fst (take_one check_size all)))
        then error_at (s_error (sk s2)) rws_error_code_connection_closed E' s2 else E' = []"
      "s_socket (sk s2) = s_socket (sk s1)" "s_is_connected (sk s2) = s_is_connected (sk s1)"
      "ev s2 = (ev s1)\<lparr>env_recv := stl (env_recv (ev s1))\<rparr>" "trace s2 = trace s1" "keeps_mutexes s1 s2"
      "same_setup (sk s1) (sk s2)" "evolves (foot [] D ns Fs [] []) s1 (foot E' D' ns' Fs' ms' Gs') s2"
    by (rule idle_recv_run [OF s1(2) ok1 all1 reg])
  have run: "work_command n s = Some (n, s2)"
    using on n conn s1(1,4) s2(1) by (simp add: work_command_def online_def)
  have stp: "same_setup (sk s) (sk s2)" using s2(11) s1(4) by (simp add: same_setup_def)
  have keep: "keeps_mutexes s s2" using s1(5) s2(10) by (rule keeps_trans)
  have "online s2" by (rule online_keeps [OF on keep stp]) (use s2 s1(4) open_ in auto)
  moreover have "E' = []" using s2(5) open_ by simp
  moreover have "s_socket (sk s2) = s_socket (sk s)" using s2(6) s1(4) by simp
  ultimately show thesis using run s2 s1(3,6) keep stp
    by (intro that [of s2 key D' ns' Fs' ms' Gs']) simp_all
qed

lemma recv_result_count [simp]: "recv_result (with_count p c s) = recv_result s" "recv_ok (with_count p c s) = recv_ok s"
  by (simp_all add: recv_ok_def recv_result_def)

lemma online_count:
  assumes "online s" and "mutex_at s p c"
  shows "online (with_count p c' s)"
proof -
  have "\<exists>d'. mutex_at (with_count p c' s) q d'" if "mutex_at s q d" for q d
    using assms(2) that by (auto simp: mutex_at_def with_count_def set_obj_def)
  then show ?thesis using assms(1) by (auto simp: online_def)
qed

lemma inform_nothing:
  assumes "s_recvd_frames (sk s) = NULL"
  shows "rws_socket_inform_recvd_frames user s = Some s"
proof -
  have "inform_loop user NULL True s = Some (True, s)" by (subst inform_loop.simps) simp
  moreover have "rws_list_delete NULL s = Some s" by (subst rws_list_delete.simps) simp
  moreover have "(sk s)\<lparr>s_recvd_frames := NULL\<rparr> = sk s" using assms by (cases "sk s") simp
  ultimately show ?thesis using assms by (simp add: rws_socket_inform_recvd_frames_def rws_list_delete_clean_def)
qed

text \<open>
  A whole iteration: the frames waiting go out, at most one frame comes in, and everything in the
  receive queue is delivered.
\<close>

lemma idle_iteration_run:
  assumes ses: "session s [] bs D ns Fs xs ms Gs ys" and on: "online s" and n: "Suc n < 400"
    and len: "list_all (\<lambda>y. length (snd y) < 2 ^ 31) ys" and lex: "list_all (\<lambda>x. length (snd x) < 2 ^ 32) xs"
    and env: "env_send (ev s) = rs @- es" "length rs = length ys" "list_all (\<lambda>r. 0 < fst r) rs"
    and ok: "recv_ok s" and all: "all = bs @ recv_data (fst (recv_result s))"
    and reg: "list_all regular (fst (take_one check_size all))"
    and open_: "8 \<notin> set (map opcode_of (fst (take_one check_size all)))"
    and user: "\<And>e s. user e s = Some s"
  obtains s' D' ms' Gs' key where "work_iteration user n s = Some (Suc n, s')" and "length key = 4"
    and "session s' [] (snd (take_one check_size all)) D' [] [] [] ms' Gs'
      (concat (map (answer_of key) (fst (take_one check_size all))))"
    and "online s'" and "keeps_mutexes s s'" and "same_setup (sk s) (sk s')" "s_socket (sk s') = s_socket (sk s)"
    and "trace s' = trace s @ sent_events rs ys @
      concat (map (event_of (sk s)) (xs @ concat (map message_of (fst (take_one check_size all)))))"
    and "ev s' = (ev s)\<lparr>env_send := es, env_recv := stl (env_recv (ev s))\<rparr>"
proof -
  let ?p = "s_work_mutex (sk s)" and ?us = "fst (take_one check_size all)"
  obtain c where mx: "mutex_at s ?p c" using on by (auto simp: online_def)
  let ?s0 = "with_count ?p (Suc c) s"
  have env0: "env_send (ev ?s0) = rs @- es" and all0: "all = bs @ recv_data (fst (recv_result ?s0))" and ok0: "recv_ok ?s0"
    using env(1) all ok by simp_all
  obtain s1 D' ns' Fs' ms' Gs' key where s1: "work_command (Suc n) ?s0 = Some (Suc n, s1)" "length key = 4"
      "session s1 [] (snd (take_one check_size all)) D' ns' Fs' (xs @ concat (map message_of ?us)) ms' Gs'
        (concat (map (answer_of key) ?us))"
      "online s1" "keeps_mutexes ?s0 s1" "same_setup (sk ?s0) (sk s1)" "s_socket (sk s1) = s_socket (sk ?s0)" "trace s1 = trace ?s0 @ sent_events rs ys"
      "ev s1 = (ev ?s0)\<lparr>env_send := es, env_recv := stl (env_recv (ev ?s0))\<rparr>"
    by (rule idle_command_run [OF count_session [OF ses mx] online_count [OF on mx] n len env0 env(2,3) ok0 all0 reg open_])
  have mx1: "mutex_at s1 ?p (Suc c)" using s1(5) mutex_at_count [OF mx] by (rule mutex_at_keeps)
  have p1: "s_work_mutex (sk s1) = ?p" using s1(6) by (simp add: same_setup_def)
  define s2 where "s2 = with_count ?p c s1"
  have keep2: "keeps_mutexes s s2" unfolding s2_def using s1(5) by (rule keeps_locked [OF mx])
  have ses2: "session s2 [] (snd (take_one check_size all)) D' ns' Fs' (xs @ concat (map message_of ?us)) ms' Gs'
        (concat (map (answer_of key) ?us))"
    unfolding s2_def by (rule count_session [OF s1(3) mx1])
  have on2: "online s2" unfolding s2_def by (rule online_count [OF s1(4) mx1])
  have ev2: "event_of (sk s2) = event_of (sk s)"
    using s1(6) by (simp add: s2_def event_of_def same_setup_def fun_eq_iff)
  have lens: "list_all (\<lambda>x. length (snd x) < 2 ^ 32) (xs @ concat (map message_of ?us))"
    using lex small_messages [OF reg] by simp
  obtain s3 where s3: "rws_socket_inform_recvd_frames user s2 = Some s3"
      "trace s3 = trace s2 @ concat (map (event_of (sk s2)) (xs @ concat (map message_of ?us)))"
      "session s3 [] (snd (take_one check_size all)) D' [] [] [] ms' Gs' (concat (map (answer_of key) ?us))"
      "keeps_mutexes s2 s3" "sk s3 = (sk s2)\<lparr>s_recvd_frames := NULL\<rparr>" "ev s3 = ev s2"
    using inform_run [where user = user, OF ses2 lens looks_onI [OF user]] by blast
  note inform_nothing [of s2 user]
  then have "work_inform user s2 = Some s3" using on2 s3(1) by (simp add: work_inform_switch online_def)
  then have run: "work_iteration user n s = Some (Suc n, s3)"
    using lock_run [OF mx] s1(1) unlock_run [OF mx1] p1 by (simp add: work_iteration_steps s2_def)
  have keep: "keeps_mutexes s s3" using keep2 s3(4) by (rule keeps_trans)
  have same: "same_setup (sk s) (sk s3)" using s1(6) s3(5) by (simp add: s2_def same_setup_def)
  have "online s3" by (rule online_keeps [OF on2 s3(4)]) (simp_all add: s3(5) same_setup_def)
  with run s1(2,7,8,9) s3 keep same ev2 show thesis
    by (intro that [of s3 key D' ms' Gs']) (simp_all add: s2_def)
qed

section \<open>Many iterations\<close>

lemma work_loop_step:
  assumes "s_command (sk s) < COMMAND_END" and "work_iteration user n s = Some (n', s')"
  shows "work_loop user n s = work_loop user n' s'"
  using assms by (subst work_loop.simps) simp

text \<open>
  The peer sends frames that need no answer (\<open>Q\<close>: more that is known of them); \<open>I\<close> stands for anything
  else that such iterations keep.
\<close>

lemma iterations_run:
  assumes user: "\<And>e s. user e s = Some s"
    and keep: "\<forall>n s s' bs D ms Gs. I s \<longrightarrow> session s [] bs D [] [] [] ms Gs [] \<longrightarrow> online s \<longrightarrow>
      list_all Q (fst (take_one check_size (bs @ recv_data (fst (recv_result s))))) \<longrightarrow>
      work_iteration user n s = Some (Suc n, s') \<longrightarrow> I s'"
  shows "I s \<Longrightarrow> session s [] bs D [] [] [] ms Gs [] \<Longrightarrow> online s \<Longrightarrow> incoming s chunks \<Longrightarrow> n + length chunks < 400 \<Longrightarrow>
    list_all (\<lambda>u. regular u \<and> opcode_of u \<notin> {8, 9} \<and> Q u) (fst (rounds check_size bs chunks)) \<Longrightarrow>
    \<exists>s' D' ms' Gs'. work_loop user n s = work_loop user (n + length chunks) s' \<and>
      session s' [] (snd (rounds check_size bs chunks)) D' [] [] [] ms' Gs' [] \<and> online s' \<and> I s' \<and>
      trace s' = trace s @ concat (map (event_of (sk s)) (concat (map message_of (fst (rounds check_size bs chunks))))) \<and>
      same_setup (sk s) (sk s') \<and> s_socket (sk s') = s_socket (sk s) \<and>
      ev s' = (ev s)\<lparr>env_recv := sdrop (length chunks) (env_recv (ev s))\<rparr>"
proof (induction chunks arbitrary: s bs D ms Gs n)
  case Nil
  moreover have "(ev s)\<lparr>env_recv := env_recv (ev s)\<rparr> = ev s" by simp
  ultimately show ?case by (intro exI [of _ s] exI [of _ D] exI [of _ ms] exI [of _ Gs]) simp
next
  case (Cons c chunks)
  note inc = incoming_Cons [OF Cons.prems(4)]
  let ?one = "take_one check_size (bs @ c)"
  let ?rest = "rounds check_size (snd ?one) chunks"
  have split: "rounds check_size bs (c # chunks) = (fst ?one @ fst ?rest, snd ?rest)"
    by (simp add: case_prod_beta)
  have reg: "list_all regular (fst ?one)" "8 \<notin> set (map opcode_of (fst ?one))" "9 \<notin> set (map opcode_of (fst ?one))"
      "list_all Q (fst ?one)" "list_all (\<lambda>u. regular u \<and> opcode_of u \<notin> {8, 9} \<and> Q u) (fst ?rest)"
    using Cons.prems(6) unfolding split by (auto simp: list_all_iff)
  obtain s1 D1 ms1 Gs1 key where s1: "work_iteration user n s = Some (Suc n, s1)" "length key = 4"
      "session s1 [] (snd ?one) D1 [] [] [] ms1 Gs1 (concat (map (answer_of key) (fst ?one)))"
      "online s1" "keeps_mutexes s s1" "same_setup (sk s) (sk s1)" "s_socket (sk s1) = s_socket (sk s)"
      "trace s1 = trace s @ sent_events [] [] @ concat (map (event_of (sk s)) ([] @ concat (map message_of (fst ?one))))"
      "ev s1 = (ev s)\<lparr>env_send := env_send (ev s), env_recv := stl (env_recv (ev s))\<rparr>"
    by (rule idle_iteration_run [OF Cons.prems(2,3), where user = user and rs = "[]" and all = "bs @ c" and n = n and es = "env_send (ev s)"])
      (use Cons.prems(5) inc(1,2) reg user in simp_all)
  have none: "concat (map (answer_of key) (fst ?one)) = []" using reg(3) by (auto simp: answer_of_def)
  have ev1: "ev s1 = (ev s)\<lparr>env_recv := stl (env_recv (ev s))\<rparr>" unfolding s1(9) by (cases "ev s") simp
  with s1(7) have "incoming s1 chunks" by (rule inc(3))
  moreover have "list_all Q (fst (take_one check_size (bs @ recv_data (fst (recv_result s)))))" using reg(4) inc(2) by simp
  then have "I s1" using keep Cons.prems(1-3) s1(1) by blast
  ultimately obtain s2 D2 ms2 Gs2 where s2: "work_loop user (Suc n) s1 = work_loop user (Suc n + length chunks) s2"
      "session s2 [] (snd ?rest) D2 [] [] [] ms2 Gs2 []" "online s2" "I s2"
      "trace s2 = trace s1 @ concat (map (event_of (sk s1)) (concat (map message_of (fst ?rest))))"
      "same_setup (sk s1) (sk s2)" "s_socket (sk s2) = s_socket (sk s1)"
      "ev s2 = (ev s1)\<lparr>env_recv := sdrop (length chunks) (env_recv (ev s1))\<rparr>"
    using Cons.IH [OF _ s1(3) [unfolded none] s1(4) _ _ reg(5), of "Suc n"] Cons.prems(5) by auto
  have ev: "event_of (sk s1) = event_of (sk s)" using s1(6) by (simp add: event_of_def same_setup_def fun_eq_iff)
  have "work_loop user n s = work_loop user (n + length (c # chunks)) s2"
    using work_loop_step [OF _ s1(1)] Cons.prems(3) s2(1) by (simp add: online_def)
  then show ?case unfolding split using s2(2-8) s1(7,8) ev ev1 same_setup_trans [OF s1(6) s2(6)]
    by (intro exI [of _ s2] exI [of _ D2] exI [of _ ms2] exI [of _ Gs2]) simp
qed

text \<open>From the network to the application.  On an open idle connection, let the peer send text
  and binary messages (masked or not) whose bytes the network cuts into arbitrary chunks, one per
  iteration of the work thread, followed by at least as many quiet iterations as there are messages.
  Then the work thread performs these iterations, and the callbacks of the application have been
  called once per message, in the order of sending, with exactly the bytes sent; nothing else was
  written to the socket or reported, the receive buffer and both queues are empty, and the
  connection is still open.\<close>

lemma connection_delivers_messages:
  assumes "session s [] [] D [] [] [] ms Gs []" and "online s"
    and "list_all (\<lambda>(op, key, payload). op \<in> {1, 2} \<and> payload \<noteq> [] \<and> encodable (op, key, payload)) msgs"
    and "incoming s (chunks @ replicate n [])" and "concat chunks = concat (map encode msgs)"
    and "length msgs \<le> n" and "i + (length chunks + n) < 400"
    and "\<And>e s. user e s = Some s"
  shows "\<exists>s' D' ms' Gs'. work_loop user i s = work_loop user (i + (length chunks + n)) s' \<and>
    trace s' = trace s @ concat (map (event_of (sk s)) (map (\<lambda>(op, key, payload). (of_nat op, payload)) msgs)) \<and>
    session s' [] [] D' [] [] [] ms' Gs' [] \<and> online s'"
proof -
  note peer = peer_messages [OF assms(3,5,6)]
  have reg: "list_all (\<lambda>u. regular u \<and> opcode_of u \<notin> {8, 9} \<and> True) (fst (rounds check_size [] (chunks @ replicate n [])))"
    using peer(2,4,5) unfolding peer(1) list_all_iff fst_conv by fastforce
  have small: "i + length (chunks @ replicate n []) < 400" using assms(7) by simp
  obtain s' D' ms' Gs' where "work_loop user i s = work_loop user (i + (length chunks + n)) s'"
      "session s' [] [] D' [] [] [] ms' Gs' []" "online s'"
      "trace s' = trace s @ concat (map (event_of (sk s)) (map (\<lambda>(op, key, payload). (of_nat op, payload)) msgs))"
    using iterations_run [where user = user and I = "\<lambda>_. True" and Q = "\<lambda>_. True", OF assms(8) _ _ assms(1,2,4) small reg]
    unfolding peer(1) fst_conv snd_conv peer(3) by auto
  then show ?thesis by blast
qed

section \<open>Keep-alive\<close>

lemma work_command_ping:
  assumes "online s" and "online s1" and "400 \<le> n" and "rws_socket_send_ping s = Some s1"
  shows "work_command n s = work_command 0 s1"
  using assms by (simp add: work_command_def online_def)

text \<open>C23: Keep-alive.  When the counter of iterations has reached 400 on an open connection, the
  command step sends all waiting frames and then one masked ping frame that carries the decimal
  digits of the next message number, and restarts the counter; the connection stays open and its
  send queue is empty.\<close>

theorem keepalive_ping_sent:
  assumes "session s [] bs D ns Fs xs ms Gs ys" and "online s" and "400 \<le> n"
    and "list_all (\<lambda>y. length (snd y) < 2 ^ 31) ys"
    and "env_send (ev s) = rs @- es" "length rs = Suc (length ys)" "list_all (\<lambda>r. 0 < fst r) rs"
    and "recv_ok s" and "recv_data (fst (recv_result s)) = []" and "take_one check_size bs = ([], bs)"
  shows "\<exists>s' D' ns' Fs' ms' Gs' key. work_command n s = Some (0, s') \<and> length key = 4 \<and>
    trace s' = trace s @ sent_events rs (ys @ [(rws_opcode_ping, encode_frame 9 (Some key) (utoa (unat (next_id s))))]) \<and>
    session s' [] bs D' ns' Fs' xs ms' Gs' [] \<and> online s'"
proof -
  obtain s1 b F p where s1: "rws_socket_send_ping s = Some s1"
      "session s1 [] bs D ns Fs xs (ms @ [b]) (Gs @ [F]) (ys @ [(rws_opcode_ping, ready_bytes rws_opcode_ping (id_text s) s)])"
      "sk s1 = (sk (bump_id s))\<lparr>s_send_frames := p\<rparr>" "ev s1 = ev s" "trace s1 = trace s"
      "evolves (foot [] D ns Fs ms Gs) s (foot [] D ns Fs (ms @ [b]) (Gs @ [F])) s1"
    by (rule send_ping_run [OF assms(1)])
  have on: "online s1" by (rule online_keeps [OF assms(2) evolves_keeps [OF assms(1) s1(6)]]) (simp_all add: s1(3) bump_id_def same_setup_def)
  have "recv_result s1 = recv_result s" by (simp add: recv_result_def s1(3,4) bump_id_def)
  then have env: "recv_ok s1" "bs = bs @ recv_data (fst (recv_result s1))"
    using assms(8,9) by (simp_all add: recv_ok_def)
  have len: "length (id_text s) \<le> 10" by (rule sprint_id_run(2))
  have fits: "list_all (\<lambda>y. length (snd y) < 2 ^ 31) (ys @ [(rws_opcode_ping, ready_bytes rws_opcode_ping (id_text s) s)])"
    using assms(4) len by (simp add: ready_bytes_def encode_frame_def header_bytes_def)
  have out: "env_send (ev s1) = rs @- es" "length rs = length (ys @ [(rws_opcode_ping, ready_bytes rws_opcode_ping (id_text s) s)])"
    using assms(5,6) s1(4) by simp_all
  have none: "list_all regular (fst (take_one check_size bs))" "8 \<notin> set (map opcode_of (fst (take_one check_size bs)))"
    using assms(10) by simp_all
  obtain s' key D' ns' Fs' ms' Gs' where "work_command 0 s1 = Some (0, s')" and "length key = 4"
      and "session s' [] (snd (take_one check_size bs)) D' ns' Fs' (xs @ concat (map message_of (fst (take_one check_size bs)))) ms' Gs'
        (concat (map (answer_of key) (fst (take_one check_size bs))))"
      and "online s'" and "keeps_mutexes s1 s'" and "same_setup (sk s1) (sk s')" and "s_socket (sk s') = s_socket (sk s1)"
      and "trace s' = trace s1 @ sent_events rs (ys @ [(rws_opcode_ping, ready_bytes rws_opcode_ping (id_text s) s)])"
      and "ev s' = (ev s1)\<lparr>env_send := es, env_recv := stl (env_recv (ev s1))\<rparr>"
    by (rule idle_command_run [where n = 0, OF s1(2) on _ fits out assms(7) env none]) (simp, blast)
  then show ?thesis
    using work_command_ping [OF assms(2) on assms(3) s1(1)] s1(5)
    by (intro exI [of _ s'] exI [of _ D'] exI [of _ ns'] exI [of _ Fs'] exI [of _ ms'] exI [of _ Gs'] exI [of _ "made_key s"])
      (simp add: assms(10) ready_bytes_def)
qed

theorem keepalive_ping_sent_witness:
  "\<exists>s' key. work_command 400 (sys_of [OMutex 0, OMutex 0] (zero_socket\<lparr>s_socket := 3, s_command := COMMAND_IDLE,
       s_is_connected := True, s_work_mutex := Ptr 0 0, s_send_mutex := Ptr 1 0\<rparr>)
      (quiet_env\<lparr>env_send := [(10, 0)] @- sconst (0, EAGAIN)\<rparr>)) = Some (0, s') \<and>
     length key = 4 \<and> trace s' = [Sent (take 10 (encode_frame 9 (Some key) (utoa 1)))]"
proof -
  let ?s = "sys_of [OMutex 0, OMutex 0] (zero_socket\<lparr>s_socket := 3, s_command := COMMAND_IDLE,
       s_is_connected := True, s_work_mutex := Ptr 0 0, s_send_mutex := Ptr 1 0\<rparr>)
      (quiet_env\<lparr>env_send := [(10, 0)] @- sconst (0, EAGAIN)\<rparr>)"
  have ses: "session ?s [] [] [] [] [] [] [] [] []"
    by (simp add: session_def buffer_at_def zero_socket_def queue_blks_def)
  have on: "online ?s" by (simp add: online_def mutex_at_def)
  have sends: "env_send (ev ?s) = [(10, 0)] @- sconst (0, EAGAIN)" by simp
  have quiet: "recv_ok ?s" "recv_data (fst (recv_result ?s)) = []" "take_one check_size [] = ([], [])"
    by (simp_all add: recv_ok_def recv_result_def quiet_env_def zero_socket_def take_one_def check_size_def)
  have "next_id ?s = 1" by (simp add: next_id_def zero_socket_def)
  then show ?thesis using keepalive_ping_sent [OF ses on _ _ sends _ _ quiet, of 400] by fastforce
qed

end
