(* ===== verification/Rws_Public.thy ===== *)
theory Rws_Public imports Rws_Lifecycle begin

text \<open>
  What the public functions of \<open>librws.h\<close> promise: URL parameters and the checks of
  \<open>rws_socket_connect\<close>.
\<close>

section \<open>Owned strings\<close>

text \<open>\<open>str_at p bs A m\<close>: \<open>p\<close> holds the string \<open>bs\<close> in its own block \<open>A\<close>; \<open>NULL\<close> holds the empty one.\<close>

definition str_at :: "ptr \<Rightarrow> u8 list \<Rightarrow> nat list \<Rightarrow> 'a mem_scheme \<Rightarrow> bool" where
  "str_at p bs A m \<longleftrightarrow> p = NULL \<and> bs = [] \<and> A = [] \<or> (\<exists>b. p = Ptr b 0 \<and> A = [b] \<and> bs \<noteq> [] \<and> c_string p bs m)"

lemma str_at_cong: "str_at p bs A m \<Longrightarrow> (\<And>b. b \<in> set A \<Longrightarrow> blocks m' b = blocks m b) \<Longrightarrow> str_at p bs A m'"
  using c_string_cong [of p m' m bs] by (auto simp: str_at_def)

lemma str_at_live: "str_at p bs A m \<Longrightarrow> b \<in> set A \<Longrightarrow> \<exists>cs. blocks m b = Some (OBytes cs)"
  using c_string_live by (auto simp: str_at_def)

lemma str_at_delete: "str_at p bs A m \<Longrightarrow>
    rws_string_delete p m = Some (set_heap (\<lambda>b. if b \<in> set A then None else blocks m b) (next_blk m) m)"
  using c_string_live [of _ 0 bs m]
  by (fastforce simp: str_at_def rws_string_delete_def run_simps intro!: arg_cong [where f = "\<lambda>B. set_heap B _ _"])

text \<open>How every setter replaces a string: delete the old one, copy the new one.\<close>

lemma replace_string_run:
  assumes fresh: "fresh_ok m" and old: "str_at p os A m" and new: "c_string t bs m" and apart: "ptr_blks t \<inter> set A = {}"
  obtains B0 q B n A' where "rws_string_delete p m = Some (set_heap B0 (next_blk m) m)"
    and "rws_string_copy t (set_heap B0 (next_blk m) m) = Some (q, set_heap B n m)"
    and "str_at q bs A' (set_heap B n m)" and "fresh_ok (set_heap B n m)" and "next_blk m \<le> n"
    and "\<And>b. b \<in> set A' \<Longrightarrow> next_blk m \<le> b"
    and "\<And>b. b \<in> set A \<Longrightarrow> B b = None" and "\<And>b. b \<notin> set A \<Longrightarrow> b \<notin> set A' \<Longrightarrow> B b = blocks m b"
proof -
  define B0 where "B0 = (\<lambda>b. if b \<in> set A then None else blocks m b)"
  have del: "rws_string_delete p m = Some (set_heap B0 (next_blk m) m)"
    unfolding B0_def by (rule str_at_delete [OF old])
  have fresh0: "fresh_ok (set_heap B0 (next_blk m) m)" using fresh by (auto simp: fresh_ok_def B0_def)
  have str: "c_string t bs (set_heap B0 (next_blk m) m)"
    using new c_string_cong [of t "set_heap B0 (next_blk m) m" m bs] apart by (fastforce simp: B0_def)
  have nz: "0 \<notin> set bs" using new by (simp add: c_string_def)
  have lt: "b < next_blk m" if "b \<in> set A" for b using str_at_live [OF old that] fresh by (auto simp: fresh_ok_def)
  note copy = rws_string_copy_run [OF fresh0 str]
  show thesis
  proof (cases "bs = []")
    case True
    show thesis
      by (rule that [OF del, of NULL B0 "next_blk m" "[]"]) (use copy True fresh0 in \<open>auto simp: str_at_def B0_def\<close>)
  next
    case False
    have "c_string (Ptr (next_blk m) 0) bs (set_heap (B0(next_blk m \<mapsto> OBytes (map Some (bs @ [0])))) (Suc (next_blk m)) m)"
      using nz by (intro c_string_block) simp_all
    then show thesis
      by (intro that [OF del, of "Ptr (next_blk m) 0" "B0(next_blk m \<mapsto> OBytes (map Some (bs @ [0])))" "Suc (next_blk m)" "[next_blk m]"])
        (use copy False fresh0 lt fresh_ok_alloc [OF fresh0] in \<open>auto simp: str_at_def B0_def\<close>)
  qed
qed

section \<open>URL parameters\<close>

lemma alive_Ptr: "alive h s = Some () \<longleftrightarrow> (\<exists>b. h = Ptr b 0 \<and> blocks s b = Some OSocket)"
  by (auto simp: alive_def obj_at_def split: option.splits obj.splits ptr.splits if_splits)

text \<open>Several pointers that hold strings in blocks of their own.\<close>

definition slots_at :: "'a mem_scheme \<Rightarrow> ptr list \<Rightarrow> u8 list list \<Rightarrow> nat list list \<Rightarrow> bool" where
  "slots_at m ps os As \<longleftrightarrow> length os = length ps \<and> length As = length ps \<and>
     (\<forall>i < length ps. str_at (ps ! i) (os ! i) (As ! i) m) \<and>
     (\<forall>i < length ps. \<forall>j < length ps. i \<noteq> j \<longrightarrow> set (As ! i) \<inter> set (As ! j) = {})"

definition slot_blks :: "nat list list \<Rightarrow> nat set" where
  "slot_blks As = (\<Union>j \<in> {..<length As}. set (As ! j))"

lemma slots_live: "slots_at m ps os As \<Longrightarrow> b \<in> slot_blks As \<Longrightarrow> \<exists>cs. blocks m b = Some (OBytes cs)"
  using str_at_live by (fastforce simp: slots_at_def slot_blks_def)

lemma c_string_apart:
  assumes "c_string t bs m" and "ptr_blks t \<inter> U = {}" and "\<And>b. b \<in> live m \<Longrightarrow> b \<notin> U \<Longrightarrow> blocks m' b = blocks m b"
  shows "c_string t bs m'"
proof -
  have "blocks m' b = blocks m b" if "t = Ptr b off" for b off
    using assms c_string_live [of b off bs m] that by (auto simp: live_def)
  then show ?thesis using assms(1) c_string_cong [of t m' m bs] by blast
qed

lemma c_string_blks: "c_string t bs m \<Longrightarrow> ptr_blks t \<subseteq> live m"
  using c_string_live by (cases t) (fastforce simp: live_def)+

text \<open>One setter: slot \<open>i\<close> gets a new string, the others and the caller's strings survive.\<close>

lemma replace_slot_run:
  assumes fresh: "fresh_ok m" and slots: "slots_at m ps os As" and i: "i < length ps"
    and new: "c_string t bs m" "ptr_blks t \<inter> slot_blks As = {}"
  obtains B0 q B n A' where "rws_string_delete (ps ! i) m = Some (set_heap B0 (next_blk m) m)"
    and "rws_string_copy t (set_heap B0 (next_blk m) m) = Some (q, set_heap B n m)"
    and "slots_at (set_heap B n m) (ps[i := q]) (os[i := bs]) (As[i := A'])" and "fresh_ok (set_heap B n m)"
    and "\<And>u ds. c_string u ds m \<Longrightarrow> ptr_blks u \<inter> slot_blks As = {} \<Longrightarrow>
      c_string u ds (set_heap B n m) \<and> ptr_blks u \<inter> slot_blks (As[i := A']) = {}"
    and "\<And>b. b \<in> live m \<Longrightarrow> b \<notin> slot_blks As \<Longrightarrow> b \<notin> slot_blks (As[i := A']) \<and> B b = blocks m b"
    and "live (set_heap B n m) - slot_blks (As[i := A']) = live m - slot_blks As"
proof -
  have len: "length os = length ps" "length As = length ps" using slots by (simp_all add: slots_at_def)
  have old: "str_at (ps ! i) (os ! i) (As ! i) m" using slots i by (simp add: slots_at_def)
  have sub: "set (As ! i) \<subseteq> slot_blks As" using i len by (auto simp: slot_blks_def)
  obtain B0 q B n A' where r: "rws_string_delete (ps ! i) m = Some (set_heap B0 (next_blk m) m)"
      "rws_string_copy t (set_heap B0 (next_blk m) m) = Some (q, set_heap B n m)"
      "str_at q bs A' (set_heap B n m)" "fresh_ok (set_heap B n m)" "next_blk m \<le> n"
      "\<And>b. b \<in> set A' \<Longrightarrow> next_blk m \<le> b" "\<And>b. b \<in> set (As ! i) \<Longrightarrow> B b = None"
      "\<And>b. b \<notin> set (As ! i) \<Longrightarrow> b \<notin> set A' \<Longrightarrow> B b = blocks m b"
    by (rule replace_string_run [OF fresh old new(1)]) (use new(2) sub in auto)
  have fresh': "b \<notin> set A'" if "b \<in> live m" for b
    using that fresh r(6) by (fastforce simp: live_def fresh_ok_def)
  have blks: "slot_blks (As[i := A']) = set A' \<union> (\<Union>j \<in> {j. j < length ps \<and> j \<noteq> i}. set (As ! j))"
    using i len by (auto simp: slot_blks_def nth_list_update split: if_splits)
  have other: "set (As ! j) \<inter> set (As ! i) = {}" "set (As ! j) \<inter> set A' = {}" "set (As ! j) \<subseteq> live m \<inter> slot_blks As"
    if "j < length ps" "j \<noteq> i" for j
  proof -
    show "set (As ! j) \<inter> set (As ! i) = {}" using slots that i by (simp add: slots_at_def)
    show "set (As ! j) \<subseteq> live m \<inter> slot_blks As"
      using that len slots_live [OF slots] by (auto simp: live_def slot_blks_def)
    then show "set (As ! j) \<inter> set A' = {}" using fresh' by auto
  qed
  have keep: "b \<notin> slot_blks (As[i := A']) \<and> B b = blocks m b" if "b \<in> live m" "b \<notin> slot_blks As" for b
  proof -
    have "b \<notin> set A'" "b \<notin> set (As ! i)" using fresh' that sub by auto
    moreover have "b \<notin> set (As ! j)" if "j < length ps" "j \<noteq> i" for j using other(3) [OF that] \<open>b \<notin> slot_blks As\<close> by auto
    ultimately show ?thesis using r(8) by (auto simp: blks)
  qed
  show thesis
  proof (rule that [OF r(1,2) _ r(4) _ keep])
    show "slots_at (set_heap B n m) (ps[i := q]) (os[i := bs]) (As[i := A'])"
      unfolding slots_at_def
    proof (intro conjI allI impI)
      show "str_at (ps[i := q] ! j) (os[i := bs] ! j) (As[i := A'] ! j) (set_heap B n m)" if "j < length (ps[i := q])" for j
      proof (cases "j = i")
        case False
        have "B b = blocks m b" if "b \<in> set (As ! j)" for b
          using other [of j] that False \<open>j < length (ps[i := q])\<close> r(8) by auto
        moreover have "str_at (ps ! j) (os ! j) (As ! j) m" using slots that by (simp add: slots_at_def)
        ultimately show ?thesis using False str_at_cong [of "ps ! j" "os ! j" "As ! j" m "set_heap B n m"] by simp
      qed (use r(3) len that in simp)
    next
      fix j k assume "j < length (ps[i := q])" "k < length (ps[i := q])" "j \<noteq> k"
      then show "set (As[i := A'] ! j) \<inter> set (As[i := A'] ! k) = {}"
        using slots other(2) [of j] other(2) [of k] len
        by (cases "j = i"; cases "k = i") (simp_all add: slots_at_def Int_commute)
    qed (use len in simp_all)
    show "c_string u ds (set_heap B n m) \<and> ptr_blks u \<inter> slot_blks (As[i := A']) = {}"
      if u: "c_string u ds m" "ptr_blks u \<inter> slot_blks As = {}" for u ds
    proof
      show "c_string u ds (set_heap B n m)" by (rule c_string_apart [OF u]) (use keep in auto)
      show "ptr_blks u \<inter> slot_blks (As[i := A']) = {}" using u(2) keep c_string_blks [OF u(1)] by blast
    qed
    have all: "slot_blks As = set (As ! i) \<union> (\<Union>j \<in> {j. j < length ps \<and> j \<noteq> i}. set (As ! j))"
      using i len by (auto simp: slot_blks_def)
    show "live (set_heap B n m) - slot_blks (As[i := A']) = live m - slot_blks As"
    proof (intro equalityI subsetI)
      fix b assume b: "b \<in> live (set_heap B n m) - slot_blks (As[i := A'])"
      then have "b \<notin> set (As ! i)" "b \<notin> set A'" using r(7) by (auto simp: live_def blks)
      then show "b \<in> live m - slot_blks As" using b r(8) by (auto simp: live_def blks all)
    next
      fix b assume "b \<in> live m - slot_blks As"
      then show "b \<in> live (set_heap B n m) - slot_blks (As[i := A'])" using keep by (auto simp: live_def)
    qed
  qed
qed


lemma slots_at_sys [simp]: "slots_at (s\<lparr>sk := k\<rparr>) ps os As = slots_at s ps os As"
  by (simp add: slots_at_def str_at_def)

lemma live_sys [simp]: "live (s\<lparr>sk := k\<rparr>) = live s"
  by (simp add: live_def)

definition url_at :: "sys \<Rightarrow> u8 list \<Rightarrow> u8 list \<Rightarrow> u8 list \<Rightarrow> nat list list \<Rightarrow> bool" where
  "url_at s scheme host path As \<longleftrightarrow>
     slots_at s [s_scheme (sk s), s_host (sk s), s_path (sk s)] [scheme, host, path] As"

lemma set_url_run:
  assumes al: "alive h s = Some ()" and fresh: "fresh_ok s" and url: "url_at s sc ho pa As"
    and args: "c_string t1 scheme s" "c_string t2 host s" "c_string t3 path s"
    and apart: "ptr_blks t1 \<inter> slot_blks As = {}" "ptr_blks t2 \<inter> slot_blks As = {}" "ptr_blks t3 \<inter> slot_blks As = {}"
  obtains s' As' p q r where "rws_socket_set_url h t1 t2 port t3 s = Some s'"
    and "url_at s' scheme host path As'" "fresh_ok s'" "alive h s' = Some ()"
    and "sk s' = (sk s)\<lparr>s_scheme := p, s_host := q, s_path := r, s_port := port\<rparr>"
    and "live s' - slot_blks As' = live s - slot_blks As" "ev s' = ev s" "trace s' = trace s"
    and "\<And>b. b \<in> live s \<Longrightarrow> b \<notin> slot_blks As \<Longrightarrow> blocks s' b = blocks s b"
proof -
  let ?ps = "[s_scheme (sk s), s_host (sk s), s_path (sk s)]"
  obtain H1 p B1 n1 A1 where r1: "rws_string_delete (?ps ! 0) s = Some (set_heap H1 (next_blk s) s)"
      "rws_string_copy t1 (set_heap H1 (next_blk s) s) = Some (p, set_heap B1 n1 s)"
      "slots_at (set_heap B1 n1 s) (?ps[0 := p]) ([sc, ho, pa][0 := scheme]) (As[0 := A1])" "fresh_ok (set_heap B1 n1 s)"
      "\<And>u ds. c_string u ds s \<Longrightarrow> ptr_blks u \<inter> slot_blks As = {} \<Longrightarrow>
        c_string u ds (set_heap B1 n1 s) \<and> ptr_blks u \<inter> slot_blks (As[0 := A1]) = {}"
      "\<And>b. b \<in> live s \<Longrightarrow> b \<notin> slot_blks As \<Longrightarrow> b \<notin> slot_blks (As[0 := A1]) \<and> B1 b = blocks s b"
      "live (set_heap B1 n1 s) - slot_blks (As[0 := A1]) = live s - slot_blks As"
    by (rule replace_slot_run [OF fresh url [unfolded url_at_def] _ args(1) apart(1), of 0]) (simp, blast)
  define s1 where "s1 = (set_heap B1 n1 s)\<lparr>sk := (sk s)\<lparr>s_scheme := p\<rparr>\<rparr>"
  let ?ps1 = "?ps[0 := p]" and ?os1 = "[sc, ho, pa][0 := scheme]" and ?As1 = "As[0 := A1]"
  have s1: "fresh_ok s1" "slots_at s1 ?ps1 ?os1 ?As1" "c_string t2 host s1" "c_string t3 path s1"
      "ptr_blks t2 \<inter> slot_blks ?As1 = {}" "ptr_blks t3 \<inter> slot_blks ?As1 = {}"
    using r1(3,4) r1(5) [OF args(2) apart(2)] r1(5) [OF args(3) apart(3)] by (simp_all add: s1_def del: set_heap_sys(4) list_update.simps)
  obtain H2 q B2 n2 A2 where r2: "rws_string_delete (?ps1 ! 1) s1 = Some (set_heap H2 (next_blk s1) s1)"
      "rws_string_copy t2 (set_heap H2 (next_blk s1) s1) = Some (q, set_heap B2 n2 s1)"
      "slots_at (set_heap B2 n2 s1) (?ps1[1 := q]) (?os1[1 := host]) (?As1[1 := A2])" "fresh_ok (set_heap B2 n2 s1)"
      "\<And>u ds. c_string u ds s1 \<Longrightarrow> ptr_blks u \<inter> slot_blks ?As1 = {} \<Longrightarrow>
        c_string u ds (set_heap B2 n2 s1) \<and> ptr_blks u \<inter> slot_blks (?As1[1 := A2]) = {}"
      "\<And>b. b \<in> live s1 \<Longrightarrow> b \<notin> slot_blks ?As1 \<Longrightarrow> b \<notin> slot_blks (?As1[1 := A2]) \<and> B2 b = blocks s1 b"
      "live (set_heap B2 n2 s1) - slot_blks (?As1[1 := A2]) = live s1 - slot_blks ?As1"
    by (rule replace_slot_run [OF s1(1,2) _ s1(3,5), of 1]) (simp, blast)
  define s2 where "s2 = (set_heap B2 n2 s1)\<lparr>sk := (sk s1)\<lparr>s_host := q\<rparr>\<rparr>"
  let ?ps2 = "?ps1[1 := q]" and ?os2 = "?os1[1 := host]" and ?As2 = "?As1[1 := A2]"
  have s2: "fresh_ok s2" "slots_at s2 ?ps2 ?os2 ?As2" "c_string t3 path s2" "ptr_blks t3 \<inter> slot_blks ?As2 = {}"
    using r2(3,4) r2(5) [OF s1(4,6)] by (simp_all add: s2_def del: set_heap_sys(4) list_update.simps)
  obtain H3 r B3 n3 A3 where r3: "rws_string_delete (?ps2 ! 2) s2 = Some (set_heap H3 (next_blk s2) s2)"
      "rws_string_copy t3 (set_heap H3 (next_blk s2) s2) = Some (r, set_heap B3 n3 s2)"
      "slots_at (set_heap B3 n3 s2) (?ps2[2 := r]) (?os2[2 := path]) (?As2[2 := A3])" "fresh_ok (set_heap B3 n3 s2)"
      "\<And>u ds. c_string u ds s2 \<Longrightarrow> ptr_blks u \<inter> slot_blks ?As2 = {} \<Longrightarrow>
        c_string u ds (set_heap B3 n3 s2) \<and> ptr_blks u \<inter> slot_blks (?As2[2 := A3]) = {}"
      "\<And>b. b \<in> live s2 \<Longrightarrow> b \<notin> slot_blks ?As2 \<Longrightarrow> b \<notin> slot_blks (?As2[2 := A3]) \<and> B3 b = blocks s2 b"
      "live (set_heap B3 n3 s2) - slot_blks (?As2[2 := A3]) = live s2 - slot_blks ?As2"
    by (rule replace_slot_run [OF s2(1,2) _ s2(3,4), of 2]) (simp, blast)
  define s3 where "s3 = (set_heap B3 n3 s2)\<lparr>sk := (sk s2)\<lparr>s_path := r, s_port := port\<rparr>\<rparr>"
  have run: "rws_socket_set_url h t1 t2 port t3 s = Some s3"
    using al r1(1,2) r2(1,2) r3(1,2)
    by (cases "h = NULL") (simp_all add: rws_socket_set_url_def s1_def s2_def s3_def alive_def obj_at_def)
  have lives: "live s3 - slot_blks (?As2[2 := A3]) = live s - slot_blks As"
    using r1(7) r2(7) r3(7) by (simp add: s1_def s2_def s3_def live_def)
  have keep: "b \<notin> slot_blks (?As2[2 := A3]) \<and> blocks s3 b = blocks s b" if "b \<in> live s" "b \<notin> slot_blks As" for b
  proof -
    have b1: "b \<notin> slot_blks ?As1 \<and> blocks s1 b = blocks s b" using r1(6) [OF that] by (simp add: s1_def)
    then have b2: "b \<notin> slot_blks ?As2 \<and> blocks s2 b = blocks s b" using r2(6) [of b] that by (simp add: s2_def live_def)
    then show ?thesis using r3(6) [of b] that by (simp add: s3_def live_def)
  qed
  have al3: "alive h s3 = Some ()"
  proof -
    obtain b where b: "h = Ptr b 0" "blocks s b = Some OSocket" using al by (auto simp: alive_Ptr)
    then have "b \<notin> slot_blks As" using slots_live [OF url [unfolded url_at_def], of b] by auto
    then show ?thesis using keep [of b] b by (simp add: alive_Ptr live_def)
  qed
  show thesis
  proof (rule that [OF run, of "?As2[2 := A3]"])
    show "url_at s3 scheme host path (?As2[2 := A3])"
      using r3(3) by (simp add: url_at_def s1_def s2_def s3_def numeral_2_eq_2 del: set_heap_sys(4))
    show "fresh_ok s3" using r3(4) by (simp add: s3_def del: set_heap_sys(4))
    show "sk s3 = (sk s)\<lparr>s_scheme := p, s_host := q, s_path := r, s_port := port\<rparr>" by (simp add: s1_def s2_def s3_def)
  qed (use al3 lives keep in \<open>simp_all add: s1_def s2_def s3_def\<close>)
qed

text \<open>What the application reads behind a returned pointer; the empty string comes back as \<open>NULL\<close>.\<close>

definition reads_as :: "ptr \<Rightarrow> u8 list \<Rightarrow> 'a mem_scheme \<Rightarrow> bool" where
  "reads_as p bs m \<longleftrightarrow> (if bs = [] then p = NULL else c_string p bs m)"

lemma str_at_reads: "str_at p bs A m \<Longrightarrow> reads_as p bs m"
  by (auto simp: str_at_def reads_as_def)

lemma url_at_strings:
  assumes "url_at s sc ho pa As"
  shows "str_at (s_scheme (sk s)) sc (As ! 0) s" "str_at (s_host (sk s)) ho (As ! 1) s" "str_at (s_path (sk s)) pa (As ! 2) s"
proof -
  have at: "str_at ([s_scheme (sk s), s_host (sk s), s_path (sk s)] ! i) ([sc, ho, pa] ! i) (As ! i) s" if "i < 3" for i
    using assms that by (simp add: url_at_def slots_at_def)
  show "str_at (s_scheme (sk s)) sc (As ! 0) s" "str_at (s_host (sk s)) ho (As ! 1) s" "str_at (s_path (sk s)) pa (As ! 2) s"
    using at [of 0] at [of 1] at [of 2] by simp_all
qed

text \<open>C34: URL parameters round trip.  After \<open>rws_socket_set_url\<close> the getters return the scheme, host,
  path and port that were passed, as the socket's own copies (\<open>NULL\<close> for an empty string); the old
  strings are released and no other block changes, provided the arguments do not point into the old
  strings.\<close>

theorem url_roundtrip:
  assumes "alive h s = Some ()" and "fresh_ok s" and "url_at s sc ho pa As"
    and "c_string t1 scheme s" "c_string t2 host s" "c_string t3 path s"
    and "(ptr_blks t1 \<union> ptr_blks t2 \<union> ptr_blks t3) \<inter> slot_blks As = {}"
  shows "\<exists>s' As' p q r. rws_socket_set_url h t1 t2 port t3 s = Some s' \<and>
    rws_socket_get_scheme h s' = Some p \<and> reads_as p scheme s' \<and>
    rws_socket_get_host h s' = Some q \<and> reads_as q host s' \<and>
    rws_socket_get_path h s' = Some r \<and> reads_as r path s' \<and>
    rws_socket_get_port h s' = Some port \<and> url_at s' scheme host path As' \<and>
    live s' - slot_blks As' = live s - slot_blks As \<and>
    (\<forall>b \<in> live s - slot_blks As. blocks s' b = blocks s b)"
proof -
  have h: "h \<noteq> NULL" using assms(1) by (auto simp: alive_Ptr)
  obtain s' As' p q r where s': "rws_socket_set_url h t1 t2 port t3 s = Some s'"
      "url_at s' scheme host path As'" "fresh_ok s'" "alive h s' = Some ()"
      "sk s' = (sk s)\<lparr>s_scheme := p, s_host := q, s_path := r, s_port := port\<rparr>"
      "live s' - slot_blks As' = live s - slot_blks As" "ev s' = ev s" "trace s' = trace s"
      "\<And>b. b \<in> live s \<Longrightarrow> b \<notin> slot_blks As \<Longrightarrow> blocks s' b = blocks s b"
    by (rule set_url_run [OF assms(1-6)]) (use assms(7) in blast)+
  show ?thesis
    using h s' url_at_strings [OF s'(2), THEN str_at_reads]
    by (intro exI [of _ s'] exI [of _ As'])
      (simp add: rws_socket_get_scheme_def rws_socket_get_host_def rws_socket_get_path_def rws_socket_get_port_def)
qed

theorem url_roundtrip_witness:
  "\<exists>s' p. rws_socket_set_url (Ptr 0 0) (lit ''ws'') (lit ''a.b'') 80 (lit ''/'') (sys_of [OSocket] zero_socket quiet_env) = Some s' \<and>
     rws_socket_get_host (Ptr 0 0) s' = Some p \<and> c_string p (cstr ''a.b'') s' \<and> rws_socket_get_port (Ptr 0 0) s' = Some 80"
proof -
  let ?s = "sys_of [OSocket] zero_socket quiet_env"
  have al: "alive (Ptr 0 0) ?s = Some ()" by (simp add: alive_Ptr)
  have none: "url_at ?s [] [] [] [[], [], []]"
    by (simp add: url_at_def slots_at_def str_at_def zero_socket_def less_Suc_eq numeral_3_eq_3)
  have str: "c_string (lit t) (cstr t) ?s" if "t \<in> {''ws'', ''a.b'', ''/''}" for t
    using that by (intro c_string_lit) auto
  have "fresh_ok ?s" by simp
  from url_roundtrip [OF al this none str str str, of "''ws''" "''a.b''" "''/''" 80] show ?thesis
    by (fastforce simp: lit_def cstr_def reads_as_def)
qed

text \<open>Passing the socket's own string back to its setter is a use after free:
  \<open>rws_socket_set_scheme(s, rws_socket_get_scheme(s))\<close> releases the string before it is copied, and
  likewise for the host and the path.\<close>

lemma set_own_string_undefined:
  assumes "url_at s sc ho pa As" and "h \<noteq> NULL"
  shows "(sc \<noteq> [] \<longrightarrow> do { p \<leftarrow> rws_socket_get_scheme h s; rws_socket_set_scheme h p s } = None) \<and>
    (ho \<noteq> [] \<longrightarrow> do { p \<leftarrow> rws_socket_get_host h s; rws_socket_set_host h p s } = None) \<and>
    (pa \<noteq> [] \<longrightarrow> do { p \<leftarrow> rws_socket_get_path h s; rws_socket_set_path h p s } = None)"
proof -
  have gone: "do { m \<leftarrow> rws_string_delete p s; (q, m) \<leftarrow> rws_string_copy p m; f q m } = None"
    if "str_at p bs A s" "bs \<noteq> []" for p bs A and f :: "ptr \<Rightarrow> sys \<Rightarrow> sys option"
    using that str_at_delete [OF that(1)]
    by (auto simp: str_at_def rws_string_copy_def strlen_def cells_from_def)
  show ?thesis
    using assms(2) url_at_strings [OF assms(1), THEN gone]
    by (cases "alive h s") (simp_all add: rws_socket_get_scheme_def rws_socket_set_scheme_def rws_socket_get_host_def
        rws_socket_set_host_def rws_socket_get_path_def rws_socket_set_path_def)
qed

section \<open>Connecting\<close>

text \<open>The parameters in the order of importance of their messages.\<close>

definition missing :: "rws_socket \<Rightarrow> string list" where
  "missing k = map snd (filter fst
     [(s_on_disconnected k = None, ''No on_disconnected callback provided''),
      (s_path k = NULL, ''No URL path provided''), (s_host k = NULL, ''No URL host provided''),
      (s_scheme k = NULL, ''No URL scheme provided''), (s_port k \<le> 0, ''No URL port provided'')])"

lemma missed_parameter_hd: "missed_parameter k = (if missing k = [] then None else Some (hd (missing k)))"
  by (simp add: missed_parameter_def missing_def Let_def)

lemma missing_text: "t \<in> set (missing k) \<Longrightarrow> t \<noteq> [] \<and> list_all (\<lambda>c. of_nat (of_char c) \<noteq> (0 :: u8)) t"
  by (auto simp: missing_def split: if_splits)

lemma set_error_described:
  assumes "fresh_ok s" and "c_string descr bs s" and "bs \<noteq> []"
  shows "\<exists>s' d. set_error code descr s = Some s' \<and> rws_error_get_code (s_error (sk s')) s' = Some code \<and>
    rws_error_get_description (s_error (sk s')) s' = Some d \<and> c_string d bs s' \<and>
    sk s' = (sk s)\<lparr>s_error := Ptr (next_blk s) 0\<rparr> \<and> ev s' = ev s \<and> trace s' = trace s \<and> fresh_ok s'"
proof -
  let ?n = "next_blk s"
  have nz: "0 \<notin> set bs" using assms(2) by (simp add: c_string_def)
  let ?s' = "set_heap ((blocks s)(?n \<mapsto> OError (zero_error\<lparr>e_code := code, e_description := Ptr (Suc ?n) 0\<rparr>),
         Suc ?n \<mapsto> OBytes (map Some (bs @ [0])))) (Suc (Suc ?n)) (s\<lparr>sk := (sk s)\<lparr>s_error := Ptr ?n 0\<rparr>\<rparr>)"
  have "c_string (Ptr (Suc ?n) 0) bs ?s'" using nz by (intro c_string_block) simp_all
  moreover have "fresh_ok ?s'" using assms(1) by (auto simp: fresh_ok_def less_Suc_eq)
  ultimately show ?thesis using rws_error_new_run [OF assms(1,2), of code] assms(3)
    by (intro exI [of _ ?s'] exI [of _ "Ptr (Suc ?n) 0"])
      (simp add: set_error_def rws_error_get_code_def rws_error_get_description_def get_err_def obj_at_def zero_error_def)
qed

text \<open>C33: \<open>rws_socket_connect\<close> starts the work thread exactly when nothing is missing.  Otherwise it
  returns false, starts nothing and leaves an error with code 1 whose description names the first
  missing item of this list: disconnect callback, path, host, scheme, positive port.  The error of an
  earlier call is always released.\<close>

theorem connect_checks_parameters:
  assumes "alive h s = Some ()" and "fresh_ok s" and "err_own s D"
  shows "\<exists>s'. rws_socket_connect h s = Some (missing (sk s) = [], s') \<and>
    (if missing (sk s) = [] then
       s_command (sk s') = COMMAND_CONNECT_TO_HOST \<and> s_work_thread (sk s') \<noteq> NULL \<and> s_error (sk s') = NULL
     else s_work_thread (sk s') = s_work_thread (sk s) \<and> s_command (sk s') = s_command (sk s) \<and>
       rws_error_get_code (s_error (sk s')) s' = Some 1 \<and>
       (\<exists>d. rws_error_get_description (s_error (sk s')) s' = Some d \<and> c_string d (cstr (hd (missing (sk s)))) s'))"
proof -
  have h: "h \<noteq> NULL" using assms(1) by (auto simp: alive_Ptr)
  let ?B = "\<lambda>b. if b \<in> set D then None else blocks s b"
  define s1 where "s1 = set_heap ?B (next_blk s) (s\<lparr>sk := (sk s)\<lparr>s_error := NULL\<rparr>\<rparr>)"
  have clean: "clean_error s = Some s1" using clean_error_run [OF assms(3)] by (simp add: s1_def)
  let ?s2 = "s1\<lparr>sk := (sk s1)\<lparr>s_received_len := 0\<rparr>\<rparr>"
  have fresh: "fresh_ok ?s2" using assms(2) by (simp add: s1_def fresh_ok_def)
  have same: "missed_parameter (sk s1) = missed_parameter (sk s)" by (simp add: s1_def missed_parameter_def)
  show ?thesis
  proof (cases "missing (sk s) = []")
    case True
    then show ?thesis using h assms(1) clean same
      by (simp add: rws_socket_connect_def missed_parameter_hd rws_socket_create_start_work_thread_def
          rws_malloc_zero_def run_simps) (simp add: s1_def run_simps)
  next
    case False
    let ?t = "hd (missing (sk s))"
    have t: "?t \<noteq> []" "c_string (lit ?t) (cstr ?t) ?s2"
      using missing_text [OF hd_in_set [OF False]] c_string_lit by blast+
    then have "cstr ?t \<noteq> []" by (simp add: cstr_def)
    from set_error_described [OF fresh t(2) this, of rws_error_code_missed_parameter]
    obtain s' d where "set_error rws_error_code_missed_parameter (lit ?t) ?s2 = Some s'"
        "rws_error_get_code (s_error (sk s')) s' = Some 1" "rws_error_get_description (s_error (sk s')) s' = Some d"
        "c_string d (cstr ?t) s'" "sk s' = (sk ?s2)\<lparr>s_error := Ptr (next_blk ?s2) 0\<rparr>" by auto
    then show ?thesis using h assms(1) clean same False
      by (simp add: rws_socket_connect_def missed_parameter_hd) (simp add: s1_def)
  qed
qed

theorem connect_checks_parameters_witness:
  "\<exists>s' d. rws_socket_connect (Ptr 0 0) (sys_of [OSocket] (zero_socket\<lparr>s_port := 80, s_on_disconnected := Some 1\<rparr>) quiet_env) = Some (False, s') \<and>
     rws_error_get_description (s_error (sk s')) s' = Some d \<and> c_string d (cstr ''No URL path provided'') s'"
proof -
  let ?s = "sys_of [OSocket] (zero_socket\<lparr>s_port := 80, s_on_disconnected := Some 1\<rparr>) quiet_env"
  have "alive (Ptr 0 0) ?s = Some ()" "err_own ?s []" by (simp_all add: alive_Ptr zero_socket_def)
  from connect_checks_parameters [OF this(1) _ this(2)] show ?thesis
    by (auto simp: missing_def zero_socket_def)
qed

end
