(* ===== verification/Rws_Release.thy ===== *)
theory Rws_Release imports Rws_Public begin

text \<open>
  The end of a socket: the disconnect message, what the work thread reports at the end, and the
  release of everything the socket object owns.
\<close>

section \<open>Releasing the socket object\<close>

text \<open>\<open>p\<close> is \<open>NULL\<close> or a byte block of its own.\<close>

definition own_bytes :: "ptr \<Rightarrow> nat list \<Rightarrow> 'a mem_scheme \<Rightarrow> bool" where
  "own_bytes p A m \<longleftrightarrow> p = NULL \<and> A = [] \<or> (\<exists>b cs. p = Ptr b 0 \<and> A = [b] \<and> blocks m b = Some (OBytes cs))"

definition drop_blks :: "nat set \<Rightarrow> 'a mem_scheme \<Rightarrow> 'a mem_scheme" where
  "drop_blks A m = set_heap (\<lambda>b. if b \<in> A then None else blocks m b) (next_blk m) m"

lemma drop_blks_simps [simp]:
  "blocks (drop_blks A m) b = (if b \<in> A then None else blocks m b)" "next_blk (drop_blks A m) = next_blk m"
  "drop_blks {} m = m" "drop_blks A (drop_blks B m) = drop_blks (A \<union> B) m"
  by (auto simp: drop_blks_def fun_eq_iff intro!: arg_cong [where f = "\<lambda>B. set_heap B _ _"])

lemma drop_blks_sys [simp]:
  "sk (drop_blks A s) = sk s" "ev (drop_blks A s) = ev s" "trace (drop_blks A s) = trace s"
  "drop_blks A (s\<lparr>sk := k\<rparr>) = (drop_blks A s)\<lparr>sk := k\<rparr>"
  by (simp_all add: drop_blks_def cong del: if_weak_cong)

lemma own_bytes_free: "own_bytes p A m \<Longrightarrow> rws_free p m = Some (drop_blks (set A) m)"
  by (auto simp: own_bytes_def run_simps drop_blks_def fun_upd_def intro!: arg_cong [where f = "\<lambda>B. set_heap B _ _"])

lemma own_bytes_cong: "own_bytes p A m \<Longrightarrow> (\<And>b. b \<in> set A \<Longrightarrow> blocks m' b = blocks m b) \<Longrightarrow> own_bytes p A m'"
  by (auto simp: own_bytes_def)

lemma own_bytes_drop: "own_bytes p A m \<Longrightarrow> set A \<inter> S = {} \<Longrightarrow> own_bytes p A (drop_blks S m)"
  by (erule own_bytes_cong) auto

lemma own_bytes_sk [simp]: "own_bytes p A (s\<lparr>sk := k\<rparr>) = own_bytes p A s"
  by (simp add: own_bytes_def)

lemma str_at_own: "str_at p bs A m \<Longrightarrow> own_bytes p A m"
  using c_string_live [of _ 0 bs m] by (auto simp: str_at_def own_bytes_def)

lemma own_bytes_NULL [simp]: "own_bytes NULL A m \<longleftrightarrow> A = []"
  by (auto simp: own_bytes_def)

text \<open>Releasing one more resource of \<open>s\<close> when the blocks \<open>S\<close> are gone already.\<close>

lemma own_bytes_gone:
  assumes "own_bytes p A s" and "set A \<inter> S = {}"
  shows "rws_free_clean p ((drop_blks S s)\<lparr>sk := k\<rparr>) = Some (NULL, (drop_blks (set A \<union> S) s)\<lparr>sk := k\<rparr>)"
    and "rws_string_delete_clean p ((drop_blks S s)\<lparr>sk := k\<rparr>) = Some (NULL, (drop_blks (set A \<union> S) s)\<lparr>sk := k\<rparr>)"
proof -
  have "rws_free p ((drop_blks S s)\<lparr>sk := k\<rparr>) = Some ((drop_blks (set A \<union> S) s)\<lparr>sk := k\<rparr>)"
    using own_bytes_free [of p A "(drop_blks S s)\<lparr>sk := k\<rparr>"] own_bytes_drop [OF assms] by simp
  then show "rws_free_clean p ((drop_blks S s)\<lparr>sk := k\<rparr>) = Some (NULL, (drop_blks (set A \<union> S) s)\<lparr>sk := k\<rparr>)"
    and "rws_string_delete_clean p ((drop_blks S s)\<lparr>sk := k\<rparr>) = Some (NULL, (drop_blks (set A \<union> S) s)\<lparr>sk := k\<rparr>)"
    by (simp_all add: rws_free_clean_def rws_string_delete_clean_def)
qed

lemma error_gone:
  assumes "err_own s E" and "set E \<inter> S = {}" and "s_error k = s_error (sk s)"
  shows "clean_error ((drop_blks S s)\<lparr>sk := k\<rparr>) = Some ((drop_blks (set E \<union> S) s)\<lparr>sk := k\<lparr>s_error := NULL\<rparr>\<rparr>)"
proof -
  let ?s = "(drop_blks S s)\<lparr>sk := k\<rparr>"
  have "err_own ?s E" by (rule err_own_cong [of _ s]) (use assms in auto)
  then have "clean_error ?s = Some ((drop_blks (set E) ?s)\<lparr>sk := (sk ?s)\<lparr>s_error := NULL\<rparr>\<rparr>)"
    using clean_error_run [of ?s E] by (simp add: drop_blks_def cong del: if_weak_cong)
  then show ?thesis by simp
qed

lemma mutex_gone:
  assumes "blocks s w = Some (OMutex 0)" and "w \<notin> S"
  shows "rws_mutex_delete (Ptr w 0) ((drop_blks S s)\<lparr>sk := k\<rparr>) = Some ((drop_blks (insert w S) s)\<lparr>sk := k\<rparr>)"
proof -
  have "rws_mutex_delete (Ptr w 0) ((drop_blks S s)\<lparr>sk := k\<rparr>) = Some (drop_blks {w} ((drop_blks S s)\<lparr>sk := k\<rparr>))"
    using rws_mutex_delete_run [of "(drop_blks S s)\<lparr>sk := k\<rparr>" w] assms by (simp add: drop_blks_def fun_upd_def cong del: if_weak_cong)
  then show ?thesis by simp
qed

lemma list_delete_NULL [run_simps]: "rws_list_delete NULL m = Some m"
  by (subst rws_list_delete.simps) simp

lemma clean_frames_NULL:
  "s_send_frames (sk s) = NULL \<Longrightarrow> clean_send_frames s = Some s"
  "s_recvd_frames (sk s) = NULL \<Longrightarrow> clean_recvd_frames s = Some s"
  by (cases "sk s"; simp add: clean_send_frames_def clean_recvd_frames_def clean_list_def rws_list_delete_clean_def run_simps)+

text \<open>
  Everything a socket object owns when both queues are empty: its object block \<open>b\<close>, the two mutexes,
  its strings, the buffer and the error.
\<close>

definition owns :: "sys \<Rightarrow> nat \<Rightarrow> nat set \<Rightarrow> bool" where
  "owns s b S \<longleftrightarrow> (\<exists>w x A B C K R E.
     S = {b, w, x} \<union> set A \<union> set B \<union> set C \<union> set K \<union> set R \<union> set E \<and>
     distinct (A @ B @ C @ K @ R @ E) \<and> blocks s b = Some OSocket \<and> w \<noteq> x \<and>
     s_work_mutex (sk s) = Ptr w 0 \<and> blocks s w = Some (OMutex 0) \<and>
     s_send_mutex (sk s) = Ptr x 0 \<and> blocks s x = Some (OMutex 0) \<and>
     own_bytes (s_scheme (sk s)) A s \<and> own_bytes (s_host (sk s)) B s \<and> own_bytes (s_path (sk s)) C s \<and>
     own_bytes (s_sec_ws_accept (sk s)) K s \<and> own_bytes (s_received (sk s)) R s \<and> err_own s E \<and>
     s_send_frames (sk s) = NULL \<and> s_recvd_frames (sk s) = NULL)"

lemma own_bytes_block: "own_bytes p A m \<Longrightarrow> k \<in> set A \<Longrightarrow> \<exists>cs. blocks m k = Some (OBytes cs)"
  by (auto simp: own_bytes_def)

lemma err_own_block:
  assumes "err_own s E" and "k \<in> set E"
  shows "blocks s k \<noteq> Some OSocket \<and> blocks s k \<noteq> Some (OMutex c)"
proof -
  obtain code where "error_at (s_error (sk s)) code E s" using assms by (auto simp: err_own_def)
  with assms(2) show ?thesis
    by (auto simp: error_at_def dest!: get_err_SomeD split: option.splits ptr.splits)
qed

lemma err_own_unique: "err_own s D \<Longrightarrow> err_own s D' \<Longrightarrow> D = D'"
  by (auto simp: err_own_def error_at_def split: option.splits ptr.splits)

lemma owns_error: "owns s b S \<Longrightarrow> err_own s E \<Longrightarrow> set E \<subseteq> S"
  unfolding owns_def using err_own_unique by blast

text \<open>The same socket with another error in new blocks.\<close>

lemma owns_renewed:
  assumes own: "owns s b S" and err: "err_own s E" "err_own s' E'" and new: "\<And>l. l \<in> set E' \<Longrightarrow> blocks s l = None \<or> l \<in> set E"
    and same: "\<And>l. blocks s l \<noteq> None \<Longrightarrow> l \<notin> set E \<Longrightarrow> blocks s' l = blocks s l"
    and fld: "s_work_mutex (sk s') = s_work_mutex (sk s)" "s_send_mutex (sk s') = s_send_mutex (sk s)"
      "s_scheme (sk s') = s_scheme (sk s)" "s_host (sk s') = s_host (sk s)" "s_path (sk s') = s_path (sk s)"
      "s_sec_ws_accept (sk s') = s_sec_ws_accept (sk s)" "s_received (sk s') = s_received (sk s)"
      "s_send_frames (sk s') = s_send_frames (sk s)" "s_recvd_frames (sk s') = s_recvd_frames (sk s)"
  shows "owns s' b (S - set E \<union> set E')"
proof -
  obtain w x A B C K R F where S': "S = {b, w, x} \<union> set A \<union> set B \<union> set C \<union> set K \<union> set R \<union> set F"
      "distinct (A @ B @ C @ K @ R @ F)" and blk: "blocks s b = Some OSocket" "w \<noteq> x"
      "blocks s w = Some (OMutex 0)" "blocks s x = Some (OMutex 0)"
    and k: "s_work_mutex (sk s) = Ptr w 0" "s_send_mutex (sk s) = Ptr x 0" "s_send_frames (sk s) = NULL" "s_recvd_frames (sk s) = NULL"
    and own: "own_bytes (s_scheme (sk s)) A s" "own_bytes (s_host (sk s)) B s" "own_bytes (s_path (sk s)) C s"
      "own_bytes (s_sec_ws_accept (sk s)) K s" "own_bytes (s_received (sk s)) R s"
    and "err_own s F"
    using own unfolding owns_def by blast
  note S = S' [folded err_own_unique [OF err(1) \<open>err_own s F\<close>]]
  have notE: "b \<notin> set E" "w \<notin> set E" "x \<notin> set E" using blk err_own_block [OF err(1)] by blast+
  have live: "blocks s l \<noteq> None \<and> l \<notin> set E" if "own_bytes p Z s" "set Z \<inter> set E = {}" "l \<in> set Z" for p Z l
    using own_bytes_block [OF that(1,3)] that(2,3) by auto
  have keep: "own_bytes p Z s'" if "own_bytes p Z s" "set Z \<inter> set E = {}" for p Z
    by (rule own_bytes_cong [OF that(1)]) (use live [OF that] same in blast)
  have apart: "set Z \<inter> set E' = {}" if "own_bytes p Z s" "set Z \<inter> set E = {}" for p Z
    using live [OF that] new by blast
  have sep: "set A \<inter> set E = {}" "set B \<inter> set E = {}" "set C \<inter> set E = {}" "set K \<inter> set E = {}" "set R \<inter> set E = {}"
    using S(2) by auto
  have "S - set E \<union> set E' = {b, w, x} \<union> set A \<union> set B \<union> set C \<union> set K \<union> set R \<union> set E'"
    using S(1) notE sep by auto
  moreover have "distinct (A @ B @ C @ K @ R @ E')"
    using S(2) err_own_distinct [OF err(2)] own [THEN apart] sep by auto
  moreover have "blocks s' b = Some OSocket" "blocks s' w = Some (OMutex 0)" "blocks s' x = Some (OMutex 0)"
    using same [of b] same [of w] same [of x] blk notE by simp_all
  moreover note keep [OF own(1) sep(1)] keep [OF own(2) sep(2)] keep [OF own(3) sep(3)] keep [OF own(4) sep(4)] keep [OF own(5) sep(5)]
  ultimately show ?thesis
    unfolding owns_def fld k
    by - (rule exI [of _ w], rule exI [of _ x], rule exI [of _ A], rule exI [of _ B], rule exI [of _ C], rule exI [of _ K],
        rule exI [of _ R], rule exI [of _ E'], intro conjI; (assumption | rule refl blk(2) err(2)))
qed

text \<open>The release frees exactly what the socket owns, each block once.\<close>

lemma delete_run:
  assumes "owns s b S"
  shows "\<exists>s'. rws_socket_delete (Ptr b 0) s = Some s' \<and> blocks s' = (\<lambda>k. if k \<in> S then None else blocks s k) \<and>
    trace s' = trace (rws_socket_close s) \<and> next_blk s' = next_blk s"
proof -
  obtain w x A B C K R E where S: "S = {b, w, x} \<union> set A \<union> set B \<union> set C \<union> set K \<union> set R \<union> set E"
      "distinct (A @ B @ C @ K @ R @ E)" and blk: "blocks s b = Some OSocket" "w \<noteq> x"
      "blocks s w = Some (OMutex 0)" "blocks s x = Some (OMutex 0)"
    and k: "s_work_mutex (sk s) = Ptr w 0" "s_send_mutex (sk s) = Ptr x 0" "s_send_frames (sk s) = NULL" "s_recvd_frames (sk s) = NULL"
    and own: "own_bytes (s_scheme (sk s)) A s" "own_bytes (s_host (sk s)) B s" "own_bytes (s_path (sk s)) C s"
      "own_bytes (s_sec_ws_accept (sk s)) K s" "own_bytes (s_received (sk s)) R s" "err_own s E"
    using assms unfolding owns_def by blast
  have apart: "k \<notin> set A \<union> set B \<union> set C \<union> set K \<union> set R \<union> set E" if "k \<in> {b, w, x}" for k
    using that blk own_bytes_block [OF own(1), of k] own_bytes_block [OF own(2), of k] own_bytes_block [OF own(3), of k]
      own_bytes_block [OF own(4), of k] own_bytes_block [OF own(5), of k] err_own_block [OF own(6), of k] by auto
  have ne: "b \<noteq> w" "b \<noteq> x" using blk by auto
  define s1 where "s1 = rws_socket_close s"
  have s1: "blocks s1 = blocks s" "sk s1 = closed_sk (sk s)" "err_own s1 E"
    using own(6) err_own_cong [of s1 s E] by (simp_all add: s1_def rws_socket_close_run closed_sk_def)
  have o1: "own_bytes p A s1 = own_bytes p A s" for p A by (simp add: own_bytes_def s1)
  have own1: "own_bytes (s_scheme (sk s)) A s1" "own_bytes (s_host (sk s)) B s1" "own_bytes (s_path (sk s)) C s1"
      "own_bytes (s_sec_ws_accept (sk s)) K s1" "own_bytes (s_received (sk s)) R s1"
    using own by (simp_all add: o1)
  have fld: "s_scheme (sk s1) = s_scheme (sk s)" "s_host (sk s1) = s_host (sk s)" "s_path (sk s1) = s_path (sk s)"
      "s_sec_ws_accept (sk s1) = s_sec_ws_accept (sk s)" "s_received (sk s1) = s_received (sk s)"
      "s_work_mutex (sk s1) = Ptr w 0" "s_send_mutex (sk s1) = Ptr x 0"
      "s_send_frames (sk s1) = NULL" "s_recvd_frames (sk s1) = NULL" "s_error (sk s1) = s_error (sk s)"
    using k by (simp_all add: s1(2) closed_sk_def)
  have blk1: "blocks s1 w = Some (OMutex 0)" "blocks s1 x = Some (OMutex 0)" using blk by (simp_all add: s1)
  have sets: "set A \<inter> set B = {}" "set A \<inter> set C = {}" "set A \<inter> set K = {}" "set A \<inter> set R = {}" "set A \<inter> set E = {}"
      "set B \<inter> set C = {}" "set B \<inter> set K = {}" "set B \<inter> set R = {}" "set B \<inter> set E = {}"
      "set C \<inter> set K = {}" "set C \<inter> set R = {}" "set C \<inter> set E = {}"
      "set K \<inter> set R = {}" "set K \<inter> set E = {}" "set R \<inter> set E = {}"
    using S(2) by auto
  have null: "rws_string_delete_clean NULL m = Some (NULL, m)" "rws_free_clean NULL m = Some (NULL, m)" for m :: sys
    by (simp_all add: rws_string_delete_clean_def rws_free_clean_def run_simps)
  have start: "rws_string_delete_clean (s_sec_ws_accept (sk s)) s1 = Some (NULL, drop_blks (set K) s1)"
    using own_bytes_gone(2) [OF own1(4), of "{}" "sk s1"] by simp
  let ?T = "set E \<union> (set C \<union> (set B \<union> (set A \<union> (set R \<union> set K))))"
  have T: "w \<notin> ?T" "x \<notin> insert w ?T" "b \<notin> insert x (insert w ?T)" using apart ne blk(2) by auto
  obtain k' where "rws_socket_delete (Ptr b 0) s = rws_free (Ptr b 0) ((drop_blks (insert x (insert w ?T)) s1)\<lparr>sk := k'\<rparr>)"
    unfolding rws_socket_delete_def s1_def [symmetric] Let_def
    using start fld sets mutex_gone [OF blk1(1) T(1)] mutex_gone [OF blk1(2) T(2)]
    by (simp add: own_bytes_gone [OF own1(1)] own_bytes_gone [OF own1(2)] own_bytes_gone [OF own1(3)]
        own_bytes_gone [OF own1(5)] clean_frames_NULL error_gone [OF s1(3)] null Int_Un_distrib Int_commute)
  moreover have "blocks ((drop_blks (insert x (insert w ?T)) s1)\<lparr>sk := k'\<rparr>) b = Some OSocket"
    using T(3) blk(1) by (simp add: s1(1))
  moreover have "next_blk s1 = next_blk s" by (simp add: s1_def)
  moreover have "(\<lambda>k. if k \<in> S then None else blocks s k) =
      (blocks ((drop_blks (insert x (insert w ?T)) s1)\<lparr>sk := k'\<rparr>))(b := None)"
    by (auto simp: S(1) s1(1) fun_eq_iff)
  ultimately show ?thesis unfolding s1_def [symmetric] by (simp add: run_simps)
qed

section \<open>The disconnect message\<close>

text \<open>
  The message is put together in two new blocks, sent at once and deleted; what is left is the error
  of the send, if it failed.
\<close>

lemma send_disconnect_run:
  assumes fresh: "fresh_ok s" and err: "err_own s D"
  obtains s' D' where "rws_socket_send_disconnect s = Some s'" and "fresh_ok s'" and "err_own s' D'"
    and "\<And>b. b \<in> set D' \<Longrightarrow> next_blk s \<le> b" and "next_blk s \<le> next_blk s'"
    and "\<And>b. b \<notin> set D' \<Longrightarrow> blocks s' b = (if b \<in> set D then None else blocks s b)"
    and "trace s' = trace s @ (if 0 < fst (send_result s)
        then [Sent (take (nat (fst (send_result s))) (encode_frame 8 (Some (made_key s)) (id_text s)))] else []) @
      (if send_fails s \<and> s_socket (sk s) \<noteq> RWS_INVALID_SOCKET then [Closed (s_socket (sk s))] else [])"
    and "\<not> send_fails s \<Longrightarrow> D' = [] \<and> sk s' = (sk (bump_id s))\<lparr>s_error := NULL, s_command := COMMAND_END\<rparr>"
    and "send_fails s \<Longrightarrow> \<exists>e. error_at e rws_error_code_read_write_socket D' s' \<and>
      sk s' = (closed_sk ((sk (bump_id s))\<lparr>s_error := e\<rparr>))\<lparr>s_command := COMMAND_END\<rparr>"
proof -
  let ?n = "next_blk s" and ?t = "id_text s" and ?op = "rws_opcode_connection_close"
  define w where "w = with_frame ?op ?t (bump_id s)"
  let ?f = "ready_frame ?op ?t (bump_id s)" and ?u = "encode_frame 8 (Some (made_key s)) ?t"
  have len: "length ?t \<le> 10" by (rule sprint_id_run(2))
  have fill: "rws_frame_fill_with_send_data (Ptr ?n 0) (Lit ?t 0) (length ?t)
      (set_heap ((blocks s)(?n \<mapsto> OFrame (made_frame ?op (bump_id s)))) (Suc ?n) (skip_rands (bump_id s))) = Some w"
    using make_frame_run [of "bump_id s" ?op "Lit ?t 0" ?t] fresh len by (simp add: w_def)
  have wf: "f_data ?f = Ptr (Suc ?n) 0" "f_data_size ?f = length ?u" "ready_bytes ?op ?t (bump_id s) = ?u"
    using len by (simp_all add: ready_frame_def ready_bytes_def sent_frame_def Let_def encode_frame_def)
  have u: "length ?u < 2 ^ 31" using len by (simp add: encode_frame_def header_bytes_def)
  have wb: "blocks w = (blocks s)(?n \<mapsto> OFrame ?f, Suc ?n \<mapsto> OBytes (map Some ?u))" "next_blk w = Suc (Suc ?n)"
      "fresh_ok w" "sk w = sk (bump_id s)" "ev w = ev s" "trace w = trace s"
    using fresh wf(3) by (auto simp: w_def with_frame_def fresh_ok_def less_Suc_eq)
  have old: "b < ?n" if "b \<in> set D" for b using err_own_live [OF err that] fresh by (auto simp: fresh_ok_def)
  have "err_own w D"
    by (rule err_own_cong [OF _ _ err]) (use old in \<open>fastforce simp: wb\<close>)+
  have ld: "load_bytes (Ptr (Suc ?n) 0) (send_len (length ?u)) w = Some ?u"
    using u by (simp add: run_simps wb send_len_def)
  have sr: "send_result w = send_result s" "send_fails w = send_fails s"
    using send_result_cong [of w s] by (simp_all add: wb)
  obtain v D' where v: "rws_socket_send (Ptr (Suc ?n) 0) (length ?u) w = Some (\<not> send_fails w, v)"
      "fresh_ok v" "err_own v D'" "next_blk w \<le> next_blk v" "\<And>b. b \<in> set D' \<Longrightarrow> next_blk w \<le> b"
      "\<And>b. b \<notin> set D' \<Longrightarrow> blocks v b = (if b \<in> set D then None else blocks w b)"
      "trace v = trace w @ (if 0 < fst (send_result w) then [Sent (take (nat (fst (send_result w))) ?u)] else []) @
        (if send_fails w \<and> s_socket (sk w) \<noteq> RWS_INVALID_SOCKET then [Closed (s_socket (sk w))] else [])"
      "\<not> send_fails w \<Longrightarrow> D' = [] \<and> sk v = (sk w)\<lparr>s_error := NULL\<rparr>"
      "send_fails w \<Longrightarrow> error_at (s_error (sk v)) rws_error_code_read_write_socket D' v \<and>
        sk v = closed_sk ((sk w)\<lparr>s_error := s_error (sk v)\<rparr>)"
    by (rule rws_socket_send_run [OF wb(3) \<open>err_own w D\<close> ld]) (use old in \<open>force\<close>, blast)
  have nD: "?n \<notin> set D" "Suc ?n \<notin> set D" "?n \<notin> set D'" "Suc ?n \<notin> set D'" using old v(5) wb(2) by fastforce+
  then have at: "blocks v ?n = Some (OFrame ?f)" "blocks v (Suc ?n) = Some (OBytes (map Some ?u))"
    using v(6) by (simp_all add: wb)
  then have fr: "frame_at (Ptr ?n 0) ?f [?n, Suc ?n] (blocks v)" by (simp add: frame_at_def wf)
  define x where "x = set_heap (\<lambda>b. if b \<in> set [?n, Suc ?n] then None else blocks v b) (next_blk v) v"
  define y where "y = x\<lparr>sk := (sk x)\<lparr>s_command := COMMAND_END\<rparr>\<rparr>"
  have del: "rws_frame_delete (Ptr ?n 0) v = Some x" unfolding x_def by (rule rws_frame_delete_run [OF fr])
  have run: "rws_socket_send_disconnect s = Some y"
    using fill v(1) del wf(1,2) wb(1)
    by (simp add: rws_socket_send_disconnect_def next_message_id_run sprint_id_run run_simps made_frame_updates
        rws_frame_create_def rws_malloc_zero_def y_def)
  have yb: "blocks y b = (if b = ?n \<or> b = Suc ?n then None else blocks v b)" "sk y = (sk v)\<lparr>s_command := COMMAND_END\<rparr>"
      "next_blk y = next_blk v" "trace y = trace v" for b
    by (simp_all add: y_def x_def)
  have none: "blocks s ?n = None" "blocks s (Suc ?n) = None" using fresh by (auto simp: fresh_ok_def)
  have keep: "blocks y b = blocks v b" if "b \<in> set D'" for b using that nD yb(1) by auto
  have "err_own y D'"
    using v(3) err_own_cong [of y v D'] keep by (simp add: yb(2))
  moreover have "error_at e c D' y" if "error_at e c D' v" for e c by (rule error_at_cong [OF keep that])
  moreover have "fresh_ok y" using v(2) by (auto simp: fresh_ok_def yb)
  moreover have "blocks y b = (if b \<in> set D then None else blocks s b)" if "b \<notin> set D'" for b
    using v(6) [OF that] none by (auto simp: yb wb)
  moreover have "next_blk s \<le> b" if "b \<in> set D'" for b using v(5) [OF that] wb(2) by simp
  moreover have "\<exists>e. error_at e rws_error_code_read_write_socket D' y \<and>
      sk y = (closed_sk ((sk (bump_id s))\<lparr>s_error := e\<rparr>))\<lparr>s_command := COMMAND_END\<rparr>" if "send_fails s"
    using v(9) that \<open>\<And>e c. error_at e c D' v \<Longrightarrow> error_at e c D' y\<close> unfolding yb(2) sr wb(4) by metis
  ultimately show thesis
    by (intro that [OF run, of D']) (use v(4,7,8) in \<open>auto simp: yb(2-4) wb sr\<close>)
qed

section \<open>Properties\<close>

text \<open>C14: Releasing a socket object whose queues are empty is exact: \<open>rws_socket_delete\<close> frees every
  block the socket owns (the object, both mutexes, the strings, the buffer, the error) exactly once,
  touches no other block, and closes the descriptor if it is open.\<close>

theorem socket_delete_exact:
  assumes "owns s b S"
  shows "\<exists>s'. rws_socket_delete (Ptr b 0) s = Some s' \<and> live s' = live s - S \<and>
    (\<forall>k. k \<notin> S \<longrightarrow> blocks s' k = blocks s k) \<and>
    trace s' = trace s @ (if s_socket (sk s) = RWS_INVALID_SOCKET then [] else [Closed (s_socket (sk s))])"
  using delete_run [OF assms] by (auto simp: live_def rws_socket_close_run)

theorem socket_delete_exact_witness:
  "\<exists>s'. rws_socket_delete (Ptr 0 0) (sys_of [OSocket, OMutex 0, OMutex 0, OBytes [Some 104, Some 0], OSocket]
      (zero_socket\<lparr>s_socket := 3, s_work_mutex := Ptr 1 0, s_send_mutex := Ptr 2 0, s_host := Ptr 3 0\<rparr>) quiet_env) = Some s' \<and>
     live s' = {4} \<and> trace s' = [Closed 3]"
proof -
  let ?s = "sys_of [OSocket, OMutex 0, OMutex 0, OBytes [Some 104, Some 0], OSocket]
      (zero_socket\<lparr>s_socket := 3, s_work_mutex := Ptr 1 0, s_send_mutex := Ptr 2 0, s_host := Ptr 3 0\<rparr>) quiet_env"
  have own: "owns ?s 0 {0, 1, 2, 3}"
    unfolding owns_def
    by (rule exI [of _ 1], rule exI [of _ 2], rule exI [of _ "[]"], rule exI [of _ "[3]"], rule exI [of _ "[]"],
        rule exI [of _ "[]"], rule exI [of _ "[]"], rule exI [of _ "[]"])
      (auto simp: zero_socket_def own_bytes_def)
  have "live ?s = {0, 1, 2, 3, 4}" by (auto simp: live_def split: if_splits)
  then show ?thesis using socket_delete_exact [OF own] by (auto simp: zero_socket_def)
qed

text \<open>The step under the mutex that sends the close frame: the socket is left with the error of the send, or none.\<close>

lemma disconnect_locked:
  assumes own: "owns s b S" and fresh: "fresh_ok s" and cmd: "s_command (sk s) = COMMAND_DISCONNECT"
  obtains s2 S' key where "work_locked n s = Some (Suc n, s2)" and "s_command (sk s2) = COMMAND_END" and "length key = 4"
    and "owns s2 b S'" and "\<And>l. (if l \<in> S' then None else blocks s2 l) = (if l \<in> S then None else blocks s l)"
    and "s_socket (sk s2) = (if send_fails s then RWS_INVALID_SOCKET else s_socket (sk s))"
    and "trace s2 = trace s @ (if 0 < fst (send_result s)
        then [Sent (take (nat (fst (send_result s))) (encode_frame 8 (Some key) (utoa (unat (next_id s)))))] else []) @
      (if send_fails s \<and> s_socket (sk s) \<noteq> RWS_INVALID_SOCKET then [Closed (s_socket (sk s))] else [])"
proof -
  obtain w E where w: "s_work_mutex (sk s) = Ptr w 0" "blocks s w = Some (OMutex 0)" and err: "err_own s E"
    using own unfolding owns_def by blast
  have mx: "mutex_at s (Ptr w 0) 0" using w by (simp add: mutex_at_def)
  let ?s0 = "with_count (Ptr w 0) (Suc 0) s"
  have b0: "blocks ?s0 = (blocks s)(w \<mapsto> OMutex (Suc 0))" by (simp add: with_count_def set_obj_def)
  have notw: "w \<notin> set E" using w(2) err_own_block [OF err] by blast
  have fresh0: "fresh_ok ?s0" using fresh fresh_ok_count [OF mx] by simp
  have err0: "err_own ?s0 E" by (rule err_own_cong [OF _ _ err]) (use notw in \<open>auto simp: b0\<close>)
  have sr: "send_result ?s0 = send_result s" "send_fails ?s0 = send_fails s" using send_result_cong [of ?s0 s] by simp_all
  obtain s1 E' where s1: "rws_socket_send_disconnect ?s0 = Some s1" "fresh_ok s1" "err_own s1 E'"
      "\<And>k. k \<in> set E' \<Longrightarrow> next_blk ?s0 \<le> k" "next_blk ?s0 \<le> next_blk s1"
      "\<And>k. k \<notin> set E' \<Longrightarrow> blocks s1 k = (if k \<in> set E then None else blocks ?s0 k)"
      "trace s1 = trace ?s0 @ (if 0 < fst (send_result ?s0)
        then [Sent (take (nat (fst (send_result ?s0))) (encode_frame 8 (Some (made_key ?s0)) (id_text ?s0)))] else []) @
      (if send_fails ?s0 \<and> s_socket (sk ?s0) \<noteq> RWS_INVALID_SOCKET then [Closed (s_socket (sk ?s0))] else [])"
      "\<not> send_fails ?s0 \<Longrightarrow> E' = [] \<and> sk s1 = (sk (bump_id ?s0))\<lparr>s_error := NULL, s_command := COMMAND_END\<rparr>"
      "send_fails ?s0 \<Longrightarrow> \<exists>e. error_at e rws_error_code_read_write_socket E' s1 \<and>
        sk s1 = (closed_sk ((sk (bump_id ?s0))\<lparr>s_error := e\<rparr>))\<lparr>s_command := COMMAND_END\<rparr>"
    by (rule send_disconnect_run [OF fresh0 err0]) (rule that; blast)
  obtain e where k1: "sk s1 = (if send_fails s then closed_sk ((sk (bump_id ?s0))\<lparr>s_error := e\<rparr>)
      else (sk (bump_id ?s0))\<lparr>s_error := e\<rparr>)\<lparr>s_command := COMMAND_END\<rparr>"
  proof (cases "send_fails s")
    case True
    then show thesis using s1(9) sr(2) that by auto
  next
    case False
    then show thesis using conjunct2 [OF s1(8)] sr(2) that [of NULL] by simp
  qed
  have new: "l \<notin> set E'" if "blocks s l \<noteq> None" for l
    using that s1(4) [of l] fresh by (auto simp: fresh_ok_def)
  have mx1: "mutex_at s1 (Ptr w 0) (Suc 0)" using s1(6) [of w] new [of w] w notw by (simp add: mutex_at_def b0)
  let ?s2 = "with_count (Ptr w 0) 0 s1"
  have b2: "blocks ?s2 = (blocks s1)(w \<mapsto> OMutex 0)" by (simp add: with_count_def set_obj_def)
  have it: "work_locked n s = Some (Suc n, ?s2)"
    using lock_run [OF mx] unlock_run [OF mx1] s1(1) cmd w(1) k1
    by (simp add: work_locked_def work_command_def closed_sk_def)
  have err2: "err_own ?s2 E'" by (rule err_own_cong [OF _ _ s1(3)]) (use new [of w] w(2) in \<open>auto simp: b2\<close>)
  have same: "blocks ?s2 l = blocks s l" if "blocks s l \<noteq> None" "l \<notin> set E" for l
    using s1(6) [OF new [OF that(1)]] that(2) w(2) by (auto simp: b2 b0)
  have fresh': "l \<in> set E' \<Longrightarrow> blocks s l = None \<or> l \<in> set E" for l using new by blast
  have own2: "owns ?s2 b (S - set E \<union> set E')"
    by (rule owns_renewed [OF own err err2 fresh' same]) (use k1 in \<open>simp_all add: closed_sk_def\<close>)
  have gone: "(if l \<in> S - set E \<union> set E' then None else blocks ?s2 l) = (if l \<in> S then None else blocks s l)" for l
  proof (cases "l \<in> set E'")
    case True
    then have "blocks s l = None" using new by blast
    then show ?thesis using True by simp
  next
    case False
    then show ?thesis using s1(6) owns_error [OF own err] notw w(2) by (auto simp: b2 b0)
  qed
  show thesis
    by (rule that [OF it _ _ own2 gone, of "made_key ?s0"]) (use k1 s1(7) sr in \<open>simp_all add: closed_sk_def next_id_def\<close>)
qed


lemma create_run:
  assumes "fresh_ok s"
  obtains s1 where "rws_socket_create s = (Ptr (next_blk s) 0, s1)" and "fresh_ok s1"
    and "blocks s1 = (blocks s)(next_blk s \<mapsto> OSocket, Suc (next_blk s) \<mapsto> OMutex 0, Suc (Suc (next_blk s)) \<mapsto> OMutex 0)"
    and "sk s1 = zero_socket\<lparr>s_port := -1, s_socket := RWS_INVALID_SOCKET, s_command := COMMAND_NONE,
      s_work_mutex := Ptr (Suc (next_blk s)) 0, s_send_mutex := Ptr (Suc (Suc (next_blk s))) 0\<rparr>"
    and "trace s1 = trace s"
proof -
  define s1 where "s1 = snd (rws_socket_create s)"
  have s1: "rws_socket_create s = (Ptr (next_blk s) 0, s1)"
    "blocks s1 = (blocks s)(next_blk s \<mapsto> OSocket, Suc (next_blk s) \<mapsto> OMutex 0, Suc (Suc (next_blk s)) \<mapsto> OMutex 0)"
    "sk s1 = zero_socket\<lparr>s_port := -1, s_socket := RWS_INVALID_SOCKET, s_command := COMMAND_NONE,
      s_work_mutex := Ptr (Suc (next_blk s)) 0, s_send_mutex := Ptr (Suc (Suc (next_blk s))) 0\<rparr>"
    "trace s1 = trace s" "next_blk s1 = Suc (Suc (Suc (next_blk s)))"
    by (simp_all add: s1_def rws_socket_create_def rws_malloc_zero_def rws_mutex_create_recursive_def run_simps)
  have "fresh_ok s1" using assms by (auto simp: fresh_ok_def s1(2,5) split: if_splits)
  then show thesis by (rule that [OF s1(1) _ s1(2-4)])
qed

text \<open>A socket that has just been created, with its two mutexes in the next two blocks.\<close>

lemma release_created:
  assumes blk: "blocks s1 = (blocks s)(b \<mapsto> OSocket, Suc b \<mapsto> OMutex 0, Suc (Suc b) \<mapsto> OMutex 0)"
    and none: "blocks s b = None" "blocks s (Suc b) = None" "blocks s (Suc (Suc b)) = None"
    and sk1: "sk s1 = zero_socket\<lparr>s_port := -1, s_socket := RWS_INVALID_SOCKET, s_command := COMMAND_NONE,
      s_work_mutex := Ptr (Suc b) 0, s_send_mutex := Ptr (Suc (Suc b)) 0\<rparr>"
  obtains s2 where "rws_socket_disconnect_and_release (Ptr b 0) s1 = Some s2" and "blocks s2 = blocks s" and "trace s2 = trace s1"
proof -
  have mx: "mutex_at s1 (Ptr (Suc b) 0) 0" by (simp add: mutex_at_def blk)
  have al: "alive (Ptr b 0) s1 = Some ()" by (simp add: alive_Ptr blk)
  have "owns s1 b {b, Suc b, Suc (Suc b)}"
    unfolding owns_def
    by (rule exI [of _ "Suc b"], rule exI [of _ "Suc (Suc b)"], rule exI [of _ "[]"], rule exI [of _ "[]"],
        rule exI [of _ "[]"], rule exI [of _ "[]"], rule exI [of _ "[]"], rule exI [of _ "[]"])
      (simp add: sk1 blk zero_socket_def)
  from delete_run [OF this] obtain s2 where s2: "rws_socket_delete (Ptr b 0) s1 = Some s2"
      "blocks s2 = (\<lambda>k. if k \<in> {b, Suc b, Suc (Suc b)} then None else blocks s1 k)" "trace s2 = trace s1"
    by (auto simp: rws_socket_close_run sk1)
  have gone: "blocks s2 = blocks s" using none by (auto simp: s2(2) blk fun_eq_iff)
  have f1: "s_send_frames (sk s1) = NULL" "\<not> s_is_connected (sk s1)" "s_work_thread (sk s1) = NULL"
      "s_command (sk s1) = 0" "s_work_mutex (sk s1) = Ptr (Suc b) 0"
    by (simp_all add: sk1 zero_socket_def)
  have "m\<lparr>sk := (sk s1)\<lparr>s_send_frames := NULL\<rparr>\<rparr> = m" if "sk m = sk s1" for m :: sys
    using that f1(1) by (cases m; cases "sk m") auto
  then have id: "(with_count (Ptr (Suc b) 0) (Suc 0) s1)\<lparr>sk := (sk s1)\<lparr>s_send_frames := NULL\<rparr>\<rparr> =
      with_count (Ptr (Suc b) 0) (Suc 0) s1" by simp
  have "rws_socket_disconnect_and_release (Ptr b 0) s1 = Some s2"
    using al lock_run [OF mx] unlock_run [OF mutex_at_count [OF mx]] with_count_twice [OF mx] s2(1)
    by (simp add: rws_socket_disconnect_and_release_def rws_list_delete_clean_def run_simps f1 id)
  then show thesis using gone s2(3) by (rule that)
qed

text \<open>C29: Creation and release leave no trace: a socket from \<open>rws_socket_create\<close> is not connected, has
  no URL, no port (-1) and no error, and releasing it before any connection gives back exactly the
  blocks that were there before creation; using the handle once more is undefined.\<close>

theorem create_release_no_leak:
  assumes "fresh_ok s"
  shows "\<exists>h s1 s2. rws_socket_create s = (h, s1) \<and> h \<noteq> NULL \<and>
    rws_socket_is_connected h s1 = Some (False, s1) \<and> rws_socket_get_port h s1 = Some (-1) \<and>
    rws_socket_get_scheme h s1 = Some NULL \<and> rws_socket_get_host h s1 = Some NULL \<and>
    rws_socket_get_path h s1 = Some NULL \<and> rws_socket_get_error h s1 = Some NULL \<and>
    rws_socket_disconnect_and_release h s1 = Some s2 \<and> blocks s2 = blocks s \<and> trace s2 = trace s \<and>
    rws_socket_disconnect_and_release h s2 = None"
proof -
  let ?b = "next_blk s"
  have none: "blocks s ?b = None" "blocks s (Suc ?b) = None" "blocks s (Suc (Suc ?b)) = None"
    using assms by (auto simp: fresh_ok_def)
  obtain s1 where create: "rws_socket_create s = (Ptr ?b 0, s1)"
    and blk: "blocks s1 = (blocks s)(?b \<mapsto> OSocket, Suc ?b \<mapsto> OMutex 0, Suc (Suc ?b) \<mapsto> OMutex 0)"
    and sk1: "sk s1 = zero_socket\<lparr>s_port := -1, s_socket := RWS_INVALID_SOCKET, s_command := COMMAND_NONE,
      s_work_mutex := Ptr (Suc ?b) 0, s_send_mutex := Ptr (Suc (Suc ?b)) 0\<rparr>"
    and tr: "trace s1 = trace s"
    using create_run [OF assms] by blast
  have mx: "mutex_at s1 (Ptr (Suc (Suc ?b)) 0) 0" by (simp add: mutex_at_def blk)
  have al: "alive (Ptr ?b 0) s1 = Some ()" by (simp add: alive_Ptr blk)
  have conn: "rws_socket_is_connected (Ptr ?b 0) s1 = Some (False, s1)"
    using al lock_run [OF mx] unlock_run [OF mutex_at_count [OF mx]] with_count_twice [OF mx]
    by (simp add: rws_socket_is_connected_def sk1 zero_socket_def)
  obtain s2 where s2: "rws_socket_disconnect_and_release (Ptr ?b 0) s1 = Some s2" "blocks s2 = blocks s" "trace s2 = trace s1"
    by (rule release_created [OF blk none sk1])
  then show ?thesis using create al conn tr none
    by (simp add: rws_socket_get_port_def rws_socket_get_scheme_def rws_socket_get_host_def rws_socket_get_path_def
        rws_socket_get_error_def sk1 zero_socket_def rws_socket_disconnect_and_release_def alive_def obj_at_def)
qed

theorem create_release_no_leak_witness:
  "\<exists>h s1 s2. rws_socket_create (sys_of [OMutex 3] zero_socket quiet_env) = (h, s1) \<and>
     rws_socket_disconnect_and_release h s1 = Some s2 \<and> live s2 = {0}"
proof -
  have "live s2 = {0}" if "blocks s2 = blocks (sys_of [OMutex 3] zero_socket quiet_env)" for s2 :: sys
    by (auto simp: live_def that split: if_splits)
  then show ?thesis using create_release_no_leak [of "sys_of [OMutex 3] zero_socket quiet_env"] by auto
qed

lemma session_alive:
  assumes ses: "session s E bs D ns Fs xs ms Gs ys" and ev: "evolves (foot E D ns Fs ms Gs) s F s'" and al: "alive h s = Some ()"
  shows "alive h s' = Some ()"
proof -
  obtain b where b: "h = Ptr b 0" "blocks s b = Some OSocket" using al by (auto simp: alive_Ptr)
  then have "b \<notin> foot E D ns Fs ms Gs" using session_kind(2) [OF ses, of b] by auto
  moreover have "b < next_blk s" using b(2) ses by (auto simp: session_def fresh_ok_def)
  ultimately show ?thesis using ev b by (auto simp: evolves_def alive_Ptr)
qed

text \<open>The release up to its loop over the frames to send.\<close>

lemma release_in_two:
  assumes "h \<noteq> NULL"
  shows "\<exists>rest. \<forall>u. rws_socket_disconnect_and_release h u = do {
     alive h u;
     v \<leftarrow> rws_mutex_lock (s_work_mutex (sk u)) u;
     v \<leftarrow> rws_socket_delete_all_frames_in_list (s_send_frames (sk v)) v;
     rest v }"
  unfolding rws_socket_disconnect_and_release_def if_not_P [OF assms] by (rule exI, rule allI, rule refl)

text \<open>C36: A release with text still queued never returns.  After \<open>rws_socket_send_text\<close> has accepted a text, a call of
  \<open>rws_socket_disconnect_and_release\<close> before the work thread has sent it takes the work mutex, enters the loop that is to delete the
  frames of the send queue, and stays in it: the call is, by the code, the lock followed by that loop (and a \<open>rest\<close> that comes
  after it); the lock succeeds and leaves the mutex held; and for every \<open>k\<close> the first \<open>k\<close> rounds of the loop run without error
  from there, so the call does not fail, it never ends.\<close>

theorem release_hangs_with_queued_text:
  assumes "alive h s = Some ()" and "session s E bs D ns Fs xs ms Gs ys"
    and "mutex_at s (s_send_mutex (sk s)) c" and "mutex_at s (s_work_mutex (sk s)) d"
    and "c_string t msg s" and "msg \<noteq> []" and "length msg < 2 ^ 32"
  shows "\<exists>s' v. rws_socket_send_text h t s = Some (True, s') \<and>
    (\<exists>rest. \<forall>u. rws_socket_disconnect_and_release h u = do {
       alive h u;
       w \<leftarrow> rws_mutex_lock (s_work_mutex (sk u)) u;
       w \<leftarrow> rws_socket_delete_all_frames_in_list (s_send_frames (sk w)) w;
       rest w }) \<and>
    alive h s' = Some () \<and> s_work_mutex (sk s') = s_work_mutex (sk s) \<and>
    rws_mutex_lock (s_work_mutex (sk s')) s' = Some v \<and> mutex_at v (s_work_mutex (sk s)) (Suc d) \<and>
    s_send_frames (sk v) \<noteq> NULL \<and> (\<forall>k. delete_rounds k (s_send_frames (sk v)) v \<noteq> None) \<and>
    rws_socket_disconnect_and_release h s' = None"
proof -
  have h: "h \<noteq> NULL" using assms(1) by (auto simp: alive_Ptr)
  obtain s' b F key p where s': "rws_socket_send_text h t s = Some (True, s')"
      "session s' E bs D ns Fs xs (ms @ [b]) (Gs @ [F]) (ys @ [(rws_opcode_text_frame, encode_frame 1 (Some key) msg)])"
      "sk s' = (sk s)\<lparr>s_send_frames := p\<rparr>" "evolves (foot E D ns Fs ms Gs) s (foot E D ns Fs (ms @ [b]) (Gs @ [F])) s'"
    by (rule send_text_call [OF h assms(1-3,5-7)])
  have mx: "mutex_at s' (s_work_mutex (sk s')) d" using mutex_at_keeps [OF evolves_keeps [OF assms(2) s'(4)] assms(4)] by (simp add: s'(3))
  have al: "alive h s' = Some ()" by (rule session_alive [OF assms(2) s'(4) assms(1)])
  let ?v = "with_count (s_work_mutex (sk s')) (Suc d) s'"
  have "queue_at (blocks ?v) (s_send_frames (sk ?v)) (ms @ [b]) (Gs @ [F])"
    using count_session [OF s'(2) mx] by (simp add: session_def queue_holds_def)
  note stuck = queue_endless [OF this]
  have lock: "rws_mutex_lock (s_work_mutex (sk s')) s' = Some ?v" by (rule lock_run [OF mx])
  have "rws_socket_disconnect_and_release h s' = None"
    using release_in_two [OF h] al lock stuck(3) by fastforce
  moreover have "s_work_mutex (sk s') = s_work_mutex (sk s)" "mutex_at ?v (s_work_mutex (sk s)) (Suc d)"
    using mutex_at_count [OF mx] by (simp_all add: s'(3))
  ultimately show ?thesis using s'(1) release_in_two [OF h] al lock stuck(1,2)
    by (intro exI [of _ s'] exI [of _ ?v] conjI) (assumption | rule allI | simp)+
qed

theorem release_hangs_with_queued_text_witness:
  "\<exists>s' v. rws_socket_send_text (Ptr 0 0) (lit ''Hi'') (sys_of [OSocket, OMutex 0, OMutex 0]
      (zero_socket\<lparr>s_work_mutex := Ptr 1 0, s_send_mutex := Ptr 2 0\<rparr>) quiet_env) = Some (True, s') \<and>
     rws_mutex_lock (Ptr 1 0) s' = Some v \<and> mutex_at v (Ptr 1 0) 1 \<and>
     s_send_frames (sk v) \<noteq> NULL \<and> (\<forall>k. delete_rounds k (s_send_frames (sk v)) v \<noteq> None) \<and>
     rws_socket_disconnect_and_release (Ptr 0 0) s' = None"
proof -
  let ?s = "sys_of [OSocket, OMutex 0, OMutex 0] (zero_socket\<lparr>s_work_mutex := Ptr 1 0, s_send_mutex := Ptr 2 0\<rparr>) quiet_env"
  have pre: "alive (Ptr 0 0) ?s = Some ()" "mutex_at ?s (s_send_mutex (sk ?s)) 0" "mutex_at ?s (s_work_mutex (sk ?s)) 0"
    by (simp_all add: alive_Ptr mutex_at_def)
  have ses: "session ?s [] [] [] [] [] [] [] [] []"
    by (simp add: session_def buffer_at_def zero_socket_def queue_blks_def)
  have str: "c_string (lit ''Hi'') [72, 105] ?s"
    using c_string_lit [of "''Hi''" ?s] by (simp add: cstr_def)
  show ?thesis using release_hangs_with_queued_text [OF pre(1) ses pre(2,3) str]
    by simp (elim exE conjE, rule exI, rule conjI, assumption, rule exI, simp)
qed

lemma with_count_sk [simp]: "with_count p c (s\<lparr>sk := k\<rparr>) = (with_count p c s)\<lparr>sk := k\<rparr>"
  by (cases p) (simp_all add: with_count_def set_obj_def)

lemma mutex_at_sk [simp]: "mutex_at (s\<lparr>sk := k\<rparr>) p c = mutex_at s p c"
  by (simp add: mutex_at_def)

text \<open>
  What a release does when nothing is queued, on every branch: a connected socket is told to
  disconnect, a socket whose thread still runs is told to end, and without a thread it is deleted at
  once.  In the first three cases the work mutex is as before; the remaining one, a socket without a
  thread whose command is \<open>COMMAND_END\<close> already, returns with the work mutex locked once more.
\<close>

lemma release_run:
  assumes "alive h s = Some ()" and "mutex_at s (s_work_mutex (sk s)) c" and "s_send_frames (sk s) = NULL"
  shows "rws_socket_disconnect_and_release h s =
    (if s_is_connected (sk s) then Some (s\<lparr>sk := (sk s)\<lparr>s_command := COMMAND_DISCONNECT\<rparr>\<rparr>)
     else if s_work_thread (sk s) \<noteq> NULL then Some (s\<lparr>sk := (sk s)\<lparr>s_command := COMMAND_END\<rparr>\<rparr>)
     else if s_command (sk s) \<noteq> COMMAND_END then rws_socket_delete h s
     else Some (with_count (s_work_mutex (sk s)) (Suc c) s))"
proof -
  let ?p = "s_work_mutex (sk s)" and ?s1 = "with_count (s_work_mutex (sk s)) (Suc c) s"
  have h: "h \<noteq> NULL" using assms(1) by (auto simp: alive_Ptr)
  have id: "s\<lparr>sk := (sk s)\<lparr>s_send_frames := NULL\<rparr>\<rparr> = s"
    using assms(3) by (cases s; cases "sk s") simp
  have "?s1\<lparr>sk := (sk s)\<lparr>s_send_frames := NULL\<rparr>\<rparr> = ?s1"
    using assms(3) by (cases ?s1; cases "sk s") (auto dest: arg_cong [where f = sk])
  moreover have same: "(sk s)\<lparr>s_command := x, s_send_frames := NULL\<rparr> = (sk s)\<lparr>s_command := x\<rparr>" for x
    using assms(3) by (cases "sk s") simp
  moreover have "rws_mutex_unlock ?p (?s1\<lparr>sk := k\<rparr>) = Some (s\<lparr>sk := k\<rparr>)" for k
    using unlock_run [of "?s1\<lparr>sk := k\<rparr>" ?p c] mutex_at_count [OF assms(2)] with_count_twice [OF assms(2)] by simp
  moreover have "rws_mutex_unlock ?p ?s1 = Some s"
    using unlock_run [of ?s1 ?p c] mutex_at_count [OF assms(2)] with_count_twice [OF assms(2)] by simp
  ultimately show ?thesis
    using h assms lock_run [OF assms(2)]
    by (simp add: rws_socket_disconnect_and_release_def rws_list_delete_clean_def run_simps id)
qed

end
