(* ===== verification/Rws_Steps.thy ===== *)
theory Rws_Steps
  imports Rws_Release
begin

text \<open>
  Every operation of a session, whatever the network does: how the session and the blocks beside it
  evolve when sending or receiving fails, when nothing is taken, and when the connection is made or
  refused.
\<close>

section \<open>A changed error\<close>

text \<open>The operations that only replace the error object, and may close the socket.\<close>

lemma error_changed:
  assumes ses: "session s E bs D ns Fs xs ms Gs ys" and fresh: "fresh_ok s'" and err: "err_own s' E'" and le: "next_blk s \<le> next_blk s'"
    and new: "\<And>b. b \<in> set E' \<Longrightarrow> next_blk s \<le> b"
    and same: "\<And>b. b \<notin> set E' \<Longrightarrow> blocks s' b = (if b \<in> set E then None else blocks s b)"
    and sk: "s_received (sk s') = s_received (sk s)" "s_received_size (sk s') = s_received_size (sk s)"
      "s_recvd_frames (sk s') = s_recvd_frames (sk s)" "s_send_frames (sk s') = s_send_frames (sk s)"
    and len: "s_received_len (sk s') = s_received_len (sk s) \<and> bs' = bs \<or> s_received_len (sk s') = 0 \<and> bs' = []"
  shows "session s' E' bs' D ns Fs xs ms Gs ys"
    and "evolves (foot E D ns Fs ms Gs) s (foot E' D ns Fs ms Gs) s'"
proof -
  let ?Q = "set D \<union> set (queue_blks ns Fs) \<union> set (queue_blks ms Gs)"
  have out: "b \<notin> set E" "b \<notin> set E'" if "b \<in> ?Q" for b
  proof -
    show "b \<notin> set E" using that ses by (auto simp: session_def)
    have "b < next_blk s" using session_live(2) [OF ses, of b] that by auto
    then show "b \<notin> set E'" using new [of b] by auto
  qed
  have keep: "blocks s' b = blocks s b" if "b \<in> ?Q" for b using same [of b] out [OF that] by simp
  have buf: "buffer_at (blocks s) (sk s) bs D" using ses by (simp add: session_def)
  have "buffer_at (blocks s') (sk s) bs D"
    using buf keep by (intro buffer_at_cong [OF _ _ _ _ buf]) auto
  then have "buffer_at (blocks s') (sk s') bs' D"
    using sk len by (auto simp: buffer_at_def split: ptr.splits)
  moreover have "queue_holds (blocks s') (s_recvd_frames (sk s)) ns Fs xs" "queue_holds (blocks s') (s_send_frames (sk s)) ms Gs ys"
    using ses keep by (auto simp: session_def intro!: queue_holds_cong [of _ _ "blocks s'" "blocks s"])
  moreover have "distinct (E' @ D @ queue_blks ns Fs @ queue_blks ms Gs)"
    using ses out err_own_distinct [OF err] by (auto simp: session_def)
  ultimately show "session s' E' bs' D ns Fs xs ms Gs ys" using fresh err sk by (simp add: session_def)
  show "evolves (foot E D ns Fs ms Gs) s (foot E' D ns Fs ms Gs) s'"
  proof (rule evolvesI [OF le])
    fix k assume "k < next_blk s" "k \<notin> foot E D ns Fs ms Gs"
    moreover from this have "k \<notin> set E'" using new [of k] by auto
    ultimately show "k \<notin> foot E' D ns Fs ms Gs \<and> blocks s' k = blocks s k" using same [of k] by simp
  qed
qed

section \<open>Sending the queue\<close>

text \<open>
  What the loop over the send queue leaves, whatever \<open>send\<close> answers: outside the blocks \<open>A\<close> of the
  frames, only the error object has changed, and the socket is as before or closed.
\<close>

definition sent_outcome :: "nat set \<Rightarrow> sys \<Rightarrow> nat list \<Rightarrow> sys \<Rightarrow> nat list \<Rightarrow> bool" where
  "sent_outcome A s E s' E' \<longleftrightarrow> fresh_ok s' \<and> err_own s' E' \<and> next_blk s \<le> next_blk s' \<and>
     (\<forall>a \<in> set E'. a \<in> set E \<or> next_blk s \<le> a) \<and>
     (\<forall>a < next_blk s. a \<notin> A \<longrightarrow> a \<notin> set E \<longrightarrow> blocks s' a = blocks s a) \<and>
     (sk s' = (sk s)\<lparr>s_error := s_error (sk s')\<rparr> \<or> sk s' = closed_sk ((sk s)\<lparr>s_error := s_error (sk s')\<rparr>)) \<and>
     (s_is_connected (sk s') \<longrightarrow> s_error (sk s') \<in> {NULL, s_error (sk s)}) \<and> env_recv (ev s') = env_recv (ev s)"

lemma sent_outcome_refl: "fresh_ok s \<Longrightarrow> err_own s E \<Longrightarrow> sent_outcome A s E s E"
  by (simp add: sent_outcome_def)

lemma closed_sk_idem [simp]: "closed_sk ((closed_sk k)\<lparr>s_error := e\<rparr>) = closed_sk (k\<lparr>s_error := e\<rparr>)"
  "(closed_sk k)\<lparr>s_error := e\<rparr> = closed_sk (k\<lparr>s_error := e\<rparr>)"
  by (simp_all add: closed_sk_def)

lemma sent_outcome_trans:
  assumes one: "sent_outcome A s E t F" and two: "sent_outcome A' t F u G" and sub: "A \<subseteq> B" "A' \<subseteq> B"
  shows "sent_outcome B s E u G"
proof -
  have le: "next_blk s \<le> next_blk t" "next_blk t \<le> next_blk u" using one two by (simp_all add: sent_outcome_def)
  have F: "a \<in> set E \<or> next_blk s \<le> a" if "a \<in> set F" for a using one that by (simp add: sent_outcome_def)
  have G: "a \<in> set E \<or> next_blk s \<le> a" if "a \<in> set G" for a
    using two that F [of a] le(1) by (auto simp: sent_outcome_def)
  have "blocks u a = blocks s a" if a: "a < next_blk s" "a \<notin> B" "a \<notin> set E" for a
  proof -
    have "blocks t a = blocks s a" using one a sub(1) by (auto simp: sent_outcome_def)
    moreover have "a \<notin> set F" using F [of a] a by auto
    moreover have "a < next_blk t" "a \<notin> A'" using a le(1) sub(2) by auto
    ultimately show ?thesis using two unfolding sent_outcome_def by simp
  qed
  moreover have "sk u = (sk s)\<lparr>s_error := s_error (sk u)\<rparr> \<or> sk u = closed_sk ((sk s)\<lparr>s_error := s_error (sk u)\<rparr>)"
  proof -
    obtain e e' where "sk t = (sk s)\<lparr>s_error := e\<rparr> \<or> sk t = closed_sk ((sk s)\<lparr>s_error := e\<rparr>)"
        "sk u = (sk t)\<lparr>s_error := e'\<rparr> \<or> sk u = closed_sk ((sk t)\<lparr>s_error := e'\<rparr>)"
      using one two unfolding sent_outcome_def by blast
    then show ?thesis by (elim disjE) simp_all
  qed
  moreover have "s_error (sk u) \<in> {NULL, s_error (sk s)}" if "s_is_connected (sk u)"
  proof -
    have "s_is_connected (sk t)" using two that unfolding sent_outcome_def by (auto simp: closed_sk_def)
    then have "s_error (sk t) \<in> {NULL, s_error (sk s)}" using one by (simp add: sent_outcome_def)
    moreover have "s_error (sk u) \<in> {NULL, s_error (sk t)}" using two that by (simp add: sent_outcome_def)
    ultimately show ?thesis by auto
  qed
  moreover have "fresh_ok u" "err_own u G" "env_recv (ev u) = env_recv (ev s)" "next_blk s \<le> next_blk u"
    using one two le by (simp_all add: sent_outcome_def)
  ultimately show ?thesis using G unfolding sent_outcome_def by blast
qed

text \<open>One frame: its list entry is emptied, its bytes are offered to the kernel, the frame is deleted.\<close>

lemma send_step:
  assumes fresh: "fresh_ok s" and err: "err_own s E" and x: "blocks s b = Some (ONode x)"
    and at: "frame_at (n_value x) f Df (blocks s)" and car: "carries (blocks s) (f, Df) y" and len: "length (snd y) < 2 ^ 31"
    and apart: "b \<notin> set Df" "set E \<inter> insert b (set Df) = {}" and conn: "s_is_connected (sk s)"
  obtains s2 E2 where "idle_send_loop (Ptr b 0) True s = idle_send_loop (n_next x) (\<not> send_fails s) s2"
    and "sent_outcome (insert b (set Df)) s E s2 E2" and "blocks s2 b = Some (ONode (x\<lparr>n_value := NULL\<rparr>))"
    and "\<And>a. a \<in> set E2 \<Longrightarrow> next_blk s \<le> a" and "s_is_connected (sk s2) \<Longrightarrow> s_error (sk s2) = NULL"
proof -
  from frame_at_Ptr [OF at] obtain c C where c: "n_value x = Ptr c 0" "Df = c # C" "blocks s c = Some (OFrame f)" by auto
  have low: "a < next_blk s" if "blocks s a \<noteq> None" for a using fresh that by (simp add: fresh_ok_def)
  let ?s0 = "set_heap ((blocks s)(b \<mapsto> ONode (x\<lparr>n_value := NULL\<rparr>))) (next_blk s) s"
  have fresh0: "fresh_ok ?s0" using fresh low [of b] x by (auto simp: fresh_ok_def)
  have err0: "err_own ?s0 E" by (rule err_own_cong [OF _ _ err]) (use apart(2) in auto)
  have car0: "carries (blocks ?s0) (f, Df) y" by (rule carries_cong [OF _ car]) (use apart(1) in auto)
  have ld: "load_bytes (f_data f) (send_len (f_data_size f)) ?s0 = Some (snd y)"
    using carries_send_bytes [OF car0 len refl] by simp
  have sep: "ptr_blks (f_data f) \<inter> set E = {}" using car apart(2) by (auto simp: carries_def)
  have same: "send_fails ?s0 = send_fails s" by (rule send_result_cong) simp_all
  obtain s1 E1 where s1: "rws_socket_send (f_data f) (f_data_size f) ?s0 = Some (\<not> send_fails ?s0, s1)" "fresh_ok s1" "err_own s1 E1"
      "next_blk s \<le> next_blk s1" "\<And>a. a \<in> set E1 \<Longrightarrow> next_blk s \<le> a"
      "\<And>a. a \<notin> set E1 \<Longrightarrow> blocks s1 a = (if a \<in> set E then None else blocks ?s0 a)"
      "\<not> send_fails ?s0 \<Longrightarrow> E1 = [] \<and> sk s1 = (sk ?s0)\<lparr>s_error := NULL\<rparr>"
      "send_fails ?s0 \<Longrightarrow> error_at (s_error (sk s1)) rws_error_code_read_write_socket E1 s1 \<and>
        sk s1 = closed_sk ((sk ?s0)\<lparr>s_error := s_error (sk s1)\<rparr>)"
      "env_recv (ev s1) = env_recv (ev ?s0)"
    by (rule rws_socket_send_run [OF fresh0 err0 ld sep]) (rule that; fastforce)
  have k1: "sk s1 = (sk s)\<lparr>s_error := s_error (sk s1)\<rparr> \<or> sk s1 = closed_sk ((sk s)\<lparr>s_error := s_error (sk s1)\<rparr>)"
      "s_is_connected (sk s1) \<Longrightarrow> s_error (sk s1) = NULL"
  proof -
    show "sk s1 = (sk s)\<lparr>s_error := s_error (sk s1)\<rparr> \<or> sk s1 = closed_sk ((sk s)\<lparr>s_error := s_error (sk s1)\<rparr>)"
    proof (cases "send_fails ?s0")
      case True
      then show ?thesis using conjunct2 [OF s1(8)] by simp
    next
      case False
      then have "sk s1 = (sk s)\<lparr>s_error := NULL\<rparr>" using s1(7) by simp
      moreover from this have "s_error (sk s1) = NULL" by simp
      ultimately show ?thesis by simp
    qed
    assume c: "s_is_connected (sk s1)"
    have "\<not> send_fails ?s0"
    proof
      assume "send_fails ?s0"
      from conjunct2 [OF s1(8) [OF this]] have "s_is_connected (sk s1) = False" by (metis closed_sk_fields(5))
      then show False using c by simp
    qed
    then show "s_error (sk s1) = NULL" using s1(7) by simp
  qed
  have new: "a \<notin> set E1" if "a < next_blk s" for a using that s1(5) [of a] by auto
  have keep1: "blocks s1 a = blocks ?s0 a" if "a < next_blk s" "a \<notin> set E" for a using s1(6) [of a] new that by simp
  have Df: "a < next_blk s" "a \<notin> set E" "a \<noteq> b" if "a \<in> set Df" for a
    using frame_at_live [OF at that] low apart that by auto
  have at1: "frame_at (n_value x) f Df (blocks s1)"
  proof (subst frame_at_cong [of Df "blocks s1" "blocks s"])
    show "blocks s1 a = blocks s a" if "a \<in> set Df" for a using keep1 [of a] Df [OF that] by simp
  qed (rule at)
  let ?s2 = "set_heap (\<lambda>a. if a \<in> set Df then None else blocks s1 a) (next_blk s1) s1"
  have b1: "blocks s1 b = Some (ONode (x\<lparr>n_value := NULL\<rparr>))" using keep1 [of b] low [of b] x apart(2) by simp
  have "idle_send_loop (Ptr b 0) True s = idle_send_loop (n_next x) (\<not> send_fails s) ?s2"
    using x c apart(1) conn s1(1) b1 rws_frame_delete_run [OF at1] same
    by (subst idle_send_loop.simps) (simp add: run_simps)
  moreover have "sent_outcome (insert b (set Df)) s E ?s2 E1"
    unfolding sent_outcome_def
  proof (intro conjI)
    show "fresh_ok ?s2" using s1(2) by (simp add: fresh_ok_def)
    show "err_own ?s2 E1" by (rule err_own_cong [OF _ _ s1(3)]) (use Df(1) new in auto)
    show "\<forall>a < next_blk s. a \<notin> insert b (set Df) \<longrightarrow> a \<notin> set E \<longrightarrow> blocks ?s2 a = blocks s a"
      using keep1 by simp
  qed (use s1(4,5,9) k1 in auto)
  ultimately show thesis by (rule that [OF _ _ _ s1(5)]) (use b1 apart(1) k1(2) in simp_all)
qed

lemma send_loop_any:
  "nodes_at (blocks s) p ms \<Longrightarrow> list_all2 (\<lambda>n F. frame_at (snd n) (fst F) (snd F) (blocks s)) ms Gs \<Longrightarrow>
    list_all2 (carries (blocks s)) Gs ys \<Longrightarrow> distinct (queue_blks ms Gs) \<Longrightarrow> list_all (\<lambda>y. length (snd y) < 2 ^ 31) ys \<Longrightarrow>
    fresh_ok s \<Longrightarrow> err_own s E \<Longrightarrow> set E \<inter> set (queue_blks ms Gs) = {} \<Longrightarrow>
    \<exists>s' E' ms'. idle_send_loop p z s = Some s' \<and> sent_outcome (set (queue_blks ms Gs)) s E s' E' \<and>
      nodes_at (blocks s') p ms' \<and> node_blks ms' = node_blks ms \<and>
      (ms \<noteq> [] \<and> z \<and> s_is_connected (sk s') \<longrightarrow> s_error (sk s') = NULL)"
proof (induction ms arbitrary: s p z E Gs ys)
  case Nil
  have "idle_send_loop p z s = Some s" using Nil.prems(1) by (subst idle_send_loop.simps) simp
  then show ?case using Nil.prems sent_outcome_refl [OF Nil.prems(6,7)] by auto
next
  case (Cons n ms)
  obtain b v where n: "n = (b, v)" by (cases n)
  obtain f Df Gs' where Gs: "Gs = (f, Df) # Gs'" using Cons.prems(2) by (cases Gs) auto
  obtain y ys' where ys: "ys = y # ys'" using Cons.prems(3) Gs by (cases ys) auto
  from Cons.prems(1) n obtain x where x: "p = Ptr b 0" "blocks s b = Some (ONode x)" "n_value x = v"
      "nodes_at (blocks s) (n_next x) ms" by auto
  show ?case
  proof (cases "s_is_connected (sk s) \<and> z")
    case False
    then have "idle_send_loop p z s = Some s" by (subst idle_send_loop.simps) auto
    then show ?thesis using Cons.prems(1) sent_outcome_refl [OF Cons.prems(6,7)] False
      by (intro exI [of _ s] exI [of _ E] exI [of _ "n # ms"]) auto
  next
    case True
    let ?Q = "set (queue_blks ms Gs')"
    have dist: "b \<notin> set Df" "b \<notin> ?Q" "set Df \<inter> ?Q = {}" "distinct (queue_blks ms Gs')"
        "set (queue_blks (n # ms) Gs) = insert b (set Df) \<union> ?Q"
      using Cons.prems(4) by (auto simp: n Gs queue_blks_def)
    have hd: "frame_at (n_value x) f Df (blocks s)" "carries (blocks s) (f, Df) y" "length (snd y) < 2 ^ 31"
        "set E \<inter> insert b (set Df) = {}"
      using Cons.prems(2,3,5,8) x(3) unfolding dist(5) by (auto simp: n Gs ys)
    obtain s2 E2 where s2: "idle_send_loop (Ptr b 0) True s = idle_send_loop (n_next x) (\<not> send_fails s) s2"
        "sent_outcome (insert b (set Df)) s E s2 E2" "blocks s2 b = Some (ONode (x\<lparr>n_value := NULL\<rparr>))"
        "\<And>a. a \<in> set E2 \<Longrightarrow> next_blk s \<le> a" "s_is_connected (sk s2) \<Longrightarrow> s_error (sk s2) = NULL"
      by (rule send_step [OF Cons.prems(6,7) x(2) hd(1,2,3) dist(1) hd(4) conjunct1 [OF True]]) (rule that; blast)
    have tl: "list_all2 (\<lambda>n F. frame_at (snd n) (fst F) (snd F) (blocks s)) ms Gs'" "list_all2 (carries (blocks s)) Gs' ys'"
        "list_all (\<lambda>y. length (snd y) < 2 ^ 31) ys'"
      using Cons.prems(2,3,5) by (auto simp: n Gs ys)
    have q: "queue_at (blocks s) (n_next x) ms Gs'" using x(4) tl(1) dist(4) by (simp add: queue_at_def)
    have low: "a < next_blk s" if "a \<in> ?Q" for a
      using queue_at_live [OF q that] Cons.prems(6) by (simp add: fresh_ok_def)
    have keep: "blocks s2 a = blocks s a" if "a \<in> ?Q" for a
      using s2(2) low [OF that] that dist(2,3) Cons.prems(8) unfolding dist(5) sent_outcome_def by blast
    have q2: "queue_at (blocks s2) (n_next x) ms Gs'" using q keep queue_at_cong [of ms Gs' "blocks s2" "blocks s"] by simp
    have c2: "list_all2 (carries (blocks s2)) Gs' ys'"
    proof (rule carries_list_cong [OF _ tl(2)])
      fix F a assume "F \<in> set Gs'" "a \<in> set (snd F)"
      then show "blocks s2 a = blocks s a" by (intro keep) (auto simp: queue_blks_def)
    qed
    have e2: "fresh_ok s2" "err_own s2 E2" "set E2 \<inter> ?Q = {}"
      using s2(2,4) low by (auto simp: sent_outcome_def not_less [symmetric])
    obtain s' E' ms' where s': "idle_send_loop (n_next x) (\<not> send_fails s) s2 = Some s'" "sent_outcome ?Q s2 E2 s' E'"
        "nodes_at (blocks s') (n_next x) ms'" "node_blks ms' = node_blks ms"
      using Cons.IH [OF _ _ c2 dist(4) tl(3) e2, of "n_next x" "\<not> send_fails s"] q2 by (auto simp: queue_at_def)
    have "b < next_blk s2" using s2(3) e2(1) by (simp add: fresh_ok_def)
    moreover have "b \<notin> set E2" using s2(4) [of b] x(2) Cons.prems(6) by (auto simp: fresh_ok_def)
    ultimately have "blocks s' b = blocks s2 b" using s'(2) dist(2) by (simp add: sent_outcome_def)
    then have "nodes_at (blocks s') p ((b, NULL) # ms')" using x(1) s2(3) s'(3) by simp
    moreover have "sent_outcome (set (queue_blks (n # ms) Gs)) s E s' E'"
      unfolding dist(5) by (rule sent_outcome_trans [OF s2(2) s'(2)]) auto
    moreover have "s_error (sk s') = NULL" if "s_is_connected (sk s')"
    proof -
      have "s_is_connected (sk s2)" using s'(2) that unfolding sent_outcome_def by (auto simp: closed_sk_def)
      then have "s_error (sk s2) = NULL" by (rule s2(5))
      then show ?thesis using s'(2) that by (simp add: sent_outcome_def)
    qed
    ultimately show ?thesis using s2(1) s'(1,4) True x(1) n
      by (intro exI [of _ s'] exI [of _ E'] exI [of _ "(b, NULL) # ms'"]) simp
  qed
qed

section \<open>One round of sending\<close>

lemma evolves_mutex:
  assumes "session s E bs D ns Fs xs ms Gs ys" and "evolves (foot E D ns Fs ms Gs) s F s'" and "mutex_at s p c"
  shows "mutex_at s' p c"
  by (rule mutex_at_keeps [OF evolves_keeps [OF assms(1,2)] assms(3)])

text \<open>The session when the loop has run and the list is deleted.\<close>

lemma session_sent:
  assumes ses: "session s E bs D ns Fs xs ms Gs ys" and out: "sent_outcome (set (queue_blks ms Gs)) s E t E'"
    and u: "blocks u = (\<lambda>b. if b \<in> node_blks ms then None else blocks t b)" "next_blk u = next_blk t"
      "sk u = (sk t)\<lparr>s_send_frames := NULL, s_command := c\<rparr>"
  obtains bs' where "session u E' bs' D ns Fs xs [] [] []" and "evolves (foot E D ns Fs ms Gs) s (foot E' D ns Fs [] []) u"
    and "s_received_len (sk u) = s_received_len (sk s) \<Longrightarrow> bs' = bs"
proof -
  obtain e where k: "sk t = (sk s)\<lparr>s_error := e\<rparr> \<or> sk t = closed_sk ((sk s)\<lparr>s_error := e\<rparr>)"
    and o: "fresh_ok t" "err_own t E'" "next_blk s \<le> next_blk t"
    using out unfolding sent_outcome_def by metis
  have E': "a \<in> set E \<or> next_blk s \<le> a" if "a \<in> set E'" for a using out that by (simp add: sent_outcome_def)
  have old: "blocks u a = blocks s a" "a \<notin> set E'" if "a < next_blk s" "a \<notin> set (queue_blks ms Gs)" "a \<notin> set E" for a
  proof -
    have "blocks t a = blocks s a" using out that unfolding sent_outcome_def by blast
    then show "blocks u a = blocks s a" using that(2) node_blks_sub [of a ms Gs] by (auto simp: u(1))
    show "a \<notin> set E'" using E' [of a] that by auto
  qed
  have inside: "a < next_blk s" "a \<notin> set (queue_blks ms Gs)" "a \<notin> set E" if "a \<in> set D \<union> set (queue_blks ns Fs)" for a
    using that session_live(2) [OF ses, of a] ses by (auto simp: session_def)
  have Q: "a \<notin> set (queue_blks ms Gs)" if "a \<in> set E'" for a
    using E' [OF that] ses session_live(2) [OF ses, of a] by (auto simp: session_def)
  have fields: "s_recvd_frames (sk u) = s_recvd_frames (sk s)" "s_received (sk u) = s_received (sk s)"
      "s_received_size (sk u) = s_received_size (sk s)" "s_send_frames (sk u) = NULL" "s_error (sk u) = s_error (sk t)"
      "s_received_len (sk u) = s_received_len (sk s) \<or> s_received_len (sk u) = 0"
    using k by (auto simp: u(3))
  let ?bs = "if s_received_len (sk u) = s_received_len (sk s) then bs else []"
  have fresh: "fresh_ok u" using o(1) by (auto simp: fresh_ok_def u(1,2))
  have err: "err_own u E'" by (rule err_own_cong [OF fields(5) _ o(2)]) (use Q node_blks_sub [of _ ms Gs] in \<open>auto simp: u(1)\<close>)
  have buf: "buffer_at (blocks u) (sk u) ?bs D"
  proof -
    have "buffer_at (blocks s) (sk s) bs D" using ses by (simp add: session_def)
    then have "buffer_at (blocks u) (sk s) bs D"
      using old(1) inside by (intro buffer_at_cong [of "sk s" "sk s" D "blocks u" "blocks s"]) auto
    then show ?thesis using fields by (auto simp: buffer_at_def split: ptr.splits)
  qed
  have queue: "queue_holds (blocks u) (s_recvd_frames (sk s)) ns Fs xs"
    using ses old(1) inside by (intro queue_holds_cong [of ns Fs "blocks u" "blocks s"]) (auto simp: session_def)
  have dist: "distinct (E' @ D @ queue_blks ns Fs)"
    using ses old(2) inside err_own_distinct [OF o(2)] by (auto simp: session_def)
  have "session u E' ?bs D ns Fs xs [] [] []" using fresh err buf queue dist fields by (simp add: session_def queue_blks_def)
  moreover have "evolves (foot E D ns Fs ms Gs) s (foot E' D ns Fs [] []) u"
    by (rule evolvesI) (use o(3) old in \<open>auto simp: u(2)\<close>)
  ultimately show thesis by (rule that) simp
qed

text \<open>The round under the send mutex.\<close>

lemma send_round_any:
  assumes ses: "session s E bs D ns Fs xs ms Gs ys" and len: "list_all (\<lambda>y. length (snd y) < 2 ^ 31) ys"
  obtains s' E' bs' where "send_round s = Some s'"
    and "session s' E' bs' D ns Fs xs [] [] []" and "evolves (foot E D ns Fs ms Gs) s (foot E' D ns Fs [] []) s'"
    and "same_setup (sk s) (sk s')" and "s_command (sk s') \<in> {s_command (sk s), COMMAND_INFORM_DISCONNECTED}"
    and "s_is_connected (sk s') \<Longrightarrow> bs' = bs \<and> s_socket (sk s') = s_socket (sk s) \<and> s_is_connected (sk s) \<and>
        s_command (sk s') = s_command (sk s)"
    and "env_recv (ev s') = env_recv (ev s)"
proof (cases "s_send_frames (sk s) = NULL")
  case True
  then have "ms = []" "Gs = []" "ys = []" using ses by (auto simp: session_def)
  then show thesis using True ses by (intro that [of s E bs]) (simp_all add: send_round_def)
next
  case False
  have at: "nodes_at (blocks s) (s_send_frames (sk s)) ms" "distinct (queue_blks ms Gs)"
      "list_all2 (\<lambda>n F. frame_at (snd n) (fst F) (snd F) (blocks s)) ms Gs" "list_all2 (carries (blocks s)) Gs ys"
      "fresh_ok s" "err_own s E" "set E \<inter> set (queue_blks ms Gs) = {}"
    using ses by (auto simp: session_def queue_holds_def queue_at_def)
  obtain t E' ms' where t: "idle_send_loop (s_send_frames (sk s)) True s = Some t"
      "sent_outcome (set (queue_blks ms Gs)) s E t E'" "nodes_at (blocks t) (s_send_frames (sk s)) ms'" "node_blks ms' = node_blks ms"
      "ms \<noteq> [] \<and> s_is_connected (sk t) \<longrightarrow> s_error (sk t) = NULL"
    using send_loop_any [OF at(1,3,4,2) len at(5,6,7), of True] by blast
  obtain e where k: "sk t = (sk s)\<lparr>s_error := e\<rparr> \<or> sk t = closed_sk ((sk s)\<lparr>s_error := e\<rparr>)"
    and recv: "env_recv (ev t) = env_recv (ev s)"
    using t(2) unfolding sent_outcome_def by metis
  let ?t = "set_heap (\<lambda>b. if b \<in> node_blks ms then None else blocks t b) (next_blk t) t"
  let ?c = "if s_error (sk t) \<noteq> NULL then COMMAND_INFORM_DISCONNECTED else s_command (sk t)"
  let ?u = "?t\<lparr>sk := (sk t)\<lparr>s_send_frames := NULL, s_command := ?c\<rparr>\<rparr>"
  have "s_send_frames (sk t) = s_send_frames (sk s)" using k by auto
  then have del: "rws_list_delete (s_send_frames (sk t)) t = Some ?t"
    using rws_list_delete_run [of t "s_send_frames (sk t)" ms'] t(3) by (simp add: t(4))
  have same: "(k\<lparr>s_command := s_command k\<rparr> :: rws_socket) = k" for k by simp
  have run: "send_round s = Some ?u"
    using False t(1) del same [of "(sk t)\<lparr>s_send_frames := NULL\<rparr>"]
    by (cases "s_error (sk t) = NULL") (simp_all add: send_round_def rws_list_delete_clean_def)
  obtain bs' where bs': "session ?u E' bs' D ns Fs xs [] [] []" "evolves (foot E D ns Fs ms Gs) s (foot E' D ns Fs [] []) ?u"
      "s_received_len (sk ?u) = s_received_len (sk s) \<Longrightarrow> bs' = bs"
    by (rule session_sent [OF ses t(2), of ?u ?c]) simp_all
  have "ms \<noteq> []" using at(1) False by (cases ms) auto
  then have conn: "s_is_connected (sk ?u) \<Longrightarrow> bs' = bs \<and> s_socket (sk ?u) = s_socket (sk s) \<and> s_is_connected (sk s) \<and>
      s_command (sk ?u) = s_command (sk s)"
    using bs'(3) t(5) k by auto
  have kept: "same_setup (sk s) (sk ?u)" using k by (auto simp: same_setup_def closed_sk_def)
  have cmd: "s_command (sk ?u) \<in> {s_command (sk s), COMMAND_INFORM_DISCONNECTED}" using k by auto
  show thesis by (rule that [OF run bs'(1,2) kept cmd conn]) (use recv in simp_all)
qed

lemma idle_send_any:
  assumes ses: "session s E bs D ns Fs xs ms Gs ys" and mx: "mutex_at s (s_send_mutex (sk s)) c"
    and len: "list_all (\<lambda>y. length (snd y) < 2 ^ 31) ys"
  obtains s' E' bs' where "rws_socket_idle_send s = Some s'" and "session s' E' bs' D ns Fs xs [] [] []"
    and "evolves (foot E D ns Fs ms Gs) s (foot E' D ns Fs [] []) s'"
    and "same_setup (sk s) (sk s')" and "s_command (sk s') \<in> {s_command (sk s), COMMAND_INFORM_DISCONNECTED}"
    and "s_is_connected (sk s') \<Longrightarrow> bs' = bs \<and> s_socket (sk s') = s_socket (sk s)"
    and "env_recv (ev s') = env_recv (ev s)"
    and "s_is_connected (sk s') \<Longrightarrow> s_is_connected (sk s) \<and> s_command (sk s') = s_command (sk s)"
proof -
  let ?p = "s_send_mutex (sk s)" and ?s1 = "with_count (s_send_mutex (sk s)) (Suc c) s"
  have ses1: "session ?s1 E bs D ns Fs xs ms Gs ys" by (rule count_session [OF ses mx])
  obtain t E' bs' where t: "send_round ?s1 = Some t" "session t E' bs' D ns Fs xs [] [] []" "evolves (foot E D ns Fs ms Gs) ?s1 (foot E' D ns Fs [] []) t"
      "same_setup (sk ?s1) (sk t)" "s_command (sk t) \<in> {s_command (sk ?s1), COMMAND_INFORM_DISCONNECTED}"
      "s_is_connected (sk t) \<Longrightarrow> bs' = bs \<and> s_socket (sk t) = s_socket (sk ?s1) \<and> s_is_connected (sk ?s1) \<and>
        s_command (sk t) = s_command (sk ?s1)" "env_recv (ev t) = env_recv (ev ?s1)"
    by (rule send_round_any [OF ses1 len]) (rule that; assumption)
  have mx4: "mutex_at t ?p (Suc c)" by (rule evolves_mutex [OF ses1 t(3) mutex_at_count [OF mx]])
  have "s_send_mutex (sk t) = ?p" using t(4) by (simp add: same_setup_def)
  then have run: "rws_socket_idle_send s = Some (with_count ?p c t)"
    using lock_run [OF mx] t(1) unlock_run [OF mx4] by (simp add: idle_send_steps)
  show thesis
  proof (rule that [OF run])
    show "session (with_count ?p c t) E' bs' D ns Fs xs [] [] []" by (rule count_session [OF t(2) mx4])
    show "evolves (foot E D ns Fs ms Gs) s (foot E' D ns Fs [] []) (with_count ?p c t)"
      by (rule evolves_locked [OF mx mutex_apart [OF ses mx] t(3)])
  qed (use t(4-7) in simp_all)
qed

section \<open>A session and its blocks\<close>

text \<open>
  \<open>holds s U bs xs ys\<close>: some session on the blocks \<open>U\<close> holds the bytes \<open>bs\<close>, the messages \<open>xs\<close> and the
  frames \<open>ys\<close>.  \<open>goes s U s' U'\<close>: the step from \<open>s\<close> to \<open>s'\<close> has left everything but the session alone.
\<close>

definition holds :: "sys \<Rightarrow> nat set \<Rightarrow> u8 list \<Rightarrow> (rws_opcode \<times> u8 list) list \<Rightarrow> (rws_opcode \<times> u8 list) list \<Rightarrow> bool" where
  "holds s U bs xs ys \<longleftrightarrow> (\<exists>E D ns Fs ms Gs. session s E bs D ns Fs xs ms Gs ys \<and> U = foot E D ns Fs ms Gs)"

lemma holdsI: "session s E bs D ns Fs xs ms Gs ys \<Longrightarrow> holds s (foot E D ns Fs ms Gs) bs xs ys"
  unfolding holds_def by blast

lemma holdsE:
  assumes "holds s U bs xs ys"
  obtains E D ns Fs ms Gs where "session s E bs D ns Fs xs ms Gs ys" and "U = foot E D ns Fs ms Gs"
  using assms by (auto simp: holds_def)

definition goes :: "sys \<Rightarrow> nat set \<Rightarrow> sys \<Rightarrow> nat set \<Rightarrow> bool" where
  "goes s U s' U' \<longleftrightarrow> evolves U s U' s' \<and> same_setup (sk s) (sk s')"

lemma goes_refl [simp]: "goes s U s U"
  by (simp add: goes_def)

lemma goes_trans [trans]: "goes s U t V \<Longrightarrow> goes t V u W \<Longrightarrow> goes s U u W"
  by (auto simp: goes_def intro: evolves_trans same_setup_trans)

lemma holds_fresh: "holds s U bs xs ys \<Longrightarrow> fresh_ok s"
  by (auto simp: holds_def session_def)

lemma holds_sk:
  assumes "holds s U bs xs ys" and "s_error k = s_error (sk s)" "s_received k = s_received (sk s)"
    "s_received_size k = s_received_size (sk s)" "s_received_len k = s_received_len (sk s)"
    "s_recvd_frames k = s_recvd_frames (sk s)" "s_send_frames k = s_send_frames (sk s)"
  shows "holds (s\<lparr>sk := k\<rparr>) U bs xs ys"
proof -
  obtain E D ns Fs ms Gs where ses: "session s E bs D ns Fs xs ms Gs ys" "U = foot E D ns Fs ms Gs"
    using assms(1) by (rule holdsE)
  have "session (s\<lparr>sk := k\<rparr>) E bs D ns Fs xs ms Gs ys"
    by (rule session_cong [OF ses(1)]) (use assms ses(1) in \<open>auto simp: session_def\<close>)
  then show ?thesis unfolding ses(2) by (rule holdsI)
qed

section \<open>The error object of a session\<close>

lemma clean_session:
  assumes ses: "session s E bs D ns Fs xs ms Gs ys"
  obtains t where "clean_error s = Some t" and "session t [] bs D ns Fs xs ms Gs ys"
    and "evolves (foot E D ns Fs ms Gs) s (foot [] D ns Fs ms Gs) t"
    and "sk t = (sk s)\<lparr>s_error := NULL\<rparr>" "ev t = ev s" "trace t = trace s"
proof -
  let ?t = "set_heap (\<lambda>b. if b \<in> set E then None else blocks s b) (next_blk s) (s\<lparr>sk := (sk s)\<lparr>s_error := NULL\<rparr>\<rparr>)"
  have own: "err_own s E" using ses by (simp add: session_def)
  have fresh: "fresh_ok ?t" using ses by (auto simp: session_def fresh_ok_def)
  have "session ?t [] bs D ns Fs xs ms Gs ys" "evolves (foot E D ns Fs ms Gs) s (foot [] D ns Fs ms Gs) ?t"
    by (rule error_changed [OF ses fresh, where bs' = bs]; simp)+
  then show thesis using clean_error_run [OF own] by (intro that [of ?t]) simp_all
qed

lemma refuse_session:
  assumes ses: "session s [] bs D ns Fs xs ms Gs ys" and descr: "c_string descr d s"
  obtains t E e where "set_error code descr s = Some t" and "session t E bs D ns Fs xs ms Gs ys"
    and "evolves (foot [] D ns Fs ms Gs) s (foot E D ns Fs ms Gs) t" and "e \<noteq> NULL"
    and "sk t = (sk s)\<lparr>s_error := e\<rparr>" "ev t = ev s" "trace t = trace s"
proof -
  obtain B n E where e: "set_error code descr s = Some (set_heap B n (s\<lparr>sk := (sk s)\<lparr>s_error := Ptr (next_blk s) 0\<rparr>\<rparr>))"
      "session (set_heap B n (s\<lparr>sk := (sk s)\<lparr>s_error := Ptr (next_blk s) 0\<rparr>\<rparr>)) E bs D ns Fs xs ms Gs ys"
      "\<And>b. b \<in> set E \<Longrightarrow> next_blk s \<le> b" "\<And>b. b \<notin> set E \<Longrightarrow> B b = blocks s b" "next_blk s < n"
    by (rule error_session [OF ses descr]) blast
  have "evolves (foot [] D ns Fs ms Gs) s (foot E D ns Fs ms Gs) (set_heap B n (s\<lparr>sk := (sk s)\<lparr>s_error := Ptr (next_blk s) 0\<rparr>\<rparr>))"
  proof (rule evolvesI)
    fix k assume "k < next_blk s" "k \<notin> foot [] D ns Fs ms Gs"
    moreover from this have "k \<notin> set E" using e(3) [of k] by auto
    ultimately show "k \<notin> foot E D ns Fs ms Gs \<and>
        blocks (set_heap B n (s\<lparr>sk := (sk s)\<lparr>s_error := Ptr (next_blk s) 0\<rparr>\<rparr>)) k = blocks s k"
      using e(4) [of k] by simp
  qed (use e(5) in simp)
  then show thesis using e(1,2) by (intro that [of "set_heap B n (s\<lparr>sk := (sk s)\<lparr>s_error := Ptr (next_blk s) 0\<rparr>\<rparr>)" E "Ptr (next_blk s) 0"]) simp_all
qed

lemma recv_refused:
  assumes ses: "session s E bs D ns Fs xs ms Gs ys" and bad: "\<not> recv_ok s"
  obtains s' E' D' where "rws_socket_recv s = Some (False, s')" and "session s' E' [] D' ns Fs xs ms Gs ys"
    and "evolves (foot E D ns Fs ms Gs) s (foot E' D' ns Fs ms Gs) s'" and "same_setup (sk s) (sk s')"
    and "s_error (sk s') \<noteq> NULL" "s_command (sk s') = s_command (sk s)" "\<not> s_is_connected (sk s')"
proof -
  from ses have pre: "fresh_ok s" "err_own s E" "buffer_at (blocks s) (sk s) bs D" "set E \<inter> set D = {}"
    by (auto simp: session_def)
  obtain s' E' D' where run: "rws_socket_recv s = Some (recv_ok s, s')" and out: "recv_outcome s E bs D s' E' D'"
    using rws_socket_recv_run [OF pre] by blast
  have o: "fresh_ok s'" "err_own s' E'" "next_blk s \<le> next_blk s'" "buffer_at (blocks s') (sk s') [] D'" "set E' \<inter> set D' = {}"
    and E': "\<And>b. b \<in> set E' \<Longrightarrow> next_blk s \<le> b" and D': "\<And>b. b \<in> set D' \<Longrightarrow> b \<in> set D \<or> next_blk s \<le> b"
    and same: "\<And>b. b \<notin> set D' \<Longrightarrow> b \<notin> set E' \<Longrightarrow> blocks s' b = (if b \<in> set D \<union> set E then None else blocks s b)"
    and err: "error_at (s_error (sk s')) rws_error_code_read_write_socket E' s'"
    using out bad by (simp_all add: recv_outcome_def)
  obtain p z e where k: "sk s' = closed_sk ((sk s)\<lparr>s_received := p, s_received_size := z, s_error := e\<rparr>)"
    using out bad by (auto simp: recv_outcome_def)
  let ?Q = "set (queue_blks ns Fs) \<union> set (queue_blks ms Gs)"
  have Q: "blocks s' b = blocks s b" "b \<notin> set D'" "b \<notin> set E'" if "b \<in> ?Q" for b
  proof -
    have b: "b < next_blk s" "b \<notin> set D" "b \<notin> set E" using that session_live(2) [OF ses, of b] ses
      by (auto simp: session_def)
    then show "b \<notin> set D'" "b \<notin> set E'" using D' [of b] E' [of b] by auto
    then show "blocks s' b = blocks s b" using same [of b] b by simp
  qed
  have "distinct D'" using o(4) by (auto simp: buffer_at_def split: ptr.splits)
  then have "session s' E' [] D' ns Fs xs ms Gs ys"
    using ses o Q k err_own_distinct [OF o(2)] queue_holds_cong [of ns Fs "blocks s'" "blocks s"]
      queue_holds_cong [of ms Gs "blocks s'" "blocks s"] by (auto simp: session_def)
  moreover have "evolves (foot E D ns Fs ms Gs) s (foot E' D' ns Fs ms Gs) s'"
  proof (rule evolvesI [OF o(3)])
    fix k assume k: "k < next_blk s" "k \<notin> foot E D ns Fs ms Gs"
    then have "k \<notin> set D'" "k \<notin> set E'" using D' [of k] E' [of k] by auto
    then show "k \<notin> foot E' D' ns Fs ms Gs \<and> blocks s' k = blocks s k" using same [of k] k(2) by simp
  qed
  moreover have "s_error (sk s') \<noteq> NULL" using err by (auto simp: error_at_def)
  ultimately show thesis using run bad k by (intro that [of s' E' D']) (simp_all add: same_setup_def closed_sk_def)
qed

section \<open>The steps of a connection\<close>

text \<open>Connecting to the host: the session is as before, and the command tells whether there is a socket.\<close>

lemma went_session:
  assumes ses: "session s E [] D ns Fs xs ms Gs ys" and w: "went s s' fds kept"
  shows "session s' E [] D ns Fs xs ms Gs ys" "evolves F s F s'" "same_setup (sk s) (sk s')"
    "s_is_connected (sk s') = s_is_connected (sk s)" "kept = None \<Longrightarrow> sk s' = sk s" "kept = Some fd \<Longrightarrow> s_socket (sk s') = fd"
proof -
  have "s_received_len (sk s) = 0" using ses buffer_at_len [of "blocks s" "sk s" "[]" D] by (simp add: session_def)
  then show "session s' E [] D ns Fs xs ms Gs ys"
    using ses w by (intro session_cong [OF ses]) (auto simp: went_def session_def fresh_ok_def split: option.splits)
qed (use w in \<open>auto simp: went_def evolves_def same_setup_def split: option.splits\<close>)

lemma connect_any:
  assumes ses: "session s E [] D ns Fs xs ms Gs ys" and inv: "s_socket (sk s) = RWS_INVALID_SOCKET"
  obtains s' E' where "rws_socket_connect_to_host s = Some s'" and "session s' E' [] D ns Fs xs ms Gs ys"
    and "evolves (foot E D ns Fs ms Gs) s (foot E' D ns Fs ms Gs) s'" and "same_setup (sk s) (sk s')"
    and "s_is_connected (sk s') = s_is_connected (sk s)"
    and "s_command (sk s') = COMMAND_SEND_HANDSHAKE \<and> s_socket (sk s') \<noteq> RWS_INVALID_SOCKET \<or>
      s_command (sk s') = COMMAND_INFORM_DISCONNECTED"
proof -
  obtain t where t: "clean_error s = Some t" "session t [] [] D ns Fs xs ms Gs ys"
      "evolves (foot E D ns Fs ms Gs) s (foot [] D ns Fs ms Gs) t" "sk t = (sk s)\<lparr>s_error := NULL\<rparr>"
    by (rule clean_session [OF ses]) blast
  obtain n e r where loop: "getaddr_loop 0 0 t = (n, e, t\<lparr>ev := r\<rparr>)"
    using getaddr_loop_run [of 0 0 t] by (metis zero_le)
  define u where "u = t\<lparr>ev := r\<rparr>"
  have u: "session u [] [] D ns Fs xs ms Gs ys" "sk u = sk t" "evolves (foot E D ns Fs ms Gs) s (foot [] D ns Fs ms Gs) u"
    using t(2,3) by (auto simp: u_def session_def intro: session_cong [OF t(2)])
  show thesis
  proof (cases "n = 0")
    case True
    define d where "d = (if 0 < e then c_message (env_gai_strerror (ev u) e) else lit ''Failed connect to host'')"
    have "\<exists>bs. c_string d bs u"
      unfolding d_def by (cases "0 < e") (auto intro!: exI c_string_message c_string_lit)
    then obtain bs where str: "c_string d bs u" ..
    obtain v E' p where v: "set_error rws_error_code_connect_to_host d u = Some v" "session v E' [] D ns Fs xs ms Gs ys"
        "evolves (foot [] D ns Fs ms Gs) u (foot E' D ns Fs ms Gs) v" "sk v = (sk u)\<lparr>s_error := p\<rparr>"
      by (rule refuse_session [OF u(1) str]) blast
    have "rws_socket_connect_to_host s = Some (v\<lparr>sk := (sk v)\<lparr>s_command := COMMAND_INFORM_DISCONNECTED\<rparr>\<rparr>)"
      using True t(1) loop v(1) unfolding d_def u_def
      by (simp add: rws_socket_connect_to_host_def rws_socket_connect_getaddr_info_def)
    moreover have "session (v\<lparr>sk := (sk v)\<lparr>s_command := COMMAND_INFORM_DISCONNECTED\<rparr>\<rparr>) E' [] D ns Fs xs ms Gs ys"
      by (rule session_cong [OF v(2)]) (use v(2) in \<open>simp_all add: session_def\<close>)
    ultimately show thesis
      by (rule that) (use evolves_trans [OF u(3) v(3)] v(4) u(2) t(4) in \<open>simp_all add: same_setup_def\<close>)
  next
    case False
    have "s_socket (sk u) = RWS_INVALID_SOCKET" using u(2) t(4) inv by simp
    from connect_loop_run [OF this, of 0 RWS_INVALID_SOCKET n]
    obtain v fds kept where v: "connect_loop 0 RWS_INVALID_SOCKET n u = v" "went u v fds kept"
        "\<forall>fd. kept = Some fd \<longrightarrow> fd \<noteq> RWS_INVALID_SOCKET" by blast
    note w = went_session [OF u(1) v(2)]
    have ev: "evolves (foot E D ns Fs ms Gs) s (foot [] D ns Fs ms Gs) v" by (rule evolves_trans [OF u(3) w(2)])
    have su: "same_setup (sk s) (sk v)" using w(3) u(2) t(4) by (simp add: same_setup_def)
    have conn: "s_is_connected (sk v) = s_is_connected (sk s)" using w(4) u(2) t(4) by simp
    have info: "rws_socket_connect_getaddr_info s = Some (n, u)"
      using t(1) loop False by (simp add: rws_socket_connect_getaddr_info_def u_def)
    show thesis
    proof (cases "s_socket (sk v) = RWS_INVALID_SOCKET")
      case True
      have str: "c_string (lit ''Failed connect to host'') (cstr ''Failed connect to host'') v" by (intro c_string_lit) simp
      obtain x E' p where x: "set_error rws_error_code_connect_to_host (lit ''Failed connect to host'') v = Some x"
          "session x E' [] D ns Fs xs ms Gs ys"
          "evolves (foot [] D ns Fs ms Gs) v (foot E' D ns Fs ms Gs) x" "sk x = (sk v)\<lparr>s_error := p\<rparr>"
        by (rule refuse_session [OF w(1) str]) blast
      have "rws_socket_connect_to_host s = Some (x\<lparr>sk := (sk x)\<lparr>s_command := COMMAND_INFORM_DISCONNECTED\<rparr>\<rparr>)"
        using info False v(1) True x(1) by (simp add: rws_socket_connect_to_host_def)
      moreover have "session (x\<lparr>sk := (sk x)\<lparr>s_command := COMMAND_INFORM_DISCONNECTED\<rparr>\<rparr>) E' [] D ns Fs xs ms Gs ys"
        by (rule session_cong [OF x(2)]) (use x(2) in \<open>simp_all add: session_def\<close>)
      ultimately show thesis
        by (rule that) (use evolves_trans [OF ev x(3)] x(4) su conn in \<open>simp_all add: same_setup_def\<close>)
    next
      case sock: False
      have "rws_socket_connect_to_host s = Some (v\<lparr>sk := (sk v)\<lparr>s_command := COMMAND_SEND_HANDSHAKE\<rparr>\<rparr>)"
        using info False v(1) sock by (simp add: rws_socket_connect_to_host_def)
      moreover have "session (v\<lparr>sk := (sk v)\<lparr>s_command := COMMAND_SEND_HANDSHAKE\<rparr>\<rparr>) [] [] D ns Fs xs ms Gs ys"
        by (rule session_cong [OF w(1)]) (use w(1) in \<open>simp_all add: session_def\<close>)
      ultimately show thesis by (rule that) (use ev su conn sock in \<open>simp_all add: same_setup_def\<close>)
    qed
  qed
qed

text \<open>Sending the request: an error of \<open>send\<close> closes the socket and is renamed.\<close>

definition request_fits :: "sys \<Rightarrow> bool" where
  "request_fits s \<longleftrightarrow> (\<exists>scheme host path. c_string (s_scheme (sk s)) scheme s \<and> c_string (s_host (sk s)) host s \<and>
     c_string (s_path (sk s)) path s \<and> length (request_text scheme host (s_port (sk s)) path) < 512)"

lemma handshake_any:
  assumes ses: "session s E [] D ns Fs xs ms Gs ys" and fit: "request_fits s"
  obtains s' E' where "rws_socket_send_handshake s = Some s'" and "session s' E' [] D ns Fs xs ms Gs ys"
    and "evolves (foot E D ns Fs ms Gs) s (foot E' D ns Fs ms Gs) s'" and "same_setup (sk s) (sk s')"
    and "s_is_connected (sk s') \<Longrightarrow> s_is_connected (sk s)"
    and "s_command (sk s') = COMMAND_WAIT_HANDSHAKE_RESPONCE \<and> s_socket (sk s') = s_socket (sk s) \<or>
      s_command (sk s') = COMMAND_INFORM_DISCONNECTED \<and> \<not> s_is_connected (sk s')"
proof -
  obtain sc ho pa where c: "c_string (s_scheme (sk s)) sc s" "c_string (s_host (sk s)) ho s" "c_string (s_path (sk s)) pa s"
      "length (request_text sc ho (s_port (sk s)) pa) < 512" using fit by (auto simp: request_fits_def)
  define r where "r = request_text sc ho (s_port (sk s)) pa"
  have req: "handshake_request s = Some r" using handshake_request_run [OF c(1-3)] c(4) by (simp add: r_def)
  have ld: "load_bytes (Lit r 0) (send_len (length r)) s = Some r" using c(4) by (simp add: send_len_def r_def)
  have own: "fresh_ok s" "err_own s E" using ses by (simp_all add: session_def)
  have apart: "ptr_blks (Lit r 0) \<inter> set E = {}" by simp
  have len: "s_received_len (sk s) = 0" using ses buffer_at_len [of "blocks s" "sk s" "[]" D] by (simp add: session_def)
  obtain t E' where t: "rws_socket_send (Lit r 0) (length r) s = Some (\<not> send_fails s, t)"
      "fresh_ok t" "err_own t E'" "next_blk s \<le> next_blk t" "\<And>b. b \<in> set E' \<Longrightarrow> next_blk s \<le> b"
      "\<And>b. b \<notin> set E' \<Longrightarrow> blocks t b = (if b \<in> set E then None else blocks s b)"
      "\<not> send_fails s \<Longrightarrow> E' = [] \<and> sk t = (sk s)\<lparr>s_error := NULL\<rparr>"
      "send_fails s \<Longrightarrow> error_at (s_error (sk t)) rws_error_code_read_write_socket E' t \<and>
        sk t = closed_sk ((sk s)\<lparr>s_error := s_error (sk t)\<rparr>)"
    by (rule rws_socket_send_run [OF own ld apart]) (rule that; blast)
  show thesis
  proof (cases "send_fails s")
    case False
    let ?s = "t\<lparr>sk := (sk t)\<lparr>s_command := COMMAND_WAIT_HANDSHAKE_RESPONCE\<rparr>\<rparr>"
    have k: "E' = []" "sk t = (sk s)\<lparr>s_error := NULL\<rparr>" using t(7) [OF False] by simp_all
    have "session ?s [] [] D ns Fs xs ms Gs ys" "evolves (foot E D ns Fs ms Gs) s (foot [] D ns Fs ms Gs) ?s"
      by (rule error_changed [OF ses, where bs' = "[]"]; use t(2-6) k in simp)+
    then show thesis using req t(1) False k
      by (intro that [of ?s "[]"]) (simp_all add: rws_socket_send_handshake_def same_setup_def)
  next
    case fail: True
    from t(8) [OF fail] have e: "error_at (s_error (sk t)) rws_error_code_read_write_socket E' t"
      and k: "sk t = closed_sk ((sk s)\<lparr>s_error := s_error (sk t)\<rparr>)" by simp_all
    obtain b x where b: "s_error (sk t) = Ptr b 0" "blocks t b = Some (OError x)" "b \<in> set E'"
      using e by (auto simp: error_at_def dest!: get_err_SomeD split: option.splits ptr.splits)
    let ?s = "(rws_socket_close (set_heap ((blocks t)(b \<mapsto> OError (x\<lparr>e_code := 2\<rparr>))) (next_blk t) t))\<lparr>sk :=
        (closed_sk (sk t))\<lparr>s_command := COMMAND_INFORM_DISCONNECTED\<rparr>\<rparr>"
    have run: "rws_socket_send_handshake s = Some ?s"
      using req t(1) fail b by (simp add: rws_socket_send_handshake_def run_simps)
    have own': "err_own ?s E'"
      using e b by (auto simp: err_own_def error_at_def get_err_def obj_at_def split: ptr.splits)
    have fresh': "fresh_ok ?s" using t(2) b(2) by (auto simp: fresh_ok_def)
    have kk: "s_received (sk t) = s_received (sk s)" "s_received_size (sk t) = s_received_size (sk s)"
        "s_recvd_frames (sk t) = s_recvd_frames (sk s)" "s_send_frames (sk t) = s_send_frames (sk s)" "same_setup (sk s) (sk t)"
      by (subst k, simp add: closed_sk_def same_setup_def)+
    have "session ?s E' [] D ns Fs xs ms Gs ys" "evolves (foot E D ns Fs ms Gs) s (foot E' D ns Fs ms Gs) ?s"
      by (rule error_changed [OF ses fresh' own', where bs' = "[]"]; use t(4-6) b kk len in auto)+
    then show thesis using run kk(5)
      by (intro that [of ?s E']) (simp_all add: same_setup_def closed_sk_def)
  qed
qed


text \<open>The closing frame: the command is the end of the thread, whatever becomes of the frame.\<close>

lemma disconnect_any:
  assumes ses: "session s E bs D ns Fs xs ms Gs ys"
  obtains s' E' bs' where "rws_socket_send_disconnect s = Some s'" and "session s' E' bs' D ns Fs xs ms Gs ys"
    and "evolves (foot E D ns Fs ms Gs) s (foot E' D ns Fs ms Gs) s'" and "same_setup (sk s) (sk s')"
    and "s_command (sk s') = COMMAND_END"
proof -
  have own: "fresh_ok s" "err_own s E" using ses by (simp_all add: session_def)
  obtain t E' where t: "rws_socket_send_disconnect s = Some t" "fresh_ok t" "err_own t E'"
      "\<And>b. b \<in> set E' \<Longrightarrow> next_blk s \<le> b" "next_blk s \<le> next_blk t"
      "\<And>b. b \<notin> set E' \<Longrightarrow> blocks t b = (if b \<in> set E then None else blocks s b)"
      "\<not> send_fails s \<Longrightarrow> E' = [] \<and> sk t = (sk (bump_id s))\<lparr>s_error := NULL, s_command := COMMAND_END\<rparr>"
      "send_fails s \<Longrightarrow> \<exists>e. error_at e rws_error_code_read_write_socket E' t \<and>
        sk t = (closed_sk ((sk (bump_id s))\<lparr>s_error := e\<rparr>))\<lparr>s_command := COMMAND_END\<rparr>"
    by (rule send_disconnect_run [OF own]) (rule that; blast)
  define bs' where "bs' = (if send_fails s then [] else bs)"
  have k: "s_received (sk t) = s_received (sk s)" "s_received_size (sk t) = s_received_size (sk s)"
      "s_recvd_frames (sk t) = s_recvd_frames (sk s)" "s_send_frames (sk t) = s_send_frames (sk s)"
      "s_command (sk t) = COMMAND_END" "same_setup (sk s) (sk t)"
      "s_received_len (sk t) = s_received_len (sk s) \<and> bs' = bs \<or> s_received_len (sk t) = 0 \<and> bs' = []"
    using t(7,8) by (cases "send_fails s"; auto simp: closed_sk_def same_setup_def bs'_def)+
  have "session t E' bs' D ns Fs xs ms Gs ys" "evolves (foot E D ns Fs ms Gs) s (foot E' D ns Fs ms Gs) t"
    using error_changed [OF ses t(2,3,5,4,6) k(1-4,7)] by blast+
  then show thesis using t(1) k(5,6) by (intro that [of t E' bs'])
qed

text \<open>
  Receiving in the two stages of a connection.  A peer is fair when every scan of its answer to the request ends inside the
  answer (\<open>contained\<close>; an empty answer is not looked at), whether it accepts or refuses the connection, and its frames are regular and small.
\<close>

definition fair_unit :: "u8 list \<Rightarrow> bool" where
  "fair_unit u \<longleftrightarrow> regular u \<and> length u < 2 ^ 31 - 14"

lemma wait_empty_run:
  assumes ses: "session s E [] D ns Fs xs ms Gs ys" and ok: "recv_ok s" and none: "recv_data (fst (recv_result s)) = []"
  obtains s' D' where "rws_socket_wait_handshake_responce s = Some s'" and "session s' [] [] D' ns Fs xs ms Gs ys"
    and "evolves (foot E D ns Fs ms Gs) s (foot [] D' ns Fs ms Gs) s'" and "same_setup (sk s) (sk s')"
    and "s_command (sk s') = s_command (sk s)"
proof -
  obtain t D' where t: "rws_socket_recv s = Some (True, t)" "session t [] ([] @ recv_data (fst (recv_result s))) D' ns Fs xs ms Gs ys"
      "evolves (foot E D ns Fs ms Gs) s (foot [] D' ns Fs ms Gs) t" "same_setup (sk s) (sk t)" "s_command (sk t) = s_command (sk s)"
    by (rule recv_session [OF ses ok]) blast
  have ses': "session t [] [] D' ns Fs xs ms Gs ys" using t(2) none by simp
  then have "s_received_len (sk t) = 0" using buffer_at_len [of "blocks t" "sk t" "[]" D'] by (simp add: session_def)
  then have "rws_socket_wait_handshake_responce s = Some t" using t(1) by (simp add: rws_socket_wait_handshake_responce_def)
  then show thesis using ses' t(3-5) by (rule that)
qed

text \<open>A new accept key, and the end of a connection, in a session.\<close>

lemma accept_session:
  assumes ses: "session s E bs D ns Fs xs ms Gs ys"
  shows "session (with_accept key s) E bs D ns Fs xs ms Gs ys"
    and "evolves (foot E D ns Fs ms Gs) s (foot E D ns Fs ms Gs) (with_accept key s)"
proof -
  have fresh: "fresh_ok s" using ses by (simp add: session_def)
  have new: "next_blk s \<notin> foot E D ns Fs ms Gs" using session_live(2) [OF ses, of "next_blk s"] by auto
  show "session (with_accept key s) E bs D ns Fs xs ms Gs ys"
    by (rule session_cong [OF ses])
      (use fresh new in \<open>auto simp: with_accept_def fresh_ok_def less_Suc_eq split: if_splits\<close>)
  show "evolves (foot E D ns Fs ms Gs) s (foot E D ns Fs ms Gs) (with_accept key s)"
    using session_live(2) [OF ses] by (auto simp: evolves_def with_accept_def)
qed

lemma closed_session:
  assumes ses: "session s E bs D ns Fs xs ms Gs ys"
  shows "session ((rws_socket_close s)\<lparr>sk := (closed_sk (sk s))\<lparr>s_command := c\<rparr>\<rparr>) E [] D ns Fs xs ms Gs ys"
proof -
  let ?s = "(rws_socket_close s)\<lparr>sk := (closed_sk (sk s))\<lparr>s_command := c\<rparr>\<rparr>"
  have err: "err_own s E" using ses by (simp add: session_def)
  have "err_own ?s E" by (rule err_own_cong [OF _ _ err]) (simp_all add: closed_sk_def)
  moreover have "buffer_at (blocks ?s) (sk ?s) [] D"
    using ses by (auto simp: session_def buffer_at_def closed_sk_def split: ptr.splits)
  ultimately show ?thesis using ses by (simp add: session_def closed_sk_def)
qed

text \<open>An answer in which every scan ends: it is accepted or not, and in either case the accept key may be a new one.\<close>

definition rekeyed :: "sys \<Rightarrow> nat set \<Rightarrow> sys \<Rightarrow> bool" where
  "rekeyed s F s' \<longleftrightarrow> same_setup (sk s) (sk s') \<or>
     (\<exists>a key. s_sec_ws_accept (sk s') = Ptr a 0 \<and> same_setup ((sk s)\<lparr>s_sec_ws_accept := Ptr a 0\<rparr>) (sk s') \<and>
        blocks s' a = Some (OBytes (map Some key @ [Some 0])) \<and> next_blk s \<le> a \<and> a \<notin> F)"

lemma rekeyed_accept:
  assumes ses: "session s E bs D ns Fs xs ms Gs ys" and fields: "same_setup (sk r) (sk s)" "next_blk r \<le> next_blk s"
    and later: "\<And>k. k < next_blk (with_accept key s) \<Longrightarrow> k \<notin> foot E D ns Fs ms Gs \<Longrightarrow> k \<notin> F \<and> blocks t k = blocks (with_accept key s) k"
    and same: "same_setup (sk (with_accept key s)) (sk t)"
  shows "rekeyed r F t"
proof (cases "key = []")
  case True
  then show ?thesis using fields(1) same by (simp add: rekeyed_def with_accept_def same_setup_def)
next
  case False
  have "next_blk s \<notin> foot E D ns Fs ms Gs" using session_live(2) [OF ses, of "next_blk s"] by auto
  then have "next_blk s \<notin> F \<and> blocks t (next_blk s) = Some (OBytes (map Some key @ [Some 0]))"
    using later [of "next_blk s"] False by (simp add: with_accept_def)
  moreover have "s_sec_ws_accept (sk t) = Ptr (next_blk s) 0" "same_setup ((sk r)\<lparr>s_sec_ws_accept := Ptr (next_blk s) 0\<rparr>) (sk t)"
    using same fields(1) False by (simp_all add: with_accept_def same_setup_def)
  ultimately show ?thesis using fields(2) unfolding rekeyed_def by blast
qed

lemma wait_contained_run:
  assumes ses: "session s E [] D ns Fs xs ms Gs ys" and ok: "recv_ok s" and con: "contained (recv_data (fst (recv_result s)))"
  obtains s' E' D' where "rws_socket_wait_handshake_responce s = Some s'" and "session s' E' [] D' ns Fs xs ms Gs ys"
    and "s_command (sk s') \<in> {COMMAND_INFORM_CONNECTED, COMMAND_INFORM_DISCONNECTED}"
    and "evolves (foot E D ns Fs ms Gs) s (foot E' D' ns Fs ms Gs) s'" and "rekeyed s (foot E' D' ns Fs ms Gs) s'"
proof -
  let ?bs = "recv_data (fst (recv_result s))"
  have ne: "?bs \<noteq> []" using con by (auto simp: contained_def)
  obtain t D' where t: "rws_socket_recv s = Some (True, t)" "session t [] ([] @ ?bs) D' ns Fs xs ms Gs ys" "s_error (sk t) = NULL"
      "evolves (foot E D ns Fs ms Gs) s (foot [] D' ns Fs ms Gs) t" "same_setup (sk s) (sk t)"
    by (rule recv_session [OF ses ok]) blast
  have st: "fresh_ok t" "buffer_at (blocks t) (sk t) ?bs D'" using t(2) by (auto simp: session_def)
  obtain b cs where b: "s_received (sk t) = Ptr b 0" "blocks t b = Some (OBytes cs)" "s_received_len (sk t) = length ?bs"
      "length ?bs \<le> length cs" "take (length ?bs) cs = map Some ?bs"
    using st(2) ne by (cases rule: buffer_at_cases) auto
  have "cs = map Some ?bs @ drop (length ?bs) cs" using append_take_drop_id [of "length ?bs" cs] b(5) by simp
  then have blk: "blocks t b = Some (OBytes (map Some ?bs @ drop (length ?bs) cs))" using b(2) by simp
  have wait: "rws_socket_wait_handshake_responce s = do {
      (ok, s) \<leftarrow> rws_socket_process_handshake_responce t;
      if ok then Some (s\<lparr>sk := (sk s)\<lparr>s_received_len := 0, s_is_connected := True, s_command := COMMAND_INFORM_CONNECTED\<rparr>\<rparr>)
      else let s = rws_socket_close s in Some (s\<lparr>sk := (sk s)\<lparr>s_command := COMMAND_INFORM_DISCONNECTED\<rparr>\<rparr>) }"
    using t(1) b(3) ne by (simp add: rws_socket_wait_handshake_responce_def)
  have le: "next_blk s \<le> next_blk t" using t(4) by (simp add: evolves_def)
  have acc: "session (with_accept key t) [] ?bs D' ns Fs xs ms Gs ys"
      "evolves (foot [] D' ns Fs ms Gs) t (foot [] D' ns Fs ms Gs) (with_accept key t)" for key
    using accept_session [OF t(2)] by simp_all
  consider (none) "rws_socket_process_handshake_responce t = Some (False, t)"
    | (accepted) key where "rws_socket_process_handshake_responce t = Some (True, with_accept key t)"
    | (refused) key descr where "rws_socket_process_handshake_responce t =
        (do { s \<leftarrow> set_error rws_error_code_parse_handshake (lit descr) (with_accept key t); Some (False, s) })"
        "descr = ''HTPP code not found or non 101'' \<or> descr = ''Accept key not found''"
    using process_contained [OF st(1) t(3) b(1) blk con] by blast
  then show thesis
  proof cases
    case none
    let ?v = "(rws_socket_close t)\<lparr>sk := (closed_sk (sk t))\<lparr>s_command := COMMAND_INFORM_DISCONNECTED\<rparr>\<rparr>"
    have "session ?v [] [] D' ns Fs xs ms Gs ys" using closed_session [OF t(2)] by simp
    then show thesis using wait none t(4,5)
      by (intro that [of ?v "[]" D']) (simp_all add: evolves_def rekeyed_def same_setup_def closed_sk_def)
  next
    case (accepted key)
    let ?u = "with_accept key t"
    let ?v = "?u\<lparr>sk := (sk ?u)\<lparr>s_received_len := 0, s_is_connected := True, s_command := COMMAND_INFORM_CONNECTED\<rparr>\<rparr>"
    have "buffer_at (blocks ?v) (sk ?v) [] D'" using acc(1) [of key] by (auto simp: session_def buffer_at_def split: ptr.splits)
    moreover have "err_own ?v []" using acc(1) [of key] by (simp add: session_def)
    ultimately have "session ?v [] [] D' ns Fs xs ms Gs ys" using acc(1) [of key] by (simp add: session_def)
    moreover have "evolves (foot E D ns Fs ms Gs) s (foot [] D' ns Fs ms Gs) ?v"
      using evolves_trans [OF t(4) acc(2) [of key]] by (simp add: evolves_def)
    moreover have "rekeyed s (foot [] D' ns Fs ms Gs) ?v"
      by (rule rekeyed_accept [OF t(2,5) le]) (simp_all add: same_setup_def)
    ultimately show thesis using wait accepted by (intro that [of ?v "[]" D']) simp_all
  next
    case (refused key descr)
    let ?u = "with_accept key t"
    have str: "c_string (lit descr) (cstr descr) ?u" using refused(2) by (intro c_string_lit) auto
    obtain w E' e where w: "set_error rws_error_code_parse_handshake (lit descr) ?u = Some w" "session w E' ?bs D' ns Fs xs ms Gs ys"
        "evolves (foot [] D' ns Fs ms Gs) ?u (foot E' D' ns Fs ms Gs) w" "sk w = (sk ?u)\<lparr>s_error := e\<rparr>"
      by (rule refuse_session [OF acc(1) str]) blast
    let ?v = "(rws_socket_close w)\<lparr>sk := (closed_sk (sk w))\<lparr>s_command := COMMAND_INFORM_DISCONNECTED\<rparr>\<rparr>"
    have "session ?v E' [] D' ns Fs xs ms Gs ys" using closed_session [OF w(2)] by simp
    moreover have "evolves (foot E D ns Fs ms Gs) s (foot E' D' ns Fs ms Gs) ?v"
      using evolves_trans [OF t(4) evolves_trans [OF acc(2) [of key] w(3)]] by (simp add: evolves_def)
    moreover have "rekeyed s (foot E' D' ns Fs ms Gs) ?v"
      by (rule rekeyed_accept [OF t(2,5) le, where key = key]) (use w(3,4) in \<open>simp_all add: same_setup_def closed_sk_def evolves_def\<close>)
    ultimately show thesis using wait refused(1) w(1) by (intro that [of ?v E' D']) simp_all
  qed
qed

lemma recv_refused_run:
  assumes ses: "session s E bs D ns Fs xs ms Gs ys" and bad: "\<not> recv_ok s"
  obtains s' E' D' where "rws_socket_wait_handshake_responce s = Some s'" and "rws_socket_idle_recv s = Some s'"
    and "session s' E' [] D' ns Fs xs ms Gs ys"
    and "evolves (foot E D ns Fs ms Gs) s (foot E' D' ns Fs ms Gs) s'" and "same_setup (sk s) (sk s')"
    and "s_command (sk s') = COMMAND_INFORM_DISCONNECTED"
proof -
  obtain t E' D' where t: "rws_socket_recv s = Some (False, t)" "session t E' [] D' ns Fs xs ms Gs ys"
      "evolves (foot E D ns Fs ms Gs) s (foot E' D' ns Fs ms Gs) t" "same_setup (sk s) (sk t)" "s_error (sk t) \<noteq> NULL"
    by (rule recv_refused [OF ses bad]) blast
  let ?s = "t\<lparr>sk := (sk t)\<lparr>s_command := COMMAND_INFORM_DISCONNECTED\<rparr>\<rparr>"
  have "session ?s E' [] D' ns Fs xs ms Gs ys"
    by (rule session_cong [OF t(2)]) (use t(2) in \<open>simp_all add: session_def\<close>)
  then show thesis using t
    by (intro that [of ?s E' D']) (simp_all add: rws_socket_wait_handshake_responce_def rws_socket_idle_recv_def same_setup_def)
qed

lemma length_encode_frame:
  assumes "length key = 4"
  shows "length (encode_frame op (Some key) msg) \<le> 14 + length msg"
  using length_header_le [of "Some key" op "length msg"] assms by (simp add: encode_frame_def)

lemma fair_answers:
  assumes "list_all fair_unit us" and "length key = 4"
  shows "list_all (\<lambda>y. length (snd y) < 2 ^ 31) (concat (map (answer_of key) us))"
    and "list_all (\<lambda>x. length (snd x) < 2 ^ 32) (concat (map message_of us))"
proof -
  have "length (payload_at u) < 2 ^ 31 - 14" if "fair_unit u" for u
    using that length_payload_at [of u] by (simp add: fair_unit_def regular_def)
  then have "length (encode_frame 10 (Some key) (payload_at u)) < 2 ^ 31" if "fair_unit u" for u
    using length_encode_frame [OF assms(2), of 10 "payload_at u"] that by fastforce
  then show "list_all (\<lambda>y. length (snd y) < 2 ^ 31) (concat (map (answer_of key) us))"
    using assms by (auto simp: list_all_iff answer_of_def split: if_splits)
  have "list_all regular us" using assms(1) by (auto simp: list_all_iff fair_unit_def)
  then show "list_all (\<lambda>x. length (snd x) < 2 ^ 32) (concat (map message_of us))" by (rule small_messages)
qed
end
