(* ===== verification/Rws_Program.thy ===== *)
theory Rws_Program
  imports Rws_Steps
begin

text \<open>
  The program as a whole: what the library keeps true of a socket from the call that starts its
  thread to the end of the thread, while the client queues texts and asks for the release between the
  iterations of the loop.
\<close>

section \<open>The socket beside its session\<close>

text \<open>
  \<open>setup_at s b c P\<close>: the blocks \<open>P\<close> hold the socket object \<open>b\<close>, its two mutexes (the work mutex locked
  \<open>c\<close> times), the parts of the URL, whose request fits the buffer, and the accept key.
\<close>

definition setup_at :: "sys \<Rightarrow> nat \<Rightarrow> nat \<Rightarrow> nat set \<Rightarrow> bool" where
  "setup_at s b c P \<longleftrightarrow> (\<exists>w x K As scheme host path.
     P = {b, w, x} \<union> set K \<union> slot_blks As \<and> w \<noteq> x \<and> blocks s b = Some OSocket \<and>
     s_work_mutex (sk s) = Ptr w 0 \<and> blocks s w = Some (OMutex c) \<and>
     s_send_mutex (sk s) = Ptr x 0 \<and> blocks s x = Some (OMutex 0) \<and>
     url_at s scheme host path As \<and> scheme \<noteq> [] \<and> host \<noteq> [] \<and> path \<noteq> [] \<and>
     length (request_text scheme host (s_port (sk s)) path) < 512 \<and>
     own_bytes (s_sec_ws_accept (sk s)) K s \<and> set K \<inter> slot_blks As = {} \<and> s_work_thread (sk s) \<noteq> NULL)"

lemma setup_atI:
  assumes "w \<noteq> x" "blocks s b = Some OSocket" "s_work_mutex (sk s) = Ptr w 0" "blocks s w = Some (OMutex c)"
    "s_send_mutex (sk s) = Ptr x 0" "blocks s x = Some (OMutex 0)" "url_at s scheme host path As"
    "scheme \<noteq> []" "host \<noteq> []" "path \<noteq> []" "length (request_text scheme host (s_port (sk s)) path) < 512"
    "own_bytes (s_sec_ws_accept (sk s)) K s" "set K \<inter> slot_blks As = {}" "s_work_thread (sk s) \<noteq> NULL"
  shows "setup_at s b c ({b, w, x} \<union> set K \<union> slot_blks As)"
  using assms unfolding setup_at_def by blast

lemma setup_atE:
  assumes "setup_at s b c P"
  obtains w x K As sc ho pa where "P = {b, w, x} \<union> set K \<union> slot_blks As" "w \<noteq> x" "blocks s b = Some OSocket"
      "s_work_mutex (sk s) = Ptr w 0" "blocks s w = Some (OMutex c)" "s_send_mutex (sk s) = Ptr x 0" "blocks s x = Some (OMutex 0)"
      "url_at s sc ho pa As" "sc \<noteq> []" "ho \<noteq> []" "pa \<noteq> []" "length (request_text sc ho (s_port (sk s)) pa) < 512"
      "own_bytes (s_sec_ws_accept (sk s)) K s" "set K \<inter> slot_blks As = {}" "s_work_thread (sk s) \<noteq> NULL"
  using assms unfolding setup_at_def by blast

lemma slots_at_cong:
  assumes "slots_at m ps os As" and "\<And>k. k \<in> slot_blks As \<Longrightarrow> blocks m' k = blocks m k"
  shows "slots_at m' ps os As"
proof -
  have "str_at (ps ! i) (os ! i) (As ! i) m'" if "i < length ps" for i
  proof (rule str_at_cong)
    show "str_at (ps ! i) (os ! i) (As ! i) m" using assms(1) that by (simp add: slots_at_def)
    show "blocks m' k = blocks m k" if "k \<in> set (As ! i)" for k
      using assms that \<open>i < length ps\<close> by (auto simp: slot_blks_def slots_at_def)
  qed
  then show ?thesis using assms(1) by (simp add: slots_at_def)
qed

lemma setup_cong:
  assumes "setup_at s b c P" and "\<And>k. k \<in> P \<Longrightarrow> blocks s' k = blocks s k" and "same_setup (sk s) (sk s')"
  shows "setup_at s' b c P"
proof -
  obtain w x K As sc ho pa where P: "P = {b, w, x} \<union> set K \<union> slot_blks As" "w \<noteq> x" "blocks s b = Some OSocket"
      "s_work_mutex (sk s) = Ptr w 0" "blocks s w = Some (OMutex c)" "s_send_mutex (sk s) = Ptr x 0" "blocks s x = Some (OMutex 0)"
      "url_at s sc ho pa As" "sc \<noteq> []" "ho \<noteq> []" "pa \<noteq> []" "length (request_text sc ho (s_port (sk s)) pa) < 512"
      "own_bytes (s_sec_ws_accept (sk s)) K s" "set K \<inter> slot_blks As = {}" "s_work_thread (sk s) \<noteq> NULL"
    using assms(1) by (rule setup_atE)
  have k: "s_scheme (sk s') = s_scheme (sk s)" "s_host (sk s') = s_host (sk s)" "s_path (sk s') = s_path (sk s)"
      "s_port (sk s') = s_port (sk s)" "s_work_mutex (sk s') = s_work_mutex (sk s)" "s_send_mutex (sk s') = s_send_mutex (sk s)"
      "s_sec_ws_accept (sk s') = s_sec_ws_accept (sk s)" "s_work_thread (sk s') = s_work_thread (sk s)"
    using assms(3) by (simp_all add: same_setup_def)
  have "url_at s' sc ho pa As"
    using P(8) slots_at_cong [of s _ _ As s'] assms(2) P(1) k unfolding url_at_def by (metis UnCI)
  moreover have "own_bytes (s_sec_ws_accept (sk s')) K s'"
    unfolding k using P(13) by (rule own_bytes_cong) (use assms(2) P(1) in auto)
  moreover have "blocks s' b = Some OSocket" "blocks s' w = Some (OMutex c)" "blocks s' x = Some (OMutex 0)"
    using assms(2) P(1,3,5,7) by auto
  ultimately show ?thesis using P(1,2,4,6,9-12,14,15) unfolding setup_at_def k by blast
qed

lemma setup_live:
  assumes "setup_at s b c P" and "k \<in> P"
  shows "blocks s k \<noteq> None"
  using assms unfolding setup_at_def url_at_def by (auto dest: slots_live own_bytes_block)

lemma setup_evolves:
  assumes "setup_at s b c P" and "fresh_ok s" and "P \<inter> V = {}" and "goes s V s' V'"
  shows "setup_at s' b c P" and "P \<inter> V' = {}" and "evolves (P \<union> V) s (P \<union> V') s'"
proof -
  have keep: "blocks s' k = blocks s k \<and> k \<notin> V'" if "k \<in> P" for k
    using assms setup_live [OF assms(1) that] that by (auto simp: goes_def evolves_def fresh_ok_def)
  then show "setup_at s' b c P" using assms(4) by (intro setup_cong [OF assms(1)]) (auto simp: goes_def)
  show "P \<inter> V' = {}" using keep by blast
  show "evolves (P \<union> V) s (P \<union> V') s'" using assms(4) by (auto simp: goes_def evolves_def)
qed

lemma setup_mutexes:
  assumes "setup_at s b c P"
  shows "mutex_at s (s_work_mutex (sk s)) c" "mutex_at s (s_send_mutex (sk s)) 0"
    "ptr_blks (s_work_mutex (sk s)) \<subseteq> P" "ptr_blks (s_send_mutex (sk s)) \<subseteq> P"
  using assms unfolding setup_at_def mutex_at_def by auto

lemma setup_count:
  assumes "setup_at s b c P"
  shows "setup_at (with_count (s_work_mutex (sk s)) c' s) b c' P"
proof -
  obtain w x K As sc ho pa where P: "P = {b, w, x} \<union> set K \<union> slot_blks As" "w \<noteq> x" "blocks s b = Some OSocket"
      "s_work_mutex (sk s) = Ptr w 0" "blocks s w = Some (OMutex c)" "s_send_mutex (sk s) = Ptr x 0" "blocks s x = Some (OMutex 0)"
      "url_at s sc ho pa As" "sc \<noteq> []" "ho \<noteq> []" "pa \<noteq> []" "length (request_text sc ho (s_port (sk s)) pa) < 512"
      "own_bytes (s_sec_ws_accept (sk s)) K s" "set K \<inter> slot_blks As = {}" "s_work_thread (sk s) \<noteq> NULL"
    using assms(1) by (rule setup_atE)
  let ?s = "with_count (s_work_mutex (sk s)) c' s"
  have blk: "blocks ?s k = (if k = w then Some (OMutex c') else blocks s k)" for k
    using P(4) by (simp add: with_count_def set_obj_def)
  have "w \<notin> slot_blks As" using slots_live [OF P(8) [unfolded url_at_def], of w] P(5) by auto
  then have "slots_at ?s [s_scheme (sk s), s_host (sk s), s_path (sk s)] [sc, ho, pa] As"
    by (intro slots_at_cong [OF P(8) [unfolded url_at_def]]) (auto simp: blk)
  then have "url_at ?s sc ho pa As" by (simp add: url_at_def)
  moreover have "w \<notin> set K" using own_bytes_block [OF P(13), of w] P(5) by auto
  then have "own_bytes (s_sec_ws_accept (sk s)) K ?s" by (intro own_bytes_cong [OF P(13)]) (auto simp: blk)
  then have "own_bytes (s_sec_ws_accept (sk ?s)) K ?s" by simp
  moreover have "blocks ?s b = Some OSocket" "blocks ?s w = Some (OMutex c')" "blocks ?s x = Some (OMutex 0)"
    using P(2,3,5,7) by (auto simp: blk)
  moreover have "s_work_mutex (sk ?s) = Ptr w 0" "s_send_mutex (sk ?s) = Ptr x 0" "s_port (sk ?s) = s_port (sk s)"
      "s_work_thread (sk ?s) \<noteq> NULL" using P(4,6,15) by simp_all
  ultimately show ?thesis using P(1,2,9-12,14) unfolding setup_at_def by metis
qed

lemma setup_request:
  assumes "setup_at s b c P"
  shows "request_fits s"
proof -
  obtain As sc ho pa where P: "url_at s sc ho pa As" "sc \<noteq> []" "ho \<noteq> []" "pa \<noteq> []"
      "length (request_text sc ho (s_port (sk s)) pa) < 512"
    using assms unfolding setup_at_def by blast
  then show ?thesis using url_at_strings [OF P(1)] unfolding request_fits_def by (metis str_at_reads reads_as_def)
qed


section \<open>A sound state\<close>

text \<open>
  The session and the blocks beside it; the stage the command says: no socket before the connection
  is made, an empty buffer before it is accepted, and received messages only when they are about to
  be delivered.
\<close>

definition stage_ok :: "rws_socket \<Rightarrow> u8 list \<Rightarrow> (rws_opcode \<times> u8 list) list \<Rightarrow> bool" where
  "stage_ok k bs xs \<longleftrightarrow> (s_command k = COMMAND_CONNECT_TO_HOST \<longrightarrow> s_socket k = RWS_INVALID_SOCKET) \<and>
     (s_command k \<in> {COMMAND_CONNECT_TO_HOST, COMMAND_SEND_HANDSHAKE, COMMAND_WAIT_HANDSHAKE_RESPONCE} \<longrightarrow> bs = []) \<and>
     (xs \<noteq> [] \<longrightarrow> s_command k = COMMAND_IDLE)"

definition joined :: "sys \<Rightarrow> nat \<Rightarrow> nat \<Rightarrow> nat set \<Rightarrow> nat set \<Rightarrow> u8 list \<Rightarrow> (rws_opcode \<times> u8 list) list \<Rightarrow> (rws_opcode \<times> u8 list) list \<Rightarrow> bool" where
  "joined s b c P V bs xs ys \<longleftrightarrow> holds s V bs xs ys \<and> setup_at s b c P \<and> P \<inter> V = {} \<and>
     list_all (\<lambda>x. length (snd x) < 2 ^ 32) xs \<and> list_all (\<lambda>y. length (snd y) < 2 ^ 31) ys"

definition sound :: "nat \<Rightarrow> nat set \<Rightarrow> sys \<Rightarrow> bool" where
  "sound b U s \<longleftrightarrow> (\<exists>P V bs ys. U = P \<union> V \<and> joined s b 0 P V bs [] ys \<and> stage_ok (sk s) bs [])"

lemma soundI: "joined s b 0 P V bs [] ys \<Longrightarrow> stage_ok (sk s) bs [] \<Longrightarrow> sound b (P \<union> V) s"
  unfolding sound_def by blast

lemma joined_step:
  assumes "joined s b c P V bs xs ys" and "holds s' V' bs' xs' ys'" and "goes s V s' V'"
    and "list_all (\<lambda>x. length (snd x) < 2 ^ 32) xs'" and "list_all (\<lambda>y. length (snd y) < 2 ^ 31) ys'"
  shows "joined s' b c P V' bs' xs' ys'" and "evolves (P \<union> V) s (P \<union> V') s'"
  using assms setup_evolves [of s b c P V s' V'] holds_fresh [of s V bs xs ys] by (simp_all add: joined_def)

lemma joined_count:
  assumes "joined s b c P V bs xs ys"
  shows "joined (with_count (s_work_mutex (sk s)) c' s) b c' P V bs xs ys"
    and "evolves (P \<union> V) s (P \<union> V) (with_count (s_work_mutex (sk s)) c' s)"
proof -
  let ?s = "with_count (s_work_mutex (sk s)) c' s"
  have st: "setup_at s b c P" using assms by (simp add: joined_def)
  note mx = setup_mutexes [OF st]
  have "holds ?s V bs xs ys" using assms count_session [OF _ mx(1)] by (auto simp: joined_def elim!: holdsE intro: holdsI)
  then show "joined ?s b c' P V bs xs ys" using assms setup_count [OF st] by (simp add: joined_def)
  show "evolves (P \<union> V) s (P \<union> V) ?s"
  proof (rule evolvesI)
    fix k assume "k \<notin> P \<union> V"
    then have "k \<notin> ptr_blks (s_work_mutex (sk s))" using mx(3) by blast
    then show "k \<notin> P \<union> V \<and> blocks ?s k = blocks s k" using \<open>k \<notin> P \<union> V\<close> by simp
  qed simp
qed

lemma joined_sk:
  assumes "joined s b c P V bs xs ys" and "s_error k = s_error (sk s)" "s_received k = s_received (sk s)"
    "s_received_size k = s_received_size (sk s)" "s_received_len k = s_received_len (sk s)"
    "s_recvd_frames k = s_recvd_frames (sk s)" "s_send_frames k = s_send_frames (sk s)" "same_setup (sk s) k"
  shows "joined (s\<lparr>sk := k\<rparr>) b c P V bs xs ys"
  using assms holds_sk [OF _ assms(2-7)] setup_cong [of s b c P "s\<lparr>sk := k\<rparr>"] by (simp add: joined_def)

text \<open>What the network may do: see \<open>fair_unit\<close>.\<close>

definition buffered :: "sys \<Rightarrow> u8 list option" where
  "buffered s = (if s_received_len (sk s) = 0 then Some [] else load_bytes (s_received (sk s)) (s_received_len (sk s)) s)"

definition fair :: "sys \<Rightarrow> bool" where
  "fair s \<longleftrightarrow> (recv_ok s \<longrightarrow>
     (s_command (sk s) = COMMAND_WAIT_HANDSHAKE_RESPONCE \<longrightarrow>
       recv_data (fst (recv_result s)) = [] \<or> contained (recv_data (fst (recv_result s)))) \<and>
     (s_command (sk s) = COMMAND_IDLE \<longrightarrow>
       (\<forall>bs. buffered s = Some bs \<longrightarrow> list_all fair_unit (fst (take_one check_size (bs @ recv_data (fst (recv_result s))))))))"

lemma buffered_holds:
  assumes "holds s V bs xs ys"
  shows "buffered s = Some bs"
proof -
  obtain D where "buffer_at (blocks s) (sk s) bs D" using assms by (auto simp: session_def elim!: holdsE)
  then show ?thesis using buffer_at_load [of s bs D] buffer_at_len [of "blocks s" "sk s" bs D]
    by (cases "bs = []") (simp_all add: buffered_def)
qed

section \<open>The commands\<close>

lemma holds_mutex: "holds s V bs xs ys \<Longrightarrow> goes s V s' V' \<Longrightarrow> mutex_at s p c \<Longrightarrow> mutex_at s' p c"
  by (auto elim!: holdsE simp: goes_def intro: evolves_mutex)

lemma connect_holds:
  assumes "holds s V [] xs ys" and "s_socket (sk s) = RWS_INVALID_SOCKET"
  shows "\<exists>s' V'. rws_socket_connect_to_host s = Some s' \<and> holds s' V' [] xs ys \<and> goes s V s' V' \<and>
    s_command (sk s') \<in> {COMMAND_SEND_HANDSHAKE, COMMAND_INFORM_DISCONNECTED}"
proof -
  obtain E D ns Fs ms Gs where ses: "session s E [] D ns Fs xs ms Gs ys" "V = foot E D ns Fs ms Gs"
    using assms(1) by (rule holdsE)
  obtain s' E' where "rws_socket_connect_to_host s = Some s'" "session s' E' [] D ns Fs xs ms Gs ys"
      "evolves (foot E D ns Fs ms Gs) s (foot E' D ns Fs ms Gs) s'" "same_setup (sk s) (sk s')"
      "s_command (sk s') \<in> {COMMAND_SEND_HANDSHAKE, COMMAND_INFORM_DISCONNECTED}"
    by (rule connect_any [OF ses(1) assms(2)]) blast
  then show ?thesis unfolding ses(2) by (intro exI [of _ s'] exI [of _ "foot E' D ns Fs ms Gs"]) (simp add: goes_def holdsI)
qed

lemma handshake_holds:
  assumes "holds s V [] xs ys" and "request_fits s"
  shows "\<exists>s' V'. rws_socket_send_handshake s = Some s' \<and> holds s' V' [] xs ys \<and> goes s V s' V' \<and>
    s_command (sk s') \<in> {COMMAND_WAIT_HANDSHAKE_RESPONCE, COMMAND_INFORM_DISCONNECTED}"
proof -
  obtain E D ns Fs ms Gs where ses: "session s E [] D ns Fs xs ms Gs ys" "V = foot E D ns Fs ms Gs"
    using assms(1) by (rule holdsE)
  obtain s' E' where "rws_socket_send_handshake s = Some s'" "session s' E' [] D ns Fs xs ms Gs ys"
      "evolves (foot E D ns Fs ms Gs) s (foot E' D ns Fs ms Gs) s'" "same_setup (sk s) (sk s')"
      "s_command (sk s') \<in> {COMMAND_WAIT_HANDSHAKE_RESPONCE, COMMAND_INFORM_DISCONNECTED}"
    by (rule handshake_any [OF ses(1) assms(2)]) blast
  then show ?thesis unfolding ses(2) by (intro exI [of _ s'] exI [of _ "foot E' D ns Fs ms Gs"]) (simp add: goes_def holdsI)
qed

lemma disconnect_holds:
  assumes "holds s V bs xs ys"
  shows "\<exists>s' V' bs'. rws_socket_send_disconnect s = Some s' \<and> holds s' V' bs' xs ys \<and> goes s V s' V' \<and>
    s_command (sk s') = COMMAND_END"
proof -
  obtain E D ns Fs ms Gs where ses: "session s E bs D ns Fs xs ms Gs ys" "V = foot E D ns Fs ms Gs"
    using assms by (rule holdsE)
  obtain s' E' bs' where "rws_socket_send_disconnect s = Some s'" "session s' E' bs' D ns Fs xs ms Gs ys"
      "evolves (foot E D ns Fs ms Gs) s (foot E' D ns Fs ms Gs) s'" "same_setup (sk s) (sk s')" "s_command (sk s') = COMMAND_END"
    by (rule disconnect_any [OF ses(1)]) blast
  then show ?thesis unfolding ses(2)
    by (intro exI [of _ s'] exI [of _ "foot E' D ns Fs ms Gs"] exI [of _ bs']) (simp add: goes_def holdsI)
qed

lemma refused_holds:
  assumes "holds s V bs xs ys" and "\<not> recv_ok s"
  shows "\<exists>s' V'. rws_socket_wait_handshake_responce s = Some s' \<and> rws_socket_idle_recv s = Some s' \<and>
    holds s' V' [] xs ys \<and> goes s V s' V' \<and> s_command (sk s') = COMMAND_INFORM_DISCONNECTED"
proof -
  obtain E D ns Fs ms Gs where ses: "session s E bs D ns Fs xs ms Gs ys" "V = foot E D ns Fs ms Gs"
    using assms(1) by (rule holdsE)
  obtain s' E' D' where "rws_socket_wait_handshake_responce s = Some s'" "rws_socket_idle_recv s = Some s'"
      "session s' E' [] D' ns Fs xs ms Gs ys" "evolves (foot E D ns Fs ms Gs) s (foot E' D' ns Fs ms Gs) s'"
      "same_setup (sk s) (sk s')" "s_command (sk s') = COMMAND_INFORM_DISCONNECTED"
    by (rule recv_refused_run [OF ses(1) assms(2)]) blast
  then show ?thesis unfolding ses(2)
    by (intro exI [of _ s'] exI [of _ "foot E' D' ns Fs ms Gs"]) (simp add: goes_def holdsI)
qed


text \<open>Waiting for the answer keeps the setup, but for the accept key.\<close>

lemma rekeyed_setup:
  assumes st: "setup_at s b c P" and fresh: "fresh_ok s" and apart: "P \<inter> F = {}"
    and ev: "evolves F s F' s'" and key: "rekeyed s F' s'"
  shows "\<exists>P'. setup_at s' b c P' \<and> P' \<inter> F' = {} \<and> evolves (P \<union> F) s (P' \<union> F') s'"
proof -
  have live: "k < next_blk s" if "k \<in> P" for k using setup_live [OF st that] fresh by (auto simp: fresh_ok_def)
  then have keep: "blocks s' k = blocks s k" "k \<notin> F'" if "k \<in> P" for k
    using ev apart that by (auto simp: evolves_def)
  show ?thesis
  proof (cases "same_setup (sk s) (sk s')")
    case True
    have "setup_at s' b c P" by (rule setup_cong [OF st]) (use keep(1) True in auto)
    moreover have "P \<inter> F' = {}" using keep(2) by blast
    moreover have "evolves (P \<union> F) s (P \<union> F') s'" using ev by (auto simp: evolves_def)
    ultimately show ?thesis by blast
  next
    case False
    then obtain a key where a: "s_sec_ws_accept (sk s') = Ptr a 0" "same_setup ((sk s)\<lparr>s_sec_ws_accept := Ptr a 0\<rparr>) (sk s')"
        "blocks s' a = Some (OBytes (map Some key @ [Some 0]))" "next_blk s \<le> a" "a \<notin> F'"
      using key unfolding rekeyed_def by blast
    obtain w x K As sc ho pa where P: "P = {b, w, x} \<union> set K \<union> slot_blks As" "w \<noteq> x" "blocks s b = Some OSocket"
        "s_work_mutex (sk s) = Ptr w 0" "blocks s w = Some (OMutex c)" "s_send_mutex (sk s) = Ptr x 0" "blocks s x = Some (OMutex 0)"
        "url_at s sc ho pa As" "sc \<noteq> []" "ho \<noteq> []" "pa \<noteq> []" "length (request_text sc ho (s_port (sk s)) pa) < 512"
        "own_bytes (s_sec_ws_accept (sk s)) K s" "set K \<inter> slot_blks As = {}" "s_work_thread (sk s) \<noteq> NULL"
      using st by (rule setup_atE)
    let ?P = "{b, w, x} \<union> set [a] \<union> slot_blks As"
    have k: "s_scheme (sk s') = s_scheme (sk s)" "s_host (sk s') = s_host (sk s)" "s_path (sk s') = s_path (sk s)"
        "s_port (sk s') = s_port (sk s)" "s_work_mutex (sk s') = s_work_mutex (sk s)" "s_send_mutex (sk s') = s_send_mutex (sk s)"
        "s_work_thread (sk s') = s_work_thread (sk s)"
      using a(2) by (simp_all add: same_setup_def)
    have "url_at s' sc ho pa As"
      unfolding url_at_def k using P(8) [unfolded url_at_def] by (rule slots_at_cong) (use keep(1) P(1) in auto)
    moreover have "own_bytes (s_sec_ws_accept (sk s')) [a] s'" using a(1,3) by (auto simp: own_bytes_def)
    moreover have "set [a] \<inter> slot_blks As = {}" using live P(1) a(4) by fastforce
    moreover have "blocks s' b = Some OSocket" "blocks s' w = Some (OMutex c)" "blocks s' x = Some (OMutex 0)"
      using keep(1) P(1,3,5,7) by auto
    ultimately have "setup_at s' b c ?P" using P(2,4,6,9-12,15) unfolding setup_at_def k by metis
    moreover have "?P \<inter> F' = {}" using keep(2) P(1) a(5) by auto
    moreover have "evolves (P \<union> F) s (?P \<union> F') s'" using a(4) ev P(1) by (auto simp: evolves_def)
    ultimately show ?thesis by blast
  qed
qed

lemma wait_holds:
  assumes jn: "joined s b c P V [] xs ys" and fr: "fair s" and cmd: "s_command (sk s) = COMMAND_WAIT_HANDSHAKE_RESPONCE"
  shows "\<exists>s' P' V'. rws_socket_wait_handshake_responce s = Some s' \<and> joined s' b c P' V' [] xs ys \<and>
    evolves (P \<union> V) s (P' \<union> V') s' \<and>
    s_command (sk s') \<in> {COMMAND_WAIT_HANDSHAKE_RESPONCE, COMMAND_INFORM_CONNECTED, COMMAND_INFORM_DISCONNECTED}"
proof -
  have hl: "holds s V [] xs ys" and st: "setup_at s b c P" and apart: "P \<inter> V = {}" and fresh: "fresh_ok s"
    and len: "list_all (\<lambda>x. length (snd x) < 2 ^ 32) xs" "list_all (\<lambda>y. length (snd y) < 2 ^ 31) ys"
    using jn holds_fresh by (auto simp: joined_def)
  let ?data = "recv_data (fst (recv_result s))"
  have thesis_if: ?thesis if "rws_socket_wait_handshake_responce s = Some s'" "holds s' V' [] xs ys" "goes s V s' V'"
      "s_command (sk s') \<in> {COMMAND_WAIT_HANDSHAKE_RESPONCE, COMMAND_INFORM_CONNECTED, COMMAND_INFORM_DISCONNECTED}" for s' V'
    using that joined_step [OF jn that(2,3) len] by blast
  obtain E D ns Fs ms Gs where ses: "session s E [] D ns Fs xs ms Gs ys" "V = foot E D ns Fs ms Gs"
    using hl by (rule holdsE)
  consider (refused) "\<not> recv_ok s" | (empty) "recv_ok s" "?data = []" | (answer) "recv_ok s" "contained ?data"
    using fr cmd unfolding fair_def by blast
  then show ?thesis
  proof cases
    case refused
    then show ?thesis using refused_holds [OF hl] thesis_if by blast
  next
    case empty
    obtain s' D' where s': "rws_socket_wait_handshake_responce s = Some s'" "session s' [] [] D' ns Fs xs ms Gs ys"
        "evolves (foot E D ns Fs ms Gs) s (foot [] D' ns Fs ms Gs) s'" "same_setup (sk s) (sk s')"
        "s_command (sk s') = s_command (sk s)"
      by (rule wait_empty_run [OF ses(1) empty]) blast
    show ?thesis
      by (rule thesis_if [OF s'(1) holdsI [OF s'(2)]]) (use s'(3-5) cmd in \<open>simp_all add: goes_def ses(2)\<close>)
  next
    case answer
    obtain s' E' D' where s': "rws_socket_wait_handshake_responce s = Some s'" "session s' E' [] D' ns Fs xs ms Gs ys"
        "s_command (sk s') \<in> {COMMAND_INFORM_CONNECTED, COMMAND_INFORM_DISCONNECTED}"
        "evolves (foot E D ns Fs ms Gs) s (foot E' D' ns Fs ms Gs) s'" "rekeyed s (foot E' D' ns Fs ms Gs) s'"
      by (rule wait_contained_run [OF ses(1) answer])
    obtain P' where "setup_at s' b c P'" "P' \<inter> foot E' D' ns Fs ms Gs = {}"
        "evolves (P \<union> V) s (P' \<union> foot E' D' ns Fs ms Gs) s'"
      using rekeyed_setup [OF st fresh apart [unfolded ses(2)] s'(4,5)] ses(2) by auto
    moreover from this(1,2) have "joined s' b c P' (foot E' D' ns Fs ms Gs) [] xs ys"
      using holdsI [OF s'(2)] len by (simp add: joined_def)
    ultimately show ?thesis using s'(1,3) by blast
  qed
qed

text \<open>The three parts of an idle round: a ping when its turn has come, the queue, one read.\<close>

lemma ping_holds:
  assumes "holds s V bs xs ys" and "list_all (\<lambda>y. length (snd y) < 2 ^ 31) ys"
  shows "\<exists>s' V' ys'. rws_socket_send_ping s = Some s' \<and> holds s' V' bs xs ys' \<and> goes s V s' V' \<and>
    list_all (\<lambda>y. length (snd y) < 2 ^ 31) ys' \<and> s_command (sk s') = s_command (sk s) \<and>
    s_is_connected (sk s') = s_is_connected (sk s) \<and> s_socket (sk s') = s_socket (sk s) \<and> ev s' = ev s"
proof -
  obtain E D ns Fs ms Gs where ses: "session s E bs D ns Fs xs ms Gs ys" "V = foot E D ns Fs ms Gs"
    using assms(1) by (rule holdsE)
  let ?y = "(rws_opcode_ping, ready_bytes rws_opcode_ping (id_text s) s)"
  obtain s' b F p where s': "rws_socket_send_ping s = Some s'" "session s' E bs D ns Fs xs (ms @ [b]) (Gs @ [F]) (ys @ [?y])"
      "sk s' = (sk (bump_id s))\<lparr>s_send_frames := p\<rparr>" "ev s' = ev s"
      "evolves (foot E D ns Fs ms Gs) s (foot E D ns Fs (ms @ [b]) (Gs @ [F])) s'"
    by (rule send_ping_run [OF ses(1)]) blast
  have "length (snd ?y) \<le> 14 + 10"
    using length_encode_frame [of "made_key s" "unat (rws_opcode_ping :: rws_opcode)" "id_text s"] sprint_id_run(2) [of "next_id s"]
    by (simp add: ready_bytes_def)
  then have "list_all (\<lambda>y. length (snd y) < 2 ^ 31) (ys @ [?y])" using assms(2) by simp
  then show ?thesis using s'(1,3-5) holdsI [OF s'(2)] unfolding ses(2)
    by (intro exI [of _ s'] exI [of _ "foot E D ns Fs (ms @ [b]) (Gs @ [F])"] exI [of _ "ys @ [?y]"])
      (simp add: goes_def same_setup_def)
qed

lemma send_holds:
  assumes "holds s V bs xs ys" and "mutex_at s (s_send_mutex (sk s)) c" and "list_all (\<lambda>y. length (snd y) < 2 ^ 31) ys"
  shows "\<exists>s' V' bs'. rws_socket_idle_send s = Some s' \<and> holds s' V' bs' xs [] \<and> goes s V s' V' \<and>
    s_command (sk s') \<in> {s_command (sk s), COMMAND_INFORM_DISCONNECTED} \<and>
    (s_is_connected (sk s') \<longrightarrow> bs' = bs \<and> s_socket (sk s') = s_socket (sk s) \<and> s_command (sk s') = s_command (sk s)) \<and>
    env_recv (ev s') = env_recv (ev s)"
proof -
  obtain E D ns Fs ms Gs where ses: "session s E bs D ns Fs xs ms Gs ys" "V = foot E D ns Fs ms Gs"
    using assms(1) by (rule holdsE)
  obtain s' E' bs' where s': "rws_socket_idle_send s = Some s'" "session s' E' bs' D ns Fs xs [] [] []"
      "evolves (foot E D ns Fs ms Gs) s (foot E' D ns Fs [] []) s'" "same_setup (sk s) (sk s')"
      "s_command (sk s') \<in> {s_command (sk s), COMMAND_INFORM_DISCONNECTED}"
      "s_is_connected (sk s') \<Longrightarrow> bs' = bs \<and> s_socket (sk s') = s_socket (sk s)" "env_recv (ev s') = env_recv (ev s)"
      "s_is_connected (sk s') \<Longrightarrow> s_is_connected (sk s) \<and> s_command (sk s') = s_command (sk s)"
    by (rule idle_send_any [OF ses(1) assms(2,3)]) blast
  then show ?thesis using holdsI [OF s'(2)] unfolding ses(2)
    by (intro exI [of _ s'] exI [of _ "foot E' D ns Fs [] []"] exI [of _ bs']) (simp add: goes_def)
qed

lemma recv_holds:
  assumes hl: "holds s V bs [] ys" and len: "list_all (\<lambda>y. length (snd y) < 2 ^ 31) ys" and cmd: "s_command (sk s) = COMMAND_IDLE"
    and fr: "recv_ok s \<Longrightarrow> list_all fair_unit (fst (take_one check_size (bs @ recv_data (fst (recv_result s)))))"
  shows "\<exists>s' V' bs' xs' ys'. rws_socket_idle_recv s = Some s' \<and> holds s' V' bs' xs' ys' \<and> goes s V s' V' \<and>
    list_all (\<lambda>x. length (snd x) < 2 ^ 32) xs' \<and> list_all (\<lambda>y. length (snd y) < 2 ^ 31) ys' \<and> stage_ok (sk s') bs' xs'"
proof (cases "recv_ok s")
  case False
  then show ?thesis using refused_holds [OF hl False] len by (fastforce simp: stage_ok_def)
next
  case True
  obtain E D ns Fs ms Gs where ses: "session s E bs D ns Fs [] ms Gs ys" "V = foot E D ns Fs ms Gs"
    using hl by (rule holdsE)
  let ?all = "bs @ recv_data (fst (recv_result s))"
  let ?us = "fst (take_one check_size ?all)"
  have reg: "list_all regular ?us" using fr [OF True] by (auto simp: list_all_iff fair_unit_def)
  obtain s' E' D' ns' Fs' ms' Gs' key where s': "rws_socket_idle_recv s = Some s'" "length key = 4"
      "session s' E' (snd (take_one check_size ?all)) D' ns' Fs' ([] @ concat (map message_of ?us)) ms' Gs'
        (ys @ concat (map (answer_of key) ?us))"
      "s_command (sk s') = (if 8 \<in> set (map opcode_of ?us) then COMMAND_INFORM_DISCONNECTED else s_command (sk s))"
      "same_setup (sk s) (sk s')" "evolves (foot E D ns Fs ms Gs) s (foot E' D' ns' Fs' ms' Gs') s'"
    by (rule idle_recv_run [OF ses(1) True refl reg]) blast
  have "list_all (\<lambda>y. length (snd y) < 2 ^ 31) (ys @ concat (map (answer_of key) ?us))"
      "list_all (\<lambda>x. length (snd x) < 2 ^ 32) ([] @ concat (map message_of ?us))"
    using len fair_answers [OF fr [OF True] s'(2)] by simp_all
  moreover have "stage_ok (sk s') (snd (take_one check_size ?all)) ([] @ concat (map message_of ?us))"
    using s'(4) cmd by (auto simp: stage_ok_def take_one_def message_of_def)
  moreover have "goes s V s' (foot E' D' ns' Fs' ms' Gs')" using s'(5,6) by (simp add: goes_def ses(2))
  ultimately show ?thesis using s'(1) holdsI [OF s'(3)] by blast
qed

lemma idle_joined:
  assumes jn: "joined s b c P V bs [] ys" and fr: "fair s" and cmd: "s_command (sk s) = COMMAND_IDLE"
  shows "\<exists>n' s' V' bs' xs' ys'. work_command n s = Some (n', s') \<and> joined s' b c P V' bs' xs' ys' \<and>
    evolves (P \<union> V) s (P \<union> V') s' \<and> stage_ok (sk s') bs' xs'"
proof -
  have hl: "holds s V bs [] ys" and st: "setup_at s b c P" and len: "list_all (\<lambda>y. length (snd y) < 2 ^ 31) ys"
    using jn by (simp_all add: joined_def)
  have data: "recv_ok s \<Longrightarrow> list_all fair_unit (fst (take_one check_size (bs @ recv_data (fst (recv_result s)))))"
    using fr cmd buffered_holds [OF hl] by (simp add: fair_def)
  let ?ping = "\<lambda>s. if s_is_connected (sk s) then rws_socket_send_ping s else Some s"
  obtain n1 s1 V1 ys1 where s1: "(if 400 \<le> n then do { s \<leftarrow> ?ping s; Some (0, s) } else Some (n, s)) = Some (n1, s1)"
      "holds s1 V1 bs [] ys1" "goes s V s1 V1" "list_all (\<lambda>y. length (snd y) < 2 ^ 31) ys1" "s_command (sk s1) = COMMAND_IDLE"
      "s_is_connected (sk s1) = s_is_connected (sk s)" "s_socket (sk s1) = s_socket (sk s)" "ev s1 = ev s"
  proof (cases "400 \<le> n \<and> s_is_connected (sk s)")
    case True
    with ping_holds [OF hl len] that [of 0] show thesis using cmd by auto
  next
    case False
    with that [of "if 400 \<le> n then 0 else n" s V ys] show thesis using hl len cmd by auto
  qed
  show ?thesis
  proof (cases "s_is_connected (sk s1)")
    case False
    then have "work_command n s = Some (n1, s1)" using cmd s1(1) by (simp add: work_command_def)
    moreover have "stage_ok (sk s1) bs []" using s1(5) by (simp add: stage_ok_def)
    ultimately show ?thesis using joined_step [OF jn s1(2,3) _ s1(4)] by auto
  next
    case True
    have "mutex_at s1 (s_send_mutex (sk s1)) 0"
      using holds_mutex [OF hl s1(3) setup_mutexes(2) [OF st]] s1(3) by (simp add: goes_def same_setup_def)
    from send_holds [OF s1(2) this s1(4)] obtain s2 V2 bs2 where s2: "rws_socket_idle_send s1 = Some s2" "holds s2 V2 bs2 [] []"
        "goes s1 V1 s2 V2" "s_command (sk s2) \<in> {COMMAND_IDLE, COMMAND_INFORM_DISCONNECTED}"
        "s_is_connected (sk s2) \<longrightarrow> bs2 = bs \<and> s_socket (sk s2) = s_socket (sk s) \<and> s_command (sk s2) = COMMAND_IDLE"
        "env_recv (ev s2) = env_recv (ev s)"
      using s1(5,7,8) by auto
    have g2: "goes s V s2 V2" using s1(3) s2(3) by (rule goes_trans)
    show ?thesis
    proof (cases "s_is_connected (sk s2)")
      case conn: False
      then have "work_command n s = Some (n1, s2)" using cmd s1(1) s2(1) True by (simp add: work_command_def)
      moreover have "stage_ok (sk s2) bs2 []" using s2(4) by (auto simp: stage_ok_def)
      ultimately show ?thesis using joined_step [OF jn s2(2) g2] by auto
    next
      case conn: True
      have "recv_result s2 = recv_result s" using s2(5,6) conn by (simp add: recv_result_def)
      then have "recv_ok s2 \<Longrightarrow> list_all fair_unit (fst (take_one check_size (bs2 @ recv_data (fst (recv_result s2)))))"
        using data s2(5) conn by (simp add: recv_ok_def)
      then obtain s3 V3 bs3 xs3 ys3 where s3: "rws_socket_idle_recv s2 = Some s3" "holds s3 V3 bs3 xs3 ys3" "goes s2 V2 s3 V3"
          "list_all (\<lambda>x. length (snd x) < 2 ^ 32) xs3" "list_all (\<lambda>y. length (snd y) < 2 ^ 31) ys3" "stage_ok (sk s3) bs3 xs3"
        using recv_holds [OF s2(2)] s2(5) conn by auto
      have "work_command n s = Some (n1, s3)" using cmd s1(1) s2(1) s3(1) True conn by (simp add: work_command_def)
      then show ?thesis using joined_step [OF jn s3(2) goes_trans [OF g2 s3(3)] s3(4,5)] s3(6) by blast
    qed
  qed
qed


lemma command_joined:
  assumes jn: "joined s b c P V bs [] ys" and stg: "stage_ok (sk s) bs []" and fr: "fair s"
  shows "\<exists>n' s' P' V' bs' xs' ys'. work_command n s = Some (n', s') \<and> joined s' b c P' V' bs' xs' ys' \<and>
    evolves (P \<union> V) s (P' \<union> V') s' \<and> stage_ok (sk s') bs' xs'"
proof -
  have hl: "holds s V bs [] ys" and st: "setup_at s b c P" and len: "list_all (\<lambda>y. length (snd y) < 2 ^ 31) ys"
    using jn by (simp_all add: joined_def)
  have step: ?thesis if "work_command n s = Some (n, s')" "holds s' V' bs' [] ys" "goes s V s' V'" "stage_ok (sk s') bs' []" for s' V' bs'
    using joined_step [OF jn that(2,3) _ len] that(1,4) by (metis list.pred_inject(1))
  consider (connect) "s_command (sk s) = COMMAND_CONNECT_TO_HOST" | (handshake) "s_command (sk s) = COMMAND_SEND_HANDSHAKE"
    | (wait) "s_command (sk s) = COMMAND_WAIT_HANDSHAKE_RESPONCE" | (disconnect) "s_command (sk s) = COMMAND_DISCONNECT"
    | (idle) "s_command (sk s) = COMMAND_IDLE"
    | (other) "s_command (sk s) \<notin> {COMMAND_CONNECT_TO_HOST, COMMAND_SEND_HANDSHAKE, COMMAND_WAIT_HANDSHAKE_RESPONCE,
        COMMAND_DISCONNECT, COMMAND_IDLE}" by blast
  then show ?thesis
  proof cases
    case connect
    then have "holds s V [] [] ys" "s_socket (sk s) = RWS_INVALID_SOCKET" using hl stg by (simp_all add: stage_ok_def)
    from connect_holds [OF this] obtain s' V' where s': "rws_socket_connect_to_host s = Some s'" "holds s' V' [] [] ys"
        "goes s V s' V'" "s_command (sk s') \<in> {COMMAND_SEND_HANDSHAKE, COMMAND_INFORM_DISCONNECTED}" by blast
    show ?thesis by (rule step [OF _ s'(2,3)]) (use connect s'(1,4) in \<open>auto simp: work_command_def stage_ok_def\<close>)
  next
    case handshake
    then have "holds s V [] [] ys" using hl stg by (simp add: stage_ok_def)
    from handshake_holds [OF this setup_request [OF st]] obtain s' V' where s': "rws_socket_send_handshake s = Some s'"
        "holds s' V' [] [] ys" "goes s V s' V'" "s_command (sk s') \<in> {COMMAND_WAIT_HANDSHAKE_RESPONCE, COMMAND_INFORM_DISCONNECTED}"
      by blast
    show ?thesis by (rule step [OF _ s'(2,3)]) (use handshake s'(1,4) in \<open>auto simp: work_command_def stage_ok_def\<close>)
  next
    case wait
    then have "joined s b c P V [] [] ys" using jn stg by (simp add: stage_ok_def)
    from wait_holds [OF this fr wait] obtain s' P' V' where s': "rws_socket_wait_handshake_responce s = Some s'"
        "joined s' b c P' V' [] [] ys" "evolves (P \<union> V) s (P' \<union> V') s'"
        "s_command (sk s') \<in> {COMMAND_WAIT_HANDSHAKE_RESPONCE, COMMAND_INFORM_CONNECTED, COMMAND_INFORM_DISCONNECTED}" by blast
    have "work_command n s = Some (n, s')" "stage_ok (sk s') [] []" using wait s'(1,4) by (auto simp: work_command_def stage_ok_def)
    then show ?thesis using s'(2,3) by blast
  next
    case disconnect
    from disconnect_holds [OF hl] obtain s' V' bs' where s': "rws_socket_send_disconnect s = Some s'" "holds s' V' bs' [] ys"
        "goes s V s' V'" "s_command (sk s') = COMMAND_END" by blast
    show ?thesis by (rule step [OF _ s'(2,3)]) (use disconnect s'(1,4) in \<open>auto simp: work_command_def stage_ok_def\<close>)
  next
    case idle
    then show ?thesis using idle_joined [OF jn fr idle, of n] by blast
  next
    case other
    then show ?thesis by (intro step [OF _ hl goes_refl stg]) (simp add: work_command_def)
  qed
qed

section \<open>The application\<close>

text \<open>
  The callbacks of an application may use the socket as long as they leave it sound.  While messages
  are delivered the queue of received frames is being taken apart, so it is left out of what a callback
  finds (\<open>park NULL\<close>) and must not be touched by it; the public functions do not.
\<close>

definition civil :: "user_code \<Rightarrow> nat \<Rightarrow> bool" where
  "civil user b \<longleftrightarrow> (\<forall>e U s. sound b U (park NULL s) \<longrightarrow>
     (\<exists>s' U'. user e s = Some s' \<and> sound b U' (park NULL s') \<and> evolves U s U' s' \<and>
       s_recvd_frames (sk s') = s_recvd_frames (sk s)))"

lemma joined_trace:
  assumes "joined s b c P V bs xs ys"
  shows "joined (s\<lparr>trace := t\<rparr>) b c P V bs xs ys"
proof -
  obtain E D ns Fs ms Gs where ses: "session s E bs D ns Fs xs ms Gs ys" "V = foot E D ns Fs ms Gs"
    using assms by (auto simp: joined_def elim: holdsE)
  have "session (s\<lparr>trace := t\<rparr>) E bs D ns Fs xs ms Gs ys"
    by (rule session_cong [OF ses(1)]) (use ses(1) in \<open>simp_all add: session_def\<close>)
  then have "holds (s\<lparr>trace := t\<rparr>) V bs xs ys" unfolding ses(2) by (rule holdsI)
  moreover have st: "setup_at s b c P" using assms by (simp add: joined_def)
  have "setup_at (s\<lparr>trace := t\<rparr>) b c P" by (rule setup_cong [OF st]) simp_all
  ultimately show ?thesis using assms by (simp add: joined_def)
qed

lemma sound_trace:
  assumes "sound b U s"
  shows "sound b U (s\<lparr>trace := t\<rparr>)"
proof -
  obtain P V bs ys where U: "U = P \<union> V" and jn: "joined s b 0 P V bs [] ys" and stg: "stage_ok (sk s) bs []"
    using assms by (auto simp: sound_def)
  show ?thesis unfolding U by (rule soundI [OF joined_trace [OF jn]]) (use stg in simp)
qed

lemma sound_cong:
  assumes so: "sound b U s" and s': "fresh_ok s'" "\<And>k. k \<in> U \<Longrightarrow> blocks s' k = blocks s k" "sk s' = sk s"
  shows "sound b U s'"
proof -
  obtain P V bs ys where U: "U = P \<union> V" and jn: "joined s b 0 P V bs [] ys" and stg: "stage_ok (sk s) bs []"
    using so by (auto simp: sound_def)
  obtain E D ns Fs ms Gs where ses: "session s E bs D ns Fs [] ms Gs ys" "V = foot E D ns Fs ms Gs"
    using jn by (auto simp: joined_def elim: holdsE)
  have "session s' E bs D ns Fs [] ms Gs ys" by (rule session_cong [OF ses(1) s'(1)]) (simp_all add: s' U ses(2))
  then have "holds s' V bs [] ys" unfolding ses(2) by (rule holdsI)
  moreover have st: "setup_at s b 0 P" using jn by (simp add: joined_def)
  have "setup_at s' b 0 P" by (rule setup_cong [OF st]) (simp_all add: s' U)
  ultimately have "joined s' b 0 P V bs [] ys" using jn by (simp add: joined_def)
  then show ?thesis unfolding U by (rule soundI) (simp add: s' stg)
qed

lemma sound_parked: "sound b U s \<Longrightarrow> park NULL s = s"
  by (rule park_self) (auto simp: sound_def joined_def session_def queue_holds_def queue_at_def elim!: holdsE)

lemma sound_fresh: "sound b U s \<Longrightarrow> fresh_ok s"
  using holds_fresh by (auto simp: sound_def joined_def)

lemma report_parked:
  assumes "civil user b" and so: "sound b U (park NULL s)"
  shows "\<exists>s' U'. call_user user e s = Some s' \<and> sound b U' (park NULL s') \<and> evolves U s U' s' \<and>
    s_recvd_frames (sk s') = s_recvd_frames (sk s)"
proof -
  let ?s = "s\<lparr>trace := trace s @ [e]\<rparr>"
  have eq: "park NULL ?s = (park NULL s)\<lparr>trace := trace s @ [e]\<rparr>" by (simp add: park_def)
  have "sound b U (park NULL ?s)" unfolding eq by (rule sound_trace [OF so])
  then obtain s' U' where "user e ?s = Some s'" "sound b U' (park NULL s')" "evolves U ?s U' s'"
      "s_recvd_frames (sk s') = s_recvd_frames (sk ?s)"
    using assms(1) unfolding civil_def by blast
  then show ?thesis by (auto simp: call_user_def)
qed

lemma report_sound:
  assumes user: "civil user b" and so: "sound b U s"
  shows "\<exists>s' U'. call_user user e s = Some s' \<and> sound b U' s' \<and> evolves U s U' s'"
proof -
  note self = sound_parked [OF so]
  have "sound b U (park NULL s)" using so self by simp
  then obtain s' U' where s': "call_user user e s = Some s'" "sound b U' (park NULL s')" "evolves U s U' s'"
      "s_recvd_frames (sk s') = s_recvd_frames (sk s)" using report_parked [OF user] by blast
  have "s_recvd_frames (sk s) = NULL" using arg_cong [OF self, of "\<lambda>s. s_recvd_frames (sk s)"] by simp
  then have "park NULL s' = s'" using s'(4) by (intro park_self) simp
  then show ?thesis using s'(1-3) by auto
qed

subsection \<open>Delivery to such an application\<close>

lemma deliver_any:
  assumes user: "civil user b" and so: "sound b U (park NULL s)" and car: "carries (blocks s) F x" and len: "length (snd x) < 2 ^ 32"
  shows "\<exists>s' U'. deliver_frame user (fst F) s = Some s' \<and> sound b U' (park NULL s') \<and> evolves U s U' s' \<and>
    s_recvd_frames (sk s') = s_recvd_frames (sk s)"
proof -
  have bytes: "callback_bytes (fst F) s = Some (snd x)" by (rule carries_bytes [OF car len])
  have "(\<exists>e. deliver_frame user (fst F) s = call_user user e s) \<or> deliver_frame user (fst F) s = Some s"
    unfolding deliver_frame_def using bytes by (auto split: if_split)
  then consider (call) e where "deliver_frame user (fst F) s = call_user user e s" | (pass) "deliver_frame user (fst F) s = Some s" by blast
  then show ?thesis
  proof cases
    case call
    then show ?thesis using report_parked [OF user so, of e] by simp
  next
    case pass
    then show ?thesis using so by (intro exI [of _ s] exI [of _ U]) simp
  qed
qed

lemma inform_loop_any:
  assumes user: "civil user b"
  shows "sound b U (park NULL s) \<Longrightarrow> nodes_at (blocks s) p ns \<Longrightarrow>
    list_all2 (\<lambda>n F. frame_at (snd n) (fst F) (snd F) (blocks s)) ns Fs \<Longrightarrow> list_all2 (carries (blocks s)) Fs xs \<Longrightarrow>
    distinct (queue_blks ns Fs) \<Longrightarrow> set (queue_blks ns Fs) \<inter> U = {} \<Longrightarrow> list_all (\<lambda>x. length (snd x) < 2 ^ 32) xs \<Longrightarrow>
    \<exists>s' U'. inform_loop user p r s = Some (r, s') \<and> sound b U' (park NULL s') \<and> nodes_at (blocks s') p (emptied ns) \<and>
      node_blks ns \<inter> U' = {} \<and> s_recvd_frames (sk s') = s_recvd_frames (sk s) \<and>
      evolves (U \<union> set (queue_blks ns Fs)) s (U' \<union> node_blks ns) s'"
proof (induction ns arbitrary: p Fs xs s U)
  case Nil
  then have "p = NULL" by simp
  with Nil(1) show ?case by (intro exI [of _ s] exI [of _ U]) (subst inform_loop.simps, simp add: emptied_def evolves_def)
next
  case (Cons n ns)
  obtain a v where n: "n = (a, v)" by (cases n)
  obtain F Fs' where Fs: "Fs = F # Fs'" using Cons.prems(3) by (cases Fs) auto
  obtain x xs' where xs: "xs = x # xs'" using Cons.prems(4) Fs by (cases xs) auto
  have at: "frame_at v (fst F) (snd F) (blocks s)" and ats: "list_all2 (\<lambda>n F. frame_at (snd n) (fst F) (snd F) (blocks s)) ns Fs'"
    and car: "carries (blocks s) F x" and cars: "list_all2 (carries (blocks s)) Fs' xs'"
    and len: "length (snd x) < 2 ^ 32" and lens: "list_all (\<lambda>x. length (snd x) < 2 ^ 32) xs'"
    using Cons.prems n Fs xs by auto
  from Cons.prems(2) n obtain y where y: "p = Ptr a 0" "blocks s a = Some (ONode y)" "n_value y = v"
      "nodes_at (blocks s) (n_next y) ns" by auto
  have qb: "set (queue_blks (n # ns) Fs) = {a} \<union> set (snd F) \<union> set (queue_blks ns Fs')" using n Fs by (auto simp: queue_blks_def)
  have dist: "a \<notin> set (queue_blks ns Fs')" "a \<notin> set (snd F)" "set (snd F) \<inter> set (queue_blks ns Fs') = {}"
      "distinct (queue_blks ns Fs')"
    using Cons.prems(5) n Fs by (auto simp: queue_blks_def)
  obtain s1 U1 where s1: "deliver_frame user (fst F) s = Some s1" "sound b U1 (park NULL s1)" "evolves U s U1 s1"
      "s_recvd_frames (sk s1) = s_recvd_frames (sk s)"
    using deliver_any [OF user Cons.prems(1) car len] by blast
  have fresh: "fresh_ok s" "fresh_ok s1" using sound_fresh [OF Cons.prems(1)] sound_fresh [OF s1(2)] by simp_all
  have "queue_at (blocks s) p (n # ns) Fs" using Cons.prems(2,3,5) by (simp add: queue_at_def)
  then have keep: "blocks s1 k = blocks s k \<and> k \<notin> U1 \<and> k < next_blk s" if "k \<in> set (queue_blks (n # ns) Fs)" for k
    using that s1(3) Cons.prems(6) queue_at_live [of "blocks s" p "n # ns" Fs k] fresh(1) by (auto simp: evolves_def fresh_ok_def)
  from frame_at_Ptr [OF at] obtain c C where c: "v = Ptr c 0" "blocks s c = Some (OFrame (fst F))" by auto
  have fin: "f_is_finished (fst F)" using car by (simp add: carries_def)
  have at1: "frame_at v (fst F) (snd F) (blocks s1)" using at frame_at_cong [of "snd F" "blocks s1" "blocks s"] keep qb by simp
  have a1: "blocks s1 a = Some (ONode y)" using keep [of a] y(2) qb by simp
  let ?B = "(\<lambda>k. if k \<in> set (snd F) then None else blocks s1 k)(a \<mapsto> ONode (y\<lparr>n_value := NULL\<rparr>))"
  let ?s2 = "set_heap ?B (next_blk s1) s1"
  have step: "inform_loop user p r s = inform_loop user (n_next y) r ?s2"
    using y c fin s1(1) rws_frame_delete_run [OF at1] a1 dist(2)
    by (subst inform_loop.simps) (simp add: run_simps)
  have so2: "sound b U1 (park NULL ?s2)"
  proof (rule sound_cong [OF s1(2)])
    show "fresh_ok (park NULL ?s2)" using fresh(2) a1 by (auto simp: fresh_ok_def)
    show "blocks (park NULL ?s2) k = blocks (park NULL s1) k" if "k \<in> U1" for k using that keep qb by auto
  qed simp
  have keep2: "blocks ?s2 k = blocks s k" if "k \<in> set (queue_blks ns Fs')" for k using that dist keep [of k] qb by auto
  have n1: "nodes_at (blocks ?s2) (n_next y) ns"
    using y(4) keep2 nodes_at_cong [of ns "blocks ?s2" "blocks s"] node_blks_sub by (metis (no_types, lifting))
  have n2: "list_all2 (\<lambda>n F. frame_at (snd n) (fst F) (snd F) (blocks ?s2)) ns Fs'"
    using ats keep2 frames_cong [of Fs' "blocks ?s2" "blocks s" ns] by (auto simp: queue_blks_def)
  have n3: "list_all2 (carries (blocks ?s2)) Fs' xs'"
  proof (rule carries_list_cong [OF _ cars])
    fix F k assume "F \<in> set Fs'" "k \<in> set (snd F)"
    then show "blocks ?s2 k = blocks s k" by (intro keep2) (auto simp: queue_blks_def)
  qed
  have n4: "set (queue_blks ns Fs') \<inter> U1 = {}" using keep qb by auto
  from Cons.IH [OF so2 n1 n2 n3 dist(4) n4 lens] obtain s' U' where s': "inform_loop user (n_next y) r ?s2 = Some (r, s')"
      "sound b U' (park NULL s')" "nodes_at (blocks s') (n_next y) (emptied ns)" "node_blks ns \<inter> U' = {}"
      "s_recvd_frames (sk s') = s_recvd_frames (sk ?s2)" "evolves (U1 \<union> set (queue_blks ns Fs')) ?s2 (U' \<union> node_blks ns) s'" by blast
  have next1: "next_blk s \<le> next_blk s1" using s1(3) by (simp add: evolves_def)
  have stay: "k \<notin> U' \<union> node_blks ns \<and> blocks s' k = ?B k" if "k < next_blk s1" "k \<notin> U1" "k \<notin> set (queue_blks ns Fs')" for k
    using s'(6) that by (auto simp: evolves_def)
  have "a < next_blk s1" "a \<notin> U1" using keep [of a] qb next1 by auto
  then have a': "a \<notin> U'" "blocks s' a = Some (ONode (y\<lparr>n_value := NULL\<rparr>))" using stay [of a] dist(1) by auto
  have "evolves (U \<union> set (queue_blks (n # ns) Fs)) s (U' \<union> node_blks (n # ns)) s'"
  proof (rule evolvesI)
    show "next_blk s \<le> next_blk s'" using next1 s'(6) by (simp add: evolves_def)
    fix k assume k: "k < next_blk s" "k \<notin> U \<union> set (queue_blks (n # ns) Fs)"
    then have "k \<notin> U1" "blocks s1 k = blocks s k" using s1(3) by (auto simp: evolves_def)
    then show "k \<notin> U' \<union> node_blks (n # ns) \<and> blocks s' k = blocks s k" using k stay [of k] next1 n qb by auto
  qed
  moreover have "nodes_at (blocks s') p (emptied (n # ns))" using y(1) a' s'(3) n by (simp add: emptied_def)
  moreover have "node_blks (n # ns) \<inter> U' = {}" using s'(4) a'(1) n by auto
  ultimately show ?case using step s'(1,2,5) s1(4) by auto
qed

lemma inform_any:
  assumes jn: "joined s b 0 P V bs xs ys" and stg: "stage_ok (sk s) bs xs" and user: "civil user b"
  shows "\<exists>s' U'. rws_socket_inform_recvd_frames user s = Some s' \<and> sound b U' s' \<and> evolves (P \<union> V) s U' s'"
proof -
  obtain E D ns Fs ms Gs where ses: "session s E bs D ns Fs xs ms Gs ys" "V = foot E D ns Fs ms Gs"
    using jn by (auto simp: joined_def elim: holdsE)
  have st: "setup_at s b 0 P" and apart: "P \<inter> V = {}" and len: "list_all (\<lambda>x. length (snd x) < 2 ^ 32) xs"
    using jn by (simp_all add: joined_def)
  let ?U = "P \<union> foot E D [] [] ms Gs" and ?r = "s_recvd_frames (sk s)"
  have ses0: "session (park NULL s) E bs D [] [] [] ms Gs ys"
    by (rule session_drop_recvd [OF ses(1)]) (use ses(1) in \<open>simp_all add: session_def\<close>)
  have "setup_at (park NULL s) b 0 P" by (rule setup_cong [OF st]) (simp_all add: same_setup_def)
  then have "joined (park NULL s) b 0 P (foot E D [] [] ms Gs) bs [] ys"
    using holdsI [OF ses0] jn apart ses(2) by (auto simp: joined_def)
  then have so: "sound b ?U (park NULL s)" by (rule soundI) (use stg in \<open>simp add: stage_ok_def\<close>)
  have at: "nodes_at (blocks s) ?r ns" "distinct (queue_blks ns Fs)"
    "list_all2 (\<lambda>n F. frame_at (snd n) (fst F) (snd F) (blocks s)) ns Fs" "list_all2 (carries (blocks s)) Fs xs"
    using ses(1) by (simp_all add: session_def queue_holds_def queue_at_def)
  have "set (queue_blks ns Fs) \<inter> ?U = {}" using ses apart by (auto simp: session_def)
  from inform_loop_any [OF user so at(1,3,4,2) this len, of True] obtain s1 U1 where s1: "inform_loop user ?r True s = Some (True, s1)"
      "sound b U1 (park NULL s1)" "nodes_at (blocks s1) ?r (emptied ns)" "node_blks ns \<inter> U1 = {}" "s_recvd_frames (sk s1) = ?r"
      "evolves (?U \<union> set (queue_blks ns Fs)) s (U1 \<union> node_blks ns) s1" by blast
  let ?s' = "park NULL (set_heap (\<lambda>k. if k \<in> node_blks ns then None else blocks s1 k) (next_blk s1) s1)"
  have run: "rws_socket_inform_recvd_frames user s = Some ?s'"
    using s1(1,5) rws_list_delete_run [OF s1(3)]
    by (simp add: rws_socket_inform_recvd_frames_def rws_list_delete_clean_def park_def cong del: if_weak_cong)
  have "fresh_ok s1" using sound_fresh [OF s1(2)] by simp
  then have "fresh_ok ?s'" by (auto simp: fresh_ok_def)
  then have "sound b U1 ?s'" by (rule sound_cong [OF s1(2)]) (use s1(4) in auto)
  moreover have "evolves (P \<union> V) s U1 ?s'" using s1(6) by (auto simp: evolves_def ses(2))
  ultimately show ?thesis using run by blast
qed

lemma error_code_holds:
  assumes "holds s V bs xs ys"
  shows "\<exists>code. error_code_of s = Some code"
proof -
  obtain E where "err_own s E" using assms by (auto simp: session_def elim!: holdsE)
  then show ?thesis using error_at_code [of "s_error (sk s)" _ E s]
    by (cases "s_error (sk s) = NULL") (auto simp: err_own_def error_code_of_def rws_error_get_code_def)
qed

lemma branch_sound:
  assumes jn: "joined s b 0 P V bs xs ys" and stg: "stage_ok (sk s) bs xs" and user: "civil user b"
    and late: "xs \<noteq> [] \<Longrightarrow> c = COMMAND_IDLE"
  shows "\<exists>s' U'. inform_branch user c s = Some s' \<and> sound b U' s' \<and> evolves (P \<union> V) s U' s'"
proof -
  have hl: "holds s V bs xs ys" and len: "list_all (\<lambda>x. length (snd x) < 2 ^ 32) xs" "list_all (\<lambda>y. length (snd y) < 2 ^ 31) ys"
    using jn by (simp_all add: joined_def)
  have nil: "list_all (\<lambda>x. length (snd x) < 2 ^ 32) ([] :: (rws_opcode \<times> u8 list) list)" by simp
  consider (connected) "c = COMMAND_INFORM_CONNECTED" | (disconnected) "c = COMMAND_INFORM_DISCONNECTED"
    | (idle) "c = COMMAND_IDLE"
    | (other) "c \<notin> {COMMAND_INFORM_CONNECTED, COMMAND_INFORM_DISCONNECTED, COMMAND_IDLE}" by blast
  then show ?thesis
  proof cases
    case connected
    let ?s = "s\<lparr>sk := (sk s)\<lparr>s_command := COMMAND_IDLE\<rparr>\<rparr>"
    have "xs = []" using late connected by auto
    moreover have "joined ?s b 0 P V bs xs ys" by (rule joined_sk [OF jn]) (simp_all add: same_setup_def)
    ultimately have so: "sound b (P \<union> V) ?s" unfolding sound_def by (auto simp: stage_ok_def)
    show ?thesis
    proof (cases "s_on_connected (sk s) = None")
      case True
      then have "inform_branch user c s = Some ?s" using connected by (simp add: inform_branch_def)
      then show ?thesis using so by (intro exI [of _ ?s] exI [of _ "P \<union> V"]) simp
    next
      case False
      then have "inform_branch user c s = call_user user On_connected ?s" using connected by (simp add: inform_branch_def)
      then show ?thesis using report_sound [OF user so, of On_connected] by simp
    qed
  next
    case disconnected
    let ?s = "s\<lparr>sk := (sk s)\<lparr>s_command := COMMAND_END\<rparr>\<rparr>"
    have xs: "xs = []" using late disconnected by auto
    have jn': "joined ?s b 0 P V bs xs ys" by (rule joined_sk [OF jn]) (simp_all add: same_setup_def)
    then have "holds ?s V bs xs ys" by (simp add: joined_def)
    from disconnect_holds [OF this] obtain t V' bs' where t: "rws_socket_send_disconnect ?s = Some t" "holds t V' bs' xs ys"
        "goes ?s V t V'" "s_command (sk t) = COMMAND_END" by blast
    have so: "sound b (P \<union> V') t" and ev: "evolves (P \<union> V) s (P \<union> V') t"
      using joined_step [OF jn' t(2,3) len] xs t(4) unfolding sound_def by (auto simp: stage_ok_def)
    show ?thesis
    proof (cases "s_on_disconnected (sk t) = None")
      case True
      then have "inform_branch user c s = Some t" using disconnected t(1) by (simp add: inform_branch_def)
      then show ?thesis using so ev by blast
    next
      case False
      obtain code where code: "error_code_of t = Some code" using error_code_holds [OF t(2)] by blast
      then have "inform_branch user c s = call_user user (On_disconnected code) t" using disconnected t(1) False by (simp add: inform_branch_def)
      moreover obtain s' U' where "call_user user (On_disconnected code) t = Some s'" "sound b U' s'" "evolves (P \<union> V') t U' s'"
        using report_sound [OF user so, of "On_disconnected code"] by blast
      ultimately show ?thesis using evolves_trans [OF ev] by auto
    qed
  next
    case idle
    obtain t U' where t: "rws_socket_inform_recvd_frames user s = Some t" "sound b U' t" "evolves (P \<union> V) s U' t"
      using inform_any [OF jn stg user] by blast
    moreover have "inform_branch user c s = Some t"
      using idle t(1) inform_nothing [of s user] by (simp add: inform_branch_def split: if_splits)
    ultimately show ?thesis by blast
  next
    case other
    then have "xs = []" "inform_branch user c s = Some s" using late by (auto simp: inform_branch_def)
    moreover from this have "sound b (P \<union> V) s" using jn stg unfolding sound_def by auto
    ultimately show ?thesis by (intro exI [of _ s] exI [of _ "P \<union> V"]) simp
  qed
qed

text \<open>One iteration of a sound socket, with the state after the work under the mutex.\<close>

lemma locked_run:
  assumes so: "sound b U s" and fr: "fair s"
  obtains n' t P V bs xs ys where "work_command (Suc n) (with_count (s_work_mutex (sk s)) 1 s) = Some (n', t)"
    and "work_locked n s = Some (n', with_count (s_work_mutex (sk t)) 0 t)"
    and "joined (with_count (s_work_mutex (sk t)) 0 t) b 0 P V bs xs ys" and "stage_ok (sk t) bs xs"
    and "evolves U s (P \<union> V) (with_count (s_work_mutex (sk t)) 0 t)"
proof -
  obtain P V bs ys where U: "U = P \<union> V" and jn: "joined s b 0 P V bs [] ys" and stg: "stage_ok (sk s) bs []"
    using so by (auto simp: sound_def)
  let ?w = "s_work_mutex (sk s)"
  let ?s0 = "with_count ?w 1 s"
  have mx: "mutex_at s ?w 0" using jn setup_mutexes(1) by (auto simp: joined_def)
  have lock: "rws_mutex_lock ?w s = Some ?s0" using lock_run [OF mx] by simp
  have jn0: "joined ?s0 b 1 P V bs [] ys" and ev0: "evolves U s U ?s0" using joined_count [OF jn, of 1] by (simp_all add: U)
  have "buffered ?s0 = buffered s" using jn jn0 buffered_holds unfolding joined_def by metis
  then have fr0: "fair ?s0" using fr by (simp add: fair_def)
  obtain n1 s1 P1 V1 bs1 xs1 ys1 where s1: "work_command (Suc n) ?s0 = Some (n1, s1)" "joined s1 b 1 P1 V1 bs1 xs1 ys1"
      "evolves (P \<union> V) ?s0 (P1 \<union> V1) s1" "stage_ok (sk s1) bs1 xs1"
    using command_joined [OF jn0 _ fr0, of "Suc n"] stg by auto
  let ?v = "s_work_mutex (sk s1)"
  let ?s2 = "with_count ?v 0 s1"
  have "mutex_at s1 ?v (Suc 0)" using s1(2) setup_mutexes(1) by (fastforce simp: joined_def)
  then have unlock: "rws_mutex_unlock ?v s1 = Some ?s2" by (rule unlock_run)
  have jn2: "joined ?s2 b 0 P1 V1 bs1 xs1 ys1" and ev2: "evolves (P1 \<union> V1) s1 (P1 \<union> V1) ?s2" using joined_count [OF s1(2)] by simp_all
  have "evolves U s (P1 \<union> V1) ?s2"
    by (rule evolves_trans [OF evolves_trans [OF ev0 s1(3) [folded U]] ev2])
  then show thesis using lock s1 unlock jn2 by (intro that [of n1 s1 P1 V1 bs1 xs1 ys1]) (simp_all add: work_locked_def)
qed

lemma work_locked_run:
  assumes so: "sound b U s" and fr: "fair s" and cmd: "work_command (Suc n) (with_count (s_work_mutex (sk s)) 1 s) = Some (n', t)"
  shows "work_locked n s = Some (n', with_count (s_work_mutex (sk t)) 0 t)"
  by (rule locked_run [OF so fr, of n]) (use cmd in simp)

lemma locked_sound:
  assumes so: "sound b U s" and fr: "fair s"
  shows "\<exists>n' s' P V bs xs ys. work_locked n s = Some (n', s') \<and> joined s' b 0 P V bs xs ys \<and> stage_ok (sk s') bs xs \<and>
    evolves U s (P \<union> V) s'"
proof -
  obtain n' t P V bs xs ys where "work_locked n s = Some (n', with_count (s_work_mutex (sk t)) 0 t)"
      "joined (with_count (s_work_mutex (sk t)) 0 t) b 0 P V bs xs ys" "stage_ok (sk t) bs xs"
      "evolves U s (P \<union> V) (with_count (s_work_mutex (sk t)) 0 t)"
    by (rule locked_run [OF so fr, of n]) blast
  then show ?thesis
    by (intro exI [of _ n'] exI [of _ "with_count (s_work_mutex (sk t)) 0 t"] exI [of _ P] exI [of _ V] exI [of _ bs] exI [of _ xs] exI [of _ ys])
      simp
qed

lemma iteration_sound:
  assumes so: "sound b U s" and fr: "fair s" and user: "civil user b"
  shows "\<exists>n' s' U'. work_iteration user n s = Some (n', s') \<and> sound b U' s' \<and> evolves U s U' s'"
proof -
  obtain n1 s1 P V bs xs ys where s1: "work_locked n s = Some (n1, s1)" "joined s1 b 0 P V bs xs ys" "stage_ok (sk s1) bs xs"
      "evolves U s (P \<union> V) s1"
    using locked_sound [OF so fr, of n] by blast
  obtain s2 U2 where s2: "inform_branch user (s_command (sk s1)) s1 = Some s2" "sound b U2 s2" "evolves (P \<union> V) s1 U2 s2"
    using branch_sound [OF s1(2,3) user, of "s_command (sk s1)"] s1(3) by (auto simp: stage_ok_def)
  have "work_iteration user n s = Some (n1, s2)" using s1(1) s2(1) by (simp add: work_iteration_def work_inform_def)
  then show ?thesis using s2(2) evolves_trans [OF s1(4) s2(3)] by blast
qed

lemma command_iteration:
  assumes so: "sound b U s" and fr: "fair s" and user: "civil user b"
    and cmd: "work_command (Suc n) (with_count (s_work_mutex (sk s)) 1 s) = Some (n', t)"
    and inf: "work_inform user (with_count (s_work_mutex (sk t)) 0 t) = Some s'"
  obtains U' where "work_iteration user n s = Some (n', s')" and "sound b U' s'" and "evolves U s U' s'"
proof -
  note work_locked_run [OF so fr cmd]
  with inf have run: "work_iteration user n s = Some (n', s')" by (simp add: work_iteration_def)
  then show thesis using iteration_sound [OF so fr user, of n] that by auto
qed

end
