(* ===== verification/Rws_Run.thy ===== *)
theory Rws_Run
  imports Rws_Program
begin

text \<open>
  Runs of the program: the iterations of the work thread interleaved with the calls of the client,
  from a started socket to the end of the thread.
\<close>

section \<open>Runs\<close>

text \<open>
  Where the work thread stands: before the test of the loop, before it takes the work mutex, before the
  second \<open>switch\<close> reads the command, before it acts on the command \<open>c\<close> it has read, or at its end.  When the loop has ended the
  thread closes and deletes the socket.

  These places are a choice of granularity, not the only points of the program at which a call of the client may come.  Between
  two of them the thread makes one step: the first \<open>switch\<close>, the branch of the second one, or the end of the thread.
  \<open>rws_socket_disconnect_and_release\<close> takes the work mutex and cannot come inside the first \<open>switch\<close>, but
  \<open>rws_socket_send_text\<close> and \<open>rws_socket_is_connected\<close> take the send mutex only and may, and any call may come inside the branch of the
  second \<open>switch\<close> and the end of the thread, which hold no mutex.  The runs put such a call before or after the step.  One overlap of a
  text with the first \<open>switch\<close> is modelled apart, in \<open>Rws_Races\<close>.
\<close>

datatype place = Guard | Locked | Switch | Inform int | Ended

definition thread_end :: "ptr \<Rightarrow> sys \<Rightarrow> sys option" where
  "thread_end h s = (let s = rws_socket_close s; s = s\<lparr>sk := (sk s)\<lparr>s_work_thread := NULL\<rparr>\<rparr> in rws_socket_delete h s)"

type_synonym config = "place \<times> nat \<times> sys"

fun work_step :: "user_code \<Rightarrow> ptr \<Rightarrow> config \<Rightarrow> config option" where
  "work_step user h (Guard, n, s) =
     (if s_command (sk s) < COMMAND_END then Some (Locked, n, s) else do { s \<leftarrow> thread_end h s; Some (Ended, n, s) })"
| "work_step user h (Locked, n, s) = do { (n, s) \<leftarrow> work_locked n s; Some (Switch, n, s) }"
| "work_step user h (Switch, n, s) = Some (Inform (s_command (sk s)), n, s)"
| "work_step user h (Inform c, n, s) = do { s \<leftarrow> inform_branch user c s; Some (Guard, n, s) }"
| "work_step user h (Ended, n, s) = Some (Ended, n, s)"

text \<open>
  The client may queue a text (the bytes of a string of its own), ask whether the socket is connected,
  or ask for the release.
\<close>

datatype action = Work | Send_text "u8 list" | Ask_connected | Release

fun act :: "user_code \<Rightarrow> ptr \<Rightarrow> action \<Rightarrow> config \<Rightarrow> config option" where
  "act user h Work c = work_step user h c"
| "act user h (Send_text bs) (pc, n, s) = do { (_, s) \<leftarrow> rws_socket_send_text h (Lit bs 0) s; Some (pc, n, s) }"
| "act user h Ask_connected (pc, n, s) = do { (_, s) \<leftarrow> rws_socket_is_connected h s; Some (pc, n, s) }"
| "act user h Release (pc, n, s) = do { s \<leftarrow> rws_socket_disconnect_and_release h s; Some (pc, n, s) }"

fun run :: "user_code \<Rightarrow> ptr \<Rightarrow> action list \<Rightarrow> config \<Rightarrow> config option" where
  "run user h [] c = Some c"
| "run user h (a # as) c = do { c \<leftarrow> act user h a c; run user h as c }"

text \<open>
  What is asked of the peer and of the client.  The bytes received are fair: an answer to the request for the upgrade is empty or one in
  which every scan of the parser ends, and the frames are regular.  A text is a C string of fewer than \<open>2^31 - 14\<close> bytes, the end of the
  thread finds no queued frames, and the release finds neither queued frames nor messages that wait for their delivery.
\<close>

fun admissible :: "action \<Rightarrow> config \<Rightarrow> bool" where
  "admissible Work (pc, n, s) \<longleftrightarrow> (pc = Locked \<longrightarrow> fair s) \<and>
     (pc = Guard \<longrightarrow> s_command (sk s) < COMMAND_END \<or> s_send_frames (sk s) = NULL)"
| "admissible (Send_text bs) c \<longleftrightarrow> 0 \<notin> set bs \<and> length bs < 2 ^ 31 - 14"
| "admissible Ask_connected c \<longleftrightarrow> True"
| "admissible Release (pc, n, s) \<longleftrightarrow> s_send_frames (sk s) = NULL \<and> s_recvd_frames (sk s) = NULL"

fun good :: "user_code \<Rightarrow> ptr \<Rightarrow> action list \<Rightarrow> config \<Rightarrow> bool" where
  "good user h [] c \<longleftrightarrow> True"
| "good user h (a # as) c \<longleftrightarrow> alive h (snd (snd c)) = Some () \<and> admissible a c \<and>
     (case act user h a c of None \<Rightarrow> True | Some c \<Rightarrow> good user h as c)"

text \<open>
  What holds of a socket wherever the work thread stands: it is sound, except that the first
  \<open>switch\<close> may have left received messages, which the second one is going to deliver.
\<close>

definition steady :: "nat \<Rightarrow> nat set \<Rightarrow> place \<Rightarrow> sys \<Rightarrow> bool" where
  "steady b U pc s \<longleftrightarrow> (\<exists>P V bs xs ys. U = P \<union> V \<and> joined s b 0 P V bs xs ys \<and> stage_ok (sk s) bs xs \<and>
     (xs \<noteq> [] \<longrightarrow> pc = Switch \<or> pc = Inform COMMAND_IDLE))"

lemma sound_steady: "sound b U s \<Longrightarrow> steady b U pc s"
  unfolding sound_def steady_def by blast

lemma steady_sound:
  assumes "steady b U pc s" and "pc = Guard \<or> pc = Locked \<or> s_recvd_frames (sk s) = NULL"
  shows "sound b U s"
proof -
  obtain P V bs xs ys where U: "U = P \<union> V" and jn: "joined s b 0 P V bs xs ys" and stg: "stage_ok (sk s) bs xs"
    and xs: "xs \<noteq> [] \<longrightarrow> pc = Switch \<or> pc = Inform COMMAND_IDLE"
    using assms(1) unfolding steady_def by blast
  have "s_recvd_frames (sk s) = NULL \<Longrightarrow> xs = []" using jn by (auto simp: joined_def session_def elim!: holdsE)
  then have "xs = []" using assms(2) xs by auto
  then show ?thesis using jn stg unfolding U by (auto intro: soundI)
qed

section \<open>The calls of the client\<close>

lemma joined_alive: "joined s b c P V bs xs ys \<Longrightarrow> alive (Ptr b 0) s = Some ()"
  by (auto simp: joined_def setup_at_def alive_Ptr)

text \<open>The session may be the one without its received frames, as it is inside a callback (\<open>park\<close>).\<close>

lemma send_text_joined:
  assumes jn: "joined (park r s) b 0 P V bs xs ys" and small: "0 \<notin> set msg" "length msg < 2 ^ 31 - 14"
  shows "\<exists>res s' V' ys' p. rws_socket_send_text (Ptr b 0) (Lit msg 0) s = Some (res, s') \<and> joined (park r s') b 0 P V' bs xs ys' \<and>
    evolves (P \<union> V) s (P \<union> V') s' \<and> sk s' = (sk s)\<lparr>s_send_frames := p\<rparr>"
proof -
  have hl: "holds (park r s) V bs xs ys" and st: "setup_at (park r s) b 0 P" and len: "list_all (\<lambda>y. length (snd y) < 2 ^ 31) ys"
      "list_all (\<lambda>x. length (snd x) < 2 ^ 32) xs"
    using jn by (simp_all add: joined_def)
  have mx: "mutex_at s (s_send_mutex (sk s)) 0" using setup_mutexes(2) [OF st] by (simp add: mutex_park)
  have al: "alive (Ptr b 0) s = Some ()" using joined_alive [OF jn] by (simp add: alive_Ptr)
  have str: "c_string (Lit msg 0) msg s" using small(1) by simp
  show ?thesis
  proof (cases "msg = []")
    case True
    let ?s1 = "with_count (s_send_mutex (sk s)) 1 s"
    have "rws_socket_send_text_priv (Lit [] 0) ?s1 = Some (False, ?s1)"
      using strlen_c_string [of "Lit [] 0" "[]" ?s1] by (simp add: rws_socket_send_text_priv_def)
    then have "rws_socket_send_text (Ptr b 0) (Lit msg 0) s = Some (False, s)"
      using True al lock_run [OF mx] unlock_run [OF mutex_at_count [OF mx]] with_count_twice [OF mx]
      by (simp add: rws_socket_send_text_def)
    then show ?thesis using jn
      by (intro exI [of _ False] exI [of _ s] exI [of _ V] exI [of _ ys] exI [of _ "s_send_frames (sk s)"]) simp
  next
    case False
    obtain E D ns Fs ms Gs where ses: "session (park r s) E bs D ns Fs xs ms Gs ys" "V = foot E D ns Fs ms Gs"
      using hl by (rule holdsE)
    have h: "Ptr b 0 \<noteq> NULL" and size: "length msg < 2 ^ 32" using small(2) by simp_all
    obtain s' e F key p where s': "rws_socket_send_text (Ptr b 0) (Lit msg 0) s = Some (True, s')" "length key = 4"
        "session (park r s') E bs D ns Fs xs (ms @ [e]) (Gs @ [F]) (ys @ [(rws_opcode_text_frame, encode_frame 1 (Some key) msg)])"
        "sk s' = (sk s)\<lparr>s_send_frames := p\<rparr>" "trace s' = trace s"
        "evolves (foot E D ns Fs ms Gs) s (foot E D ns Fs (ms @ [e]) (Gs @ [F])) s'"
      by (rule parked_text_call [OF h al ses(1) mx str False size])
    let ?V = "foot E D ns Fs (ms @ [e]) (Gs @ [F])" and ?ys = "ys @ [(rws_opcode_text_frame, encode_frame 1 (Some key) msg)]"
    have "length (encode_frame 1 (Some key) msg) < 2 ^ 31" using length_encode_frame [OF s'(2), of 1 msg] small(2) by simp
    then have len': "list_all (\<lambda>y. length (snd y) < 2 ^ 31) ?ys" using len by simp
    have "goes (park r s) V (park r s') ?V" using s'(4,6) by (simp add: goes_def ses(2) same_setup_def evolves_def)
    from joined_step [OF jn holdsI [OF s'(3)] this len(2) len'] have "joined (park r s') b 0 P ?V bs xs ?ys"
        "evolves (P \<union> V) s (P \<union> ?V) s'" by (simp_all add: evolves_def)
    then show ?thesis using s'(1,4) by blast
  qed
qed

lemma send_text_parked:
  assumes so: "sound b U (park NULL s)" and small: "0 \<notin> set msg" "length msg < 2 ^ 31 - 14"
  shows "\<exists>r s' U'. rws_socket_send_text (Ptr b 0) (Lit msg 0) s = Some (r, s') \<and> sound b U' (park NULL s') \<and> evolves U s U' s' \<and>
    s_recvd_frames (sk s') = s_recvd_frames (sk s)"
proof -
  obtain P V bs ys where U: "U = P \<union> V" and jn: "joined (park NULL s) b 0 P V bs [] ys" and stg: "stage_ok (sk (park NULL s)) bs []"
    using so by (auto simp: sound_def)
  obtain r s' V' ys' p where s': "rws_socket_send_text (Ptr b 0) (Lit msg 0) s = Some (r, s')"
      "joined (park NULL s') b 0 P V' bs [] ys'" "evolves (P \<union> V) s (P \<union> V') s'" "sk s' = (sk s)\<lparr>s_send_frames := p\<rparr>"
    using send_text_joined [OF jn small] by blast
  have "sound b (P \<union> V') (park NULL s')" by (rule soundI [OF s'(2)]) (use stg in \<open>simp add: stage_ok_def s'(4)\<close>)
  then show ?thesis using s'(1,3,4) U by (intro exI [of _ r] exI [of _ s'] exI [of _ "P \<union> V'"]) simp
qed

lemma send_text_steady:
  assumes so: "steady b U pc s" and small: "0 \<notin> set msg" "length msg < 2 ^ 31 - 14"
  shows "\<exists>r s' U'. rws_socket_send_text (Ptr b 0) (Lit msg 0) s = Some (r, s') \<and> steady b U' pc s' \<and> evolves U s U' s'"
proof -
  obtain P V bs xs ys where U: "U = P \<union> V" and jn: "joined s b 0 P V bs xs ys" and stg: "stage_ok (sk s) bs xs"
    and xs: "xs \<noteq> [] \<longrightarrow> pc = Switch \<or> pc = Inform COMMAND_IDLE"
    using so unfolding steady_def by blast
  have "joined (park (s_recvd_frames (sk s)) s) b 0 P V bs xs ys" using jn by (simp add: park_self)
  then obtain r s' V' ys' p where s': "rws_socket_send_text (Ptr b 0) (Lit msg 0) s = Some (r, s')"
      "joined (park (s_recvd_frames (sk s)) s') b 0 P V' bs xs ys'" "evolves (P \<union> V) s (P \<union> V') s'" "sk s' = (sk s)\<lparr>s_send_frames := p\<rparr>"
    using send_text_joined [OF _ small] by blast
  have "joined s' b 0 P V' bs xs ys'" "stage_ok (sk s') bs xs" using s'(2) stg by (simp_all add: park_self stage_ok_def s'(4))
  then have "steady b (P \<union> V') pc s'" using xs unfolding steady_def by blast
  then show ?thesis using s'(1,3) U by blast
qed

lemma release_sound:
  assumes so: "sound b U s" and none: "s_send_frames (sk s) = NULL"
  shows "\<exists>s'. rws_socket_disconnect_and_release (Ptr b 0) s = Some s' \<and> sound b U s' \<and> evolves U s U s'"
proof -
  obtain P V bs ys where U: "U = P \<union> V" and jn: "joined s b 0 P V bs [] ys" and stg: "stage_ok (sk s) bs []"
    using so by (auto simp: sound_def)
  have st: "setup_at s b 0 P" using jn by (simp add: joined_def)
  have thread: "s_work_thread (sk s) \<noteq> NULL" using st by (auto simp: setup_at_def)
  define k where "k = (if s_is_connected (sk s) then COMMAND_DISCONNECT else COMMAND_END)"
  have run: "rws_socket_disconnect_and_release (Ptr b 0) s = Some (s\<lparr>sk := (sk s)\<lparr>s_command := k\<rparr>\<rparr>)"
    using release_run [OF joined_alive [OF jn] setup_mutexes(1) [OF st] none] thread by (simp add: k_def)
  have "joined (s\<lparr>sk := (sk s)\<lparr>s_command := k\<rparr>\<rparr>) b 0 P V bs [] ys" by (rule joined_sk [OF jn]) (simp_all add: same_setup_def)
  moreover have "stage_ok ((sk s)\<lparr>s_command := k\<rparr>) bs []" by (simp add: stage_ok_def k_def)
  ultimately have "sound b U (s\<lparr>sk := (sk s)\<lparr>s_command := k\<rparr>\<rparr>)" unfolding sound_def U by fastforce
  then show ?thesis using run by simp
qed

lemma ask_steady:
  assumes "steady b U pc s"
  shows "rws_socket_is_connected (Ptr b 0) s = Some (s_is_connected (sk s), s)"
proof -
  obtain P V bs xs ys where jn: "joined s b 0 P V bs xs ys" using assms by (auto simp: steady_def)
  then have mx: "mutex_at s (s_send_mutex (sk s)) 0" using setup_mutexes(2) by (auto simp: joined_def)
  show ?thesis
    using joined_alive [OF jn] lock_run [OF mx] unlock_run [OF mutex_at_count [OF mx]] with_count_twice [OF mx]
    by (simp add: rws_socket_is_connected_def)
qed

section \<open>The end of the thread\<close>

lemma slot_blks3:
  assumes "length As = 3"
  shows "slot_blks As = set (As ! 0) \<union> set (As ! 1) \<union> set (As ! 2)"
proof -
  have "{..<3 :: nat} = {0, 1, 2}" by auto
  then show ?thesis using assms by (auto simp: slot_blks_def)
qed

lemma slots_disjoint:
  assumes "slots_at m ps os As"
  shows "length As = length ps" and "i < length ps \<Longrightarrow> j < length ps \<Longrightarrow> i \<noteq> j \<Longrightarrow> set (As ! i) \<inter> set (As ! j) = {}"
  using assms unfolding slots_at_def by blast+

lemma own_bytes_distinct: "own_bytes p A m \<Longrightarrow> distinct A"
  by (auto simp: own_bytes_def)

lemma buffer_own: "buffer_at (blocks s) (sk s) bs D \<Longrightarrow> own_bytes (s_received (sk s)) D s"
  by (auto simp: buffer_at_def own_bytes_def split: ptr.splits)

lemma queue_holds_nothing: "queue_holds B p ns Fs [] \<Longrightarrow> p = NULL \<and> ns = [] \<and> Fs = []"
  by (auto simp: queue_holds_def queue_at_def)

lemma sound_owns:
  assumes so: "sound b U s" and none: "s_send_frames (sk s) = NULL"
  shows "owns s b U"
proof -
  obtain P V bs ys where U: "U = P \<union> V" and jn: "joined s b 0 P V bs [] ys"
    using so by (auto simp: sound_def)
  obtain E D ns Fs ms Gs where ses: "session s E bs D ns Fs [] ms Gs ys" "V = foot E D ns Fs ms Gs"
    using jn by (auto simp: joined_def elim: holdsE)
  have st: "setup_at s b 0 P" and apart: "P \<inter> V = {}" using jn by (simp_all add: joined_def)
  obtain w x K As sc ho pa where P: "P = {b, w, x} \<union> set K \<union> slot_blks As" "w \<noteq> x" "blocks s b = Some OSocket"
      "s_work_mutex (sk s) = Ptr w 0" "blocks s w = Some (OMutex 0)" "s_send_mutex (sk s) = Ptr x 0" "blocks s x = Some (OMutex 0)"
      "url_at s sc ho pa As" "sc \<noteq> []" "ho \<noteq> []" "pa \<noteq> []" "length (request_text sc ho (s_port (sk s)) pa) < 512"
      "own_bytes (s_sec_ws_accept (sk s)) K s" "set K \<inter> slot_blks As = {}" "s_work_thread (sk s) \<noteq> NULL"
    using st by (rule setup_atE)
  have lens: "length As = 3" and dj: "\<And>i j. i < 3 \<Longrightarrow> j < 3 \<Longrightarrow> i \<noteq> j \<Longrightarrow> set (As ! i) \<inter> set (As ! j) = {}"
    using slots_disjoint [OF P(8) [unfolded url_at_def]] by simp_all
  have disj: "set (As ! 0) \<inter> set (As ! 1) = {}" "set (As ! 0) \<inter> set (As ! 2) = {}" "set (As ! 1) \<inter> set (As ! 2) = {}"
    by (intro dj; simp)+
  have own: "own_bytes (s_scheme (sk s)) (As ! 0) s" "own_bytes (s_host (sk s)) (As ! 1) s" "own_bytes (s_path (sk s)) (As ! 2) s"
    using url_at_strings [OF P(8)] str_at_own by blast+
  have buf: "own_bytes (s_received (sk s)) D s" and err: "err_own s E"
    and nil: "s_recvd_frames (sk s) = NULL" "V = set E \<union> set D"
    using ses none queue_holds_nothing [of "blocks s" "s_recvd_frames (sk s)" ns Fs] buffer_own [of s bs D]
    by (simp_all add: session_def queue_blks_def)
  have ed: "distinct E" "set E \<inter> set D = {}" using ses(1) by (auto simp: session_def)
  have U': "U = {b, w, x} \<union> set (As ! 0) \<union> set (As ! 1) \<union> set (As ! 2) \<union> set K \<union> set D \<union> set E"
    unfolding U P(1) nil(2) slot_blks3 [OF lens] by blast
  have "distinct (As ! 0 @ As ! 1 @ As ! 2 @ K @ D @ E)"
    using own [THEN own_bytes_distinct] own_bytes_distinct [OF P(13)] own_bytes_distinct [OF buf] ed disj P(14) apart
    unfolding P(1) nil(2) slot_blks3 [OF lens] by auto
  then show ?thesis unfolding owns_def
    using U' P(2-7,13) own buf err nil(1) none by blast
qed

lemma owns_cong:
  assumes "owns s b U" and "blocks s' = blocks s"
    and "s_work_mutex (sk s') = s_work_mutex (sk s)" "s_send_mutex (sk s') = s_send_mutex (sk s)"
      "s_scheme (sk s') = s_scheme (sk s)" "s_host (sk s') = s_host (sk s)" "s_path (sk s') = s_path (sk s)"
      "s_sec_ws_accept (sk s') = s_sec_ws_accept (sk s)" "s_received (sk s') = s_received (sk s)"
      "s_error (sk s') = s_error (sk s)" "s_send_frames (sk s') = s_send_frames (sk s)" "s_recvd_frames (sk s') = s_recvd_frames (sk s)"
  shows "owns s' b U"
proof -
  have "err_own s' E = err_own s E" for E
    using err_own_cong [of s' s E] err_own_cong [of s s' E] assms(2,10) by auto
  moreover have "own_bytes p A s' = own_bytes p A s" for p A using assms(2) by (simp add: own_bytes_def)
  ultimately show ?thesis using assms(1) unfolding owns_def assms(2-) by simp
qed

lemma end_owns:
  assumes "owns s b U"
  obtains s' where "thread_end (Ptr b 0) s = Some s'" and "blocks s' = (\<lambda>k. if k \<in> U then None else blocks s k)" and "next_blk s' = next_blk s"
    and "trace s' = trace s @ (if s_socket (sk s) = RWS_INVALID_SOCKET then [] else [Closed (s_socket (sk s))])"
proof -
  let ?s = "(rws_socket_close s)\<lparr>sk := (closed_sk (sk s))\<lparr>s_work_thread := NULL\<rparr>\<rparr>"
  have "owns ?s b U" by (rule owns_cong [OF assms]) (simp_all add: closed_sk_def)
  moreover have "trace (rws_socket_close ?s) = trace s @ (if s_socket (sk s) = RWS_INVALID_SOCKET then [] else [Closed (s_socket (sk s))])"
    by (simp add: rws_socket_close_run closed_sk_def)
  ultimately obtain s' where "thread_end (Ptr b 0) s = Some s'" "blocks s' = (\<lambda>k. if k \<in> U then None else blocks s k)"
      "next_blk s' = next_blk s"
      "trace s' = trace s @ (if s_socket (sk s) = RWS_INVALID_SOCKET then [] else [Closed (s_socket (sk s))])"
    using delete_run [of ?s b U] by (auto simp: thread_end_def Let_def cong del: if_weak_cong)
  then show thesis by (rule that)
qed

lemma end_sound:
  assumes so: "sound b U s" and none: "s_send_frames (sk s) = NULL"
  shows "\<exists>s'. thread_end (Ptr b 0) s = Some s' \<and> blocks s' = (\<lambda>k. if k \<in> U then None else blocks s k) \<and> next_blk s' = next_blk s \<and>
    trace s' = trace s @ (if s_socket (sk s) = RWS_INVALID_SOCKET then [] else [Closed (s_socket (sk s))])"
  by (rule end_owns [OF sound_owns [OF assms]]) blast

section \<open>Safety of a run\<close>

lemma sound_in_U: "sound b U s \<Longrightarrow> b \<in> U"
  by (auto simp: sound_def joined_def setup_at_def)

lemma work_step_safe:
  assumes st: "steady b U pc s" and user: "civil user b" and adm: "admissible Work (pc, n, s)"
  shows "\<exists>pc' n' s' U'. work_step user (Ptr b 0) (pc, n, s) = Some (pc', n', s') \<and> evolves U s U' s' \<and>
    (steady b U' pc' s' \<or> U' = {} \<and> alive (Ptr b 0) s' = None)"
proof (cases pc)
  case Guard
  then have so: "sound b U s" using st steady_sound by blast
  show ?thesis
  proof (cases "s_command (sk s) < COMMAND_END")
    case True
    then show ?thesis using Guard sound_steady [OF so, of Locked]
      by (intro exI [of _ Locked] exI [of _ n] exI [of _ s] exI [of _ U]) simp
  next
    case False
    then have "s_send_frames (sk s) = NULL" using adm Guard by simp
    from end_sound [OF so this] obtain s' where s': "thread_end (Ptr b 0) s = Some s'"
        "blocks s' = (\<lambda>k. if k \<in> U then None else blocks s k)" "next_blk s' = next_blk s" by blast
    then have "evolves U s {} s'" "alive (Ptr b 0) s' = None"
      using sound_in_U [OF so] by (simp_all add: evolves_def alive_def obj_at_def)
    then show ?thesis using s'(1) False Guard
      by (intro exI [of _ Ended] exI [of _ n] exI [of _ s'] exI [of _ "{}"]) simp
  qed
next
  case Locked
  then have "sound b U s" "fair s" using st steady_sound adm by auto
  from locked_sound [OF this, of n] obtain n' s' P V bs xs ys where s': "work_locked n s = Some (n', s')"
      "joined s' b 0 P V bs xs ys" "stage_ok (sk s') bs xs" "evolves U s (P \<union> V) s'" by blast
  then have "steady b (P \<union> V) Switch s'" unfolding steady_def by blast
  then show ?thesis using s'(1,4) Locked by auto
next
  case Switch
  then have "steady b U (Inform (s_command (sk s))) s" using st unfolding steady_def stage_ok_def by blast
  then show ?thesis using Switch by (intro exI [of _ "Inform (s_command (sk s))"] exI [of _ n] exI [of _ s] exI [of _ U]) simp
next
  case (Inform c)
  then obtain P V bs xs ys where U: "U = P \<union> V" and jn: "joined s b 0 P V bs xs ys" and stg: "stage_ok (sk s) bs xs"
      and xs: "xs \<noteq> [] \<Longrightarrow> c = COMMAND_IDLE"
    using st unfolding steady_def by blast
  from branch_sound [OF jn stg user xs] obtain s' U' where s': "inform_branch user c s = Some s'" "sound b U' s'" "evolves U s U' s'"
    unfolding U by blast
  then show ?thesis using Inform sound_steady [OF s'(2), of Guard] by auto
next
  case Ended
  then show ?thesis using st by (intro exI [of _ Ended] exI [of _ n] exI [of _ s] exI [of _ U]) simp
qed

lemma act_safe:
  assumes st: "steady b U pc s" and user: "civil user b" and adm: "admissible a (pc, n, s)"
  shows "\<exists>pc' n' s' U'. act user (Ptr b 0) a (pc, n, s) = Some (pc', n', s') \<and> evolves U s U' s' \<and>
    (steady b U' pc' s' \<or> U' = {} \<and> alive (Ptr b 0) s' = None)"
proof (cases a)
  case Work
  then show ?thesis using work_step_safe [OF st user, of n] adm by simp
next
  case (Send_text bs)
  then obtain r s' U' where "rws_socket_send_text (Ptr b 0) (Lit bs 0) s = Some (r, s')" "steady b U' pc s'" "evolves U s U' s'"
    using send_text_steady [OF st, of bs] adm by auto
  then show ?thesis using Send_text by auto
next
  case Ask_connected
  then show ?thesis using ask_steady [OF st] st
    by (intro exI [of _ pc] exI [of _ n] exI [of _ s] exI [of _ U]) simp
next
  case Release
  then have "s_send_frames (sk s) = NULL" "sound b U s" using adm steady_sound [OF st] by auto
  from release_sound [OF this(2,1)] obtain s' where "rws_socket_disconnect_and_release (Ptr b 0) s = Some s'" "sound b U s'" "evolves U s U s'"
    by blast
  then show ?thesis using Release sound_steady [of b U s' pc] by auto
qed

lemma run_dead: "alive h (snd (snd c)) = None \<Longrightarrow> good user h as c \<Longrightarrow> as = []"
  by (cases as) auto

lemma run_safe:
  assumes user: "civil user b"
  shows "steady b U pc s \<Longrightarrow> good user (Ptr b 0) as (pc, n, s) \<Longrightarrow>
    \<exists>pc' n' s' U'. run user (Ptr b 0) as (pc, n, s) = Some (pc', n', s') \<and> evolves U s U' s' \<and>
      (steady b U' pc' s' \<or> U' = {} \<and> alive (Ptr b 0) s' = None)"
proof (induction as arbitrary: pc n s U)
  case Nil
  then show ?case by (intro exI [of _ pc] exI [of _ n] exI [of _ s] exI [of _ U]) simp
next
  case (Cons a as)
  obtain pc1 n1 s1 U1 where s1: "act user (Ptr b 0) a (pc, n, s) = Some (pc1, n1, s1)" "evolves U s U1 s1"
      "steady b U1 pc1 s1 \<or> U1 = {} \<and> alive (Ptr b 0) s1 = None"
    using act_safe [OF Cons.prems(1) user, of a n] Cons.prems(2) by auto
  have good: "good user (Ptr b 0) as (pc1, n1, s1)" using Cons.prems(2) s1(1) by simp
  show ?case
  proof (cases "steady b U1 pc1 s1")
    case True
    from Cons.IH [OF this good] obtain pc' n' s' U' where "run user (Ptr b 0) as (pc1, n1, s1) = Some (pc', n', s')"
        "evolves U1 s1 U' s'" "steady b U' pc' s' \<or> U' = {} \<and> alive (Ptr b 0) s' = None" by blast
    then show ?thesis using s1(1) evolves_trans [OF s1(2)] by auto
  next
    case False
    then have "as = []" using s1(3) good run_dead [of "Ptr b 0" "(pc1, n1, s1)" user as] by simp
    then show ?thesis using s1 by auto
  qed
qed

section \<open>The start\<close>

lemma connect_accepts:
  assumes al: "alive (Ptr b 0) s = Some ()" and no: "s_error (sk s) = NULL" "missing (sk s) = []"
  shows "rws_socket_connect (Ptr b 0) s = Some (True, set_heap ((blocks s)(next_blk s \<mapsto> OBytes [])) (Suc (next_blk s))
    (s\<lparr>sk := (sk s)\<lparr>s_received_len := 0, s_work_thread := Ptr (next_blk s) 0, s_command := COMMAND_CONNECT_TO_HOST\<rparr>\<rparr>))"
proof -
  have "missed_parameter (sk s) = None" using no(2) by (simp add: missed_parameter_hd)
  then show ?thesis using al no(1)
    by (simp add: rws_socket_connect_def rws_socket_create_start_work_thread_def run_simps rws_malloc_zero_def)
qed

text \<open>A socket whose fields are those of a new one, but for a proper URL and the thread.\<close>

lemma sound_at_start:
  assumes fresh: "fresh_ok s" and url: "url_at s scheme host path As" "scheme \<noteq> []" "host \<noteq> []" "path \<noteq> []"
      "length (request_text scheme host (s_port (sk s)) path) < 512"
    and blk: "blocks s b = Some OSocket" "blocks s w = Some (OMutex 0)" "blocks s x = Some (OMutex 0)" "w \<noteq> x"
    and k: "s_work_mutex (sk s) = Ptr w 0" "s_send_mutex (sk s) = Ptr x 0" "s_sec_ws_accept (sk s) = NULL" "s_work_thread (sk s) \<noteq> NULL"
      "s_socket (sk s) = RWS_INVALID_SOCKET" "s_received (sk s) = NULL" "s_received_len (sk s) = 0" "s_received_size (sk s) = 0"
      "s_error (sk s) = NULL" "s_recvd_frames (sk s) = NULL" "s_send_frames (sk s) = NULL"
  shows "sound b ({b, w, x} \<union> slot_blks As) s"
proof -
  have "session s [] [] [] [] [] [] [] [] []"
    using fresh k by (simp add: session_def buffer_at_def queue_blks_def)
  from holdsI [OF this] have hl: "holds s {} [] [] []" by (simp add: queue_blks_def)
  have "setup_at s b 0 ({b, w, x} \<union> set [] \<union> slot_blks As)"
    by (rule setup_atI [OF blk(4,1) k(1) blk(2) k(2) blk(3) url]) (simp_all add: k)
  then have "joined s b 0 ({b, w, x} \<union> set [] \<union> slot_blks As) {} [] [] []" using hl by (simp add: joined_def)
  moreover have "stage_ok (sk s) [] []" by (simp add: stage_ok_def k)
  ultimately have "sound b ({b, w, x} \<union> set [] \<union> slot_blks As \<union> {}) s" by (rule soundI)
  then show ?thesis by simp
qed

lemma start_run:
  assumes fresh: "fresh_ok s" and args: "c_string t1 scheme s" "c_string t2 host s" "c_string t3 path s"
    and ne: "scheme \<noteq> []" "host \<noteq> []" "path \<noteq> []" and port: "0 < port" and fits: "length (request_text scheme host port path) < 512"
  defines "b \<equiv> next_blk s"
  obtains s1 s2 s3 s4 U where "rws_socket_create s = (Ptr b 0, s1)" and "rws_socket_set_url (Ptr b 0) t1 t2 port t3 s1 = Some s2"
    and "rws_socket_set_on_disconnected (Ptr b 0) (Some f) s2 = Some s3" and "rws_socket_connect (Ptr b 0) s3 = Some (True, s4)"
    and "sound b U s4" and "s_command (sk s4) = COMMAND_CONNECT_TO_HOST" and "s_send_frames (sk s4) = NULL"
    and "\<And>k. blocks s k \<noteq> None \<Longrightarrow> k \<notin> U \<and> blocks s4 k = blocks s k"
proof -
  obtain s1 where create: "rws_socket_create s = (Ptr b 0, s1)" and fresh1: "fresh_ok s1"
    and sk1: "sk s1 = zero_socket\<lparr>s_port := -1, s_socket := RWS_INVALID_SOCKET, s_command := COMMAND_NONE,
      s_work_mutex := Ptr (Suc b) 0, s_send_mutex := Ptr (Suc (Suc b)) 0\<rparr>"
    and b1: "blocks s1 = (blocks s)(b \<mapsto> OSocket, Suc b \<mapsto> OMutex 0, Suc (Suc b) \<mapsto> OMutex 0)"
    using create_run [OF fresh] unfolding b_def by blast
  have blk: "blocks s1 b = Some OSocket" "blocks s1 (Suc b) = Some (OMutex 0)" "blocks s1 (Suc (Suc b)) = Some (OMutex 0)"
    by (simp_all add: b1)
  have old: "k < b \<and> blocks s1 k = blocks s k" if "blocks s k \<noteq> None" for k
    using fresh that by (auto simp: b1 b_def fresh_ok_def)
  have str: "c_string t bs s1" if "c_string t bs s" for t bs
    using c_string_apart [OF that, of "{}" s1] old by (auto simp: live_def)
  have al: "alive (Ptr b 0) s1 = Some ()" by (simp add: alive_Ptr blk)
  have url: "url_at s1 [] [] [] [[], [], []]"
    by (auto simp: url_at_def slots_at_def sk1 zero_socket_def str_at_def nth_Cons' less_Suc_eq)
  have no: "slot_blks [[], [], []] = {}" by (auto simp: slot_blks_def nth_Cons' less_Suc_eq)
  have apart: "ptr_blks t \<inter> slot_blks [[], [], []] = {}" for t by (simp add: no)
  obtain s2 As p q r where s2: "rws_socket_set_url (Ptr b 0) t1 t2 port t3 s1 = Some s2"
      "url_at s2 scheme host path As" "fresh_ok s2" "alive (Ptr b 0) s2 = Some ()"
      "sk s2 = (sk s1)\<lparr>s_scheme := p, s_host := q, s_path := r, s_port := port\<rparr>"
      "live s2 - slot_blks As = live s1 - slot_blks [[], [], []]"
      "\<And>k. k \<in> live s1 \<Longrightarrow> k \<notin> slot_blks [[], [], []] \<Longrightarrow> blocks s2 k = blocks s1 k"
    by (rule set_url_run [OF al fresh1 url str [OF args(1)] str [OF args(2)] str [OF args(3)] apart apart apart, of port]) (rule that, assumption+)
  define s3 where "s3 = s2\<lparr>sk := (sk s2)\<lparr>s_on_disconnected := Some f\<rparr>\<rparr>"
  have set_on: "rws_socket_set_on_disconnected (Ptr b 0) (Some f) s2 = Some s3"
    using s2(4) by (simp add: rws_socket_set_on_disconnected_def s3_def)
  define t where "t = next_blk s2"
  define s4 where "s4 = set_heap ((blocks s2)(t \<mapsto> OBytes [])) (Suc t)
    (s3\<lparr>sk := (sk s3)\<lparr>s_received_len := 0, s_work_thread := Ptr t 0, s_command := COMMAND_CONNECT_TO_HOST\<rparr>\<rparr>)"
  have "p \<noteq> NULL" "q \<noteq> NULL" "r \<noteq> NULL" using url_at_strings [OF s2(2)] ne s2(5) by (auto simp: str_at_def)
  then have "missing (sk s3) = []" using port by (simp add: missing_def s3_def s2(5))
  then have connect: "rws_socket_connect (Ptr b 0) s3 = Some (True, s4)"
    using connect_accepts [of b s3] s2(4) by (simp add: s3_def s2(5) sk1 zero_socket_def alive_Ptr s4_def t_def)
  have keep: "blocks s4 k = blocks s2 k" if "blocks s2 k \<noteq> None" for k
    using that s2(3) fresh_unused [of s2] by (auto simp: s4_def t_def)
  have k1: "k \<notin> slot_blks As \<and> blocks s4 k = blocks s1 k" if "blocks s1 k \<noteq> None" for k
    using s2(6,7) keep [of k] that by (auto simp: live_def no)
  have fresh4: "fresh_ok s4" using s2(3) by (auto simp: s4_def fresh_ok_def t_def)
  have slots: "slots_at s2 [p, q, r] [scheme, host, path] As" using s2(2) by (simp add: url_at_def s2(5))
  then have "slots_at s4 [p, q, r] [scheme, host, path] As"
  proof (rule slots_at_cong)
    fix k assume "k \<in> slot_blks As"
    from slots_live [OF slots this] show "blocks s4 k = blocks s2 k" using keep [of k] by auto
  qed
  then have url4: "url_at s4 scheme host path As" by (simp add: url_at_def s4_def s3_def s2(5))
  have so: "sound b ({b, Suc b, Suc (Suc b)} \<union> slot_blks As) s4"
    by (rule sound_at_start [OF fresh4 url4 ne])
      (use fits blk k1 [of b] k1 [of "Suc b"] k1 [of "Suc (Suc b)"] in \<open>simp_all add: s4_def s3_def s2(5) sk1 zero_socket_def\<close>)
  have "k \<notin> {b, Suc b, Suc (Suc b)} \<union> slot_blks As \<and> blocks s4 k = blocks s k" if "blocks s k \<noteq> None" for k
    using that old [OF that] k1 [of k] by auto
  then show thesis using create s2(1) set_on connect so
    by (intro that [of s1 s2 s3 s4 "{b, Suc b, Suc (Suc b)} \<union> slot_blks As"]) (simp_all add: s4_def s3_def s2(5) sk1 zero_socket_def)
qed

section \<open>The thread function\<close>

text \<open>The loop of the thread, iteration by iteration.\<close>

fun iterations :: "user_code \<Rightarrow> nat \<Rightarrow> nat \<times> sys \<Rightarrow> (nat \<times> sys) option" where
  "iterations user 0 c = Some c"
| "iterations user (Suc k) (n, s) =
     (if s_command (sk s) < COMMAND_END then do { c \<leftarrow> work_iteration user n s; iterations user k c } else None)"

lemma work_th_func_loop: "rws_socket_work_th_func user h s = do { s \<leftarrow> work_loop user 0 s; thread_end h s }"
  by (simp add: rws_socket_work_th_func_def thread_end_def)

lemma loop_iterations:
  assumes "work_loop user n s = Some t"
  shows "\<exists>k n'. iterations user k (n, s) = Some (n', t) \<and> \<not> s_command (sk t) < COMMAND_END"
proof (rule work_loop.raw_induct [where P = "\<lambda>user n s t. \<exists>k n'. iterations user k (n, s) = Some (n', t) \<and>
    \<not> s_command (sk t) < COMMAND_END", OF _ assms])
  fix loop user n s t
  assume IH: "\<And>user n s t. loop user n s = Some t \<Longrightarrow>
      \<exists>k n'. iterations user k (n, s) = Some (n', t) \<and> \<not> s_command (sk t) < COMMAND_END"
    and body: "(if s_command (sk s) < COMMAND_END then do { (n, s) \<leftarrow> work_iteration user n s; loop user n s } else Some s) = Some t"
  show "\<exists>k n'. iterations user k (n, s) = Some (n', t) \<and> \<not> s_command (sk t) < COMMAND_END"
  proof (cases "s_command (sk s) < COMMAND_END")
    case True
    with body obtain n1 s1 where s1: "work_iteration user n s = Some (n1, s1)" "loop user n1 s1 = Some t"
      by (auto elim!: bind_SomeE)
    from IH [OF s1(2)] obtain k n' where "iterations user k (n1, s1) = Some (n', t)" "\<not> s_command (sk t) < COMMAND_END" by blast
    then show ?thesis using True s1(1) by (intro exI [of _ "Suc k"] exI [of _ n']) simp
  next
    case False
    then show ?thesis using body by (intro exI [of _ 0] exI [of _ n]) simp
  qed
qed

lemma iterations_loop:
  "iterations user k (n, s) = Some (n', t) \<Longrightarrow> \<not> s_command (sk t) < COMMAND_END \<Longrightarrow> work_loop user n s = Some t"
proof (induction k arbitrary: n s)
  case 0
  then show ?case by (subst work_loop.simps) simp
next
  case (Suc k)
  then obtain n1 s1 where s1: "s_command (sk s) < COMMAND_END" "work_iteration user n s = Some (n1, s1)"
      "iterations user k (n1, s1) = Some (n', t)" by (auto split: if_splits elim!: bind_SomeE)
  then show ?case using Suc.IH [OF s1(3) Suc.prems(2)] by (subst work_loop.simps) simp
qed

lemma iterations_replicate:
  "iterations user k (n, s) = Some (n', t) \<Longrightarrow> run user h (replicate (4 * k) Work @ as) (Guard, n, s) = run user h as (Guard, n', t)"
proof (induction k arbitrary: n s)
  case (Suc k)
  then obtain n1 s1 where "s_command (sk s) < COMMAND_END" "work_iteration user n s = Some (n1, s1)"
      and rest: "iterations user k (n1, s1) = Some (n', t)"
    by (auto split: if_splits elim!: bind_SomeE)
  then have "run user h [Work, Work, Work, Work] (Guard, n, s) = Some (Guard, n1, s1)"
    by (auto simp: work_iteration_def work_inform_def elim!: bind_SomeE)
  then have "run user h (Work # Work # Work # Work # bs) (Guard, n, s) = run user h bs (Guard, n1, s1)" for bs
    by (auto elim!: bind_SomeE)
  then show ?case using Suc.IH [OF rest] by (simp del: run.simps add: eval_nat_numeral)
qed simp

text \<open>The thread function and the runs agree.  \<open>rws_socket_work_th_func\<close> returns with a state exactly when some
  number of iterations, each begun below \<open>COMMAND_END\<close>, reaches \<open>COMMAND_END\<close> and the end of the thread
  is defined there; the state is that of the run which makes the four steps of each iteration and one more.  So a
  run is the thread with the calls of the client put in between.\<close>

lemma thread_is_iterations:
  "rws_socket_work_th_func user h s = Some s' \<longleftrightarrow>
     (\<exists>k n' s1. iterations user k (0, s) = Some (n', s1) \<and> \<not> s_command (sk s1) < COMMAND_END \<and>
        run user h (replicate (4 * k) Work @ [Work]) (Guard, 0, s) = Some (Ended, n', s'))"
proof -
  have last: "run user h (replicate (4 * k) Work @ [Work]) (Guard, 0, s) = map_option (\<lambda>s. (Ended, n', s)) (thread_end h s1)"
    if "iterations user k (0, s) = Some (n', s1)" "\<not> s_command (sk s1) < COMMAND_END" for k n' s1
    using iterations_replicate [OF that(1), of h "[Work]"] that(2) by (cases "thread_end h s1") simp_all
  show ?thesis
  proof
    assume "rws_socket_work_th_func user h s = Some s'"
    then obtain t where t: "work_loop user 0 s = Some t" "thread_end h t = Some s'"
      unfolding work_th_func_loop by (rule bind_SomeE)
    from loop_iterations [OF t(1)] obtain k n' where k: "iterations user k (0, s) = Some (n', t)" "\<not> s_command (sk t) < COMMAND_END" by blast
    then show "\<exists>k n' s1. iterations user k (0, s) = Some (n', s1) \<and> \<not> s_command (sk s1) < COMMAND_END \<and>
        run user h (replicate (4 * k) Work @ [Work]) (Guard, 0, s) = Some (Ended, n', s')"
      using last [OF k] t(2) by (metis option.simps(9))
  next
    assume "\<exists>k n' s1. iterations user k (0, s) = Some (n', s1) \<and> \<not> s_command (sk s1) < COMMAND_END \<and>
        run user h (replicate (4 * k) Work @ [Work]) (Guard, 0, s) = Some (Ended, n', s')"
    then obtain k n' s1 where k: "iterations user k (0, s) = Some (n', s1)" "\<not> s_command (sk s1) < COMMAND_END"
        "run user h (replicate (4 * k) Work @ [Work]) (Guard, 0, s) = Some (Ended, n', s')" by blast
    have "thread_end h s1 = Some s'" using last [OF k(1,2)] k(3) by (cases "thread_end h s1") simp_all
    then show "rws_socket_work_th_func user h s = Some s'"
      using iterations_loop [OF k(1,2)] by (simp add: work_th_func_loop)
  qed
qed

section \<open>Applications\<close>

text \<open>An application that only looks on, and one that greets its peer and sends every text back.\<close>

lemma civil_onlooker: "civil (\<lambda>e. Some) b"
  using evolves_refl by (fastforce simp: civil_def)

definition small_text :: "u8 list \<Rightarrow> bool" where
  "small_text msg \<longleftrightarrow> 0 \<notin> set msg \<and> length msg < 2 ^ 31 - 14"

definition echo :: "nat \<Rightarrow> u8 list \<Rightarrow> user_code" where
  "echo b msg e s =
     (case e of On_connected \<Rightarrow> do { (_, s) \<leftarrow> rws_socket_send_text (Ptr b 0) (Lit msg 0) s; Some s }
      | On_text bs \<Rightarrow> (if small_text bs then do { (_, s) \<leftarrow> rws_socket_send_text (Ptr b 0) (Lit bs 0) s; Some s } else Some s)
      | _ \<Rightarrow> Some s)"

lemma civil_echo:
  assumes "small_text msg"
  shows "civil (echo b msg) b"
  unfolding civil_def
proof (intro allI impI)
  fix e U s assume so: "sound b U (park NULL s)"
  have call: "\<exists>s' U'. do { (_, s) \<leftarrow> rws_socket_send_text (Ptr b 0) (Lit bs 0) s; Some s } = Some s' \<and>
      sound b U' (park NULL s') \<and> evolves U s U' s' \<and> s_recvd_frames (sk s') = s_recvd_frames (sk s)" if "small_text bs" for bs
    using send_text_parked [OF so, of bs] that by (auto simp: small_text_def)
  have none: "\<exists>s' U'. Some s = Some s' \<and> sound b U' (park NULL s') \<and> evolves U s U' s' \<and> s_recvd_frames (sk s') = s_recvd_frames (sk s)"
    using so by (intro exI [of _ s] exI [of _ U]) simp
  show "\<exists>s' U'. echo b msg e s = Some s' \<and> sound b U' (park NULL s') \<and> evolves U s U' s' \<and> s_recvd_frames (sk s') = s_recvd_frames (sk s)"
    using call [OF assms] call none unfolding echo_def by (auto split: event.split)
qed

section \<open>The program\<close>

text \<open>C1: The program is memory-safe from its first call to the end of its thread, as long as peer and client keep to what is asked
  of them.  A client with a proper URL (non-empty parts, a positive port, a request below 512 bytes) creates a socket, sets the URL and the
  callback for the disconnect, and connects; all four calls succeed.  Then however the steps of the work thread (\<open>work_step\<close>) interleave
  with its calls (texts to send, queries, the release), and whatever the name service, \<open>connect\<close> and \<open>send\<close> answer and however
  \<open>recv\<close> cuts and fails, every operation of a \<open>good\<close> run returns without undefined behaviour, and no block of the client changes.
  A run is good when the handle is alive at every call and step, and each action is \<open>admissible\<close>.  Of the peer that asks: its answer to
  the request is empty or one in which the scans of the parser end, be it an acceptance or a refusal, and its frames are regular
  (\<open>fair\<close>; without it \<open>handshake_reads_past_end\<close> and \<open>fragmented_message_undefined\<close> apply).  Of the client: its texts are C
  strings below \<open>2^31 - 14\<close> bytes, the end of the thread finds nothing to send, and the release neither that nor undelivered messages
  (otherwise \<open>release_hangs_with_queued_text\<close> and \<open>release_before_delivery_hangs\<close> apply); and its callbacks, which may themselves
  send texts, leave the socket sound (\<open>civil\<close>).\<close>

theorem program_safe:
  assumes "fresh_ok s" and "c_string t1 scheme s" "c_string t2 host s" "c_string t3 path s"
    and "scheme \<noteq> []" "host \<noteq> []" "path \<noteq> []" and "0 < port" and "length (request_text scheme host port path) < 512"
    and "civil user (next_blk s)"
  shows "\<exists>s1 s2 s3 s4. rws_socket_create s = (Ptr (next_blk s) 0, s1) \<and>
    rws_socket_set_url (Ptr (next_blk s) 0) t1 t2 port t3 s1 = Some s2 \<and>
    rws_socket_set_on_disconnected (Ptr (next_blk s) 0) (Some f) s2 = Some s3 \<and>
    rws_socket_connect (Ptr (next_blk s) 0) s3 = Some (True, s4) \<and>
    (\<forall>as. good user (Ptr (next_blk s) 0) as (Guard, 0, s4) \<longrightarrow>
      (\<exists>pc' n' s'. run user (Ptr (next_blk s) 0) as (Guard, 0, s4) = Some (pc', n', s') \<and>
        (\<forall>k. blocks s k \<noteq> None \<longrightarrow> blocks s' k = blocks s k)))"
proof -
  obtain s1 s2 s3 s4 U where st: "rws_socket_create s = (Ptr (next_blk s) 0, s1)"
      "rws_socket_set_url (Ptr (next_blk s) 0) t1 t2 port t3 s1 = Some s2"
      "rws_socket_set_on_disconnected (Ptr (next_blk s) 0) (Some f) s2 = Some s3"
      "rws_socket_connect (Ptr (next_blk s) 0) s3 = Some (True, s4)" "sound (next_blk s) U s4"
      "s_command (sk s4) = COMMAND_CONNECT_TO_HOST" "s_send_frames (sk s4) = NULL"
      "\<And>k. blocks s k \<noteq> None \<Longrightarrow> k \<notin> U \<and> blocks s4 k = blocks s k"
    by (rule start_run [OF assms(1-9), of f]) (rule that, assumption+)
  have fresh: "fresh_ok s4" using st(5) holds_fresh by (auto simp: sound_def joined_def)
  have "\<exists>pc' n' s'. run user (Ptr (next_blk s) 0) as (Guard, 0, s4) = Some (pc', n', s') \<and> (\<forall>k. blocks s k \<noteq> None \<longrightarrow> blocks s' k = blocks s k)"
    if "good user (Ptr (next_blk s) 0) as (Guard, 0, s4)" for as
  proof -
    from run_safe [OF assms(10) sound_steady [OF st(5)] that] obtain pc' n' s' U' where "run user (Ptr (next_blk s) 0) as (Guard, 0, s4) = Some (pc', n', s')"
        "evolves U s4 U' s'" by blast
    moreover have "k < next_blk s4" if "blocks s k \<noteq> None" for k using st(8) [OF that] that fresh by (auto simp: fresh_ok_def)
    ultimately show ?thesis using st(8) by (auto simp: evolves_def)
  qed
  then show ?thesis using st(1-4) by blast
qed


theorem program_safe_witness:
  "\<exists>s1 s2 s3 s4 pc' n' s'. rws_socket_create (sys_of [OBytes [Some 7]] zero_socket quiet_env) = (Ptr 1 0, s1) \<and>
     rws_socket_set_url (Ptr 1 0) (Lit (cstr ''ws'') 0) (Lit (cstr ''h'') 0) 80 (Lit (cstr ''/'') 0) s1 = Some s2 \<and>
     rws_socket_set_on_disconnected (Ptr 1 0) (Some 1) s2 = Some s3 \<and> rws_socket_connect (Ptr 1 0) s3 = Some (True, s4) \<and>
     run (echo 1 (cstr ''hello'')) (Ptr 1 0) [Ask_connected, Work, Work] (Guard, 0, s4) = Some (pc', n', s') \<and> blocks s' 0 = Some (OBytes [Some 7])"
proof -
  let ?s = "sys_of [OBytes [Some 7]] zero_socket quiet_env" and ?u = "echo 1 (cstr ''hello'')"
  have args: "c_string (Lit (cstr ''ws'') 0) (cstr ''ws'') ?s" "c_string (Lit (cstr ''h'') 0) (cstr ''h'') ?s"
      "c_string (Lit (cstr ''/'') 0) (cstr ''/'') ?s" by (simp_all add: cstr_def)
  have ne: "cstr ''ws'' \<noteq> []" "cstr ''h'' \<noteq> []" "cstr ''/'' \<noteq> []" and port: "(0 :: int) < 80"
    and len: "length (request_text (cstr ''ws'') (cstr ''h'') 80 (cstr ''/'')) < 512"
    by (simp_all add: request_text_def cstr_def)
  have b: "next_blk ?s = 1" and fresh: "fresh_ok ?s" by simp_all
  have civ: "civil ?u (next_blk ?s)" unfolding b by (rule civil_echo) (simp add: small_text_def cstr_def)
  obtain s1 s2 s3 s4 U where st: "rws_socket_create ?s = (Ptr 1 0, s1)"
      "rws_socket_set_url (Ptr 1 0) (Lit (cstr ''ws'') 0) (Lit (cstr ''h'') 0) 80 (Lit (cstr ''/'') 0) s1 = Some s2"
      "rws_socket_set_on_disconnected (Ptr 1 0) (Some 1) s2 = Some s3" "rws_socket_connect (Ptr 1 0) s3 = Some (True, s4)"
      "sound 1 U s4" "s_command (sk s4) = COMMAND_CONNECT_TO_HOST"
    by (rule start_run [OF fresh args ne port len, of 1, unfolded b])
  have "alive (Ptr 1 0) s4 = Some ()" using st(5) joined_alive by (auto simp: sound_def)
  moreover have "s_socket (sk s4) = RWS_INVALID_SOCKET" using st(5,6) by (auto simp: sound_def stage_ok_def)
  then have "fair s4" using st(6) by (simp add: fair_def)
  ultimately have good: "good ?u (Ptr 1 0) [Ask_connected, Work, Work] (Guard, 0, s4)"
    using ask_steady [OF sound_steady [OF st(5), of Guard]] st(6) by (simp split: option.split)
  from program_safe [OF fresh args ne port len civ, of 1, unfolded b]
  obtain r1 r2 r3 r4 where r: "rws_socket_create ?s = (Ptr 1 0, r1)"
      "rws_socket_set_url (Ptr 1 0) (Lit (cstr ''ws'') 0) (Lit (cstr ''h'') 0) 80 (Lit (cstr ''/'') 0) r1 = Some r2"
      "rws_socket_set_on_disconnected (Ptr 1 0) (Some 1) r2 = Some r3" "rws_socket_connect (Ptr 1 0) r3 = Some (True, r4)"
      "\<forall>as. good ?u (Ptr 1 0) as (Guard, 0, r4) \<longrightarrow> (\<exists>pc' n' s'. run ?u (Ptr 1 0) as (Guard, 0, r4) = Some (pc', n', s') \<and>
        (\<forall>k. blocks ?s k \<noteq> None \<longrightarrow> blocks s' k = blocks ?s k))" by blast
  have "r1 = s1" using r(1) st(1) by simp
  then have "r2 = s2" using r(2) st(2) by simp
  then have "r3 = s3" using r(3) st(3) by simp
  then have "r4 = s4" using r(4) st(4) by simp
  with r(5) good obtain pc' n' s' where run: "run ?u (Ptr 1 0) [Ask_connected, Work, Work] (Guard, 0, s4) = Some (pc', n', s')"
      "\<forall>k. blocks ?s k \<noteq> None \<longrightarrow> blocks s' k = blocks ?s k" by blast
  have "blocks ?s 0 = Some (OBytes [Some 7])" by simp
  then have "blocks s' 0 = Some (OBytes [Some 7])" using run(2) by (metis option.distinct(1))
  then show ?thesis using st(1-4) run(1) by blast
qed


text \<open>C4: Soundness of the state is an invariant with progress, under admissible actions and civil callbacks.  Wherever the work
  thread stands, in a sound state (the session, the mutexes, the URL and the accept key on disjoint live blocks \<open>U\<close>, the stage the
  command says) an admissible action is defined, touches no live block outside \<open>U\<close>, and leaves a sound state again, unless it
  was the last one, which frees the socket.  Admissible is: the step of the thread under the mutex when what it receives is fair (an
  answer to the upgrade in which the parser's scans end, or an empty one; regular frames), the end of the thread when no frame is
  queued, every other step of the thread, a text that is a C string below \<open>2^31 - 14\<close> bytes, a query, and a release when nothing is
  queued in either direction.  Civil callbacks leave the socket sound.\<close>

theorem action_keeps_sound:
  assumes "steady b U pc s" and "civil user b" and "admissible a (pc, n, s)"
  shows "\<exists>pc' n' s' U'. act user (Ptr b 0) a (pc, n, s) = Some (pc', n', s') \<and> evolves U s U' s' \<and>
    (steady b U' pc' s' \<or> U' = {} \<and> alive (Ptr b 0) s' = None)"
  by (rule act_safe [OF assms])

text \<open>A started socket, for the examples.\<close>

definition started :: sys where
  "started = sys_of [OSocket, OMutex 0, OMutex 0, OBytes (map Some (cstr ''ws'' @ [0])), OBytes (map Some (cstr ''h'' @ [0])),
      OBytes (map Some (cstr ''/'' @ [0])), OBytes []]
    (zero_socket\<lparr>s_port := 80, s_socket := RWS_INVALID_SOCKET, s_command := COMMAND_CONNECT_TO_HOST, s_scheme := Ptr 3 0, s_host := Ptr 4 0,
      s_path := Ptr 5 0, s_work_mutex := Ptr 1 0, s_send_mutex := Ptr 2 0, s_work_thread := Ptr 6 0, s_on_disconnected := Some 1\<rparr>) quiet_env"

lemma started_fields:
  "s_scheme (sk started) = Ptr 3 0" "s_host (sk started) = Ptr 4 0" "s_path (sk started) = Ptr 5 0" "s_port (sk started) = 80"
  "s_work_mutex (sk started) = Ptr 1 0" "s_send_mutex (sk started) = Ptr 2 0" "s_work_thread (sk started) = Ptr 6 0"
  "s_sec_ws_accept (sk started) = NULL" "s_command (sk started) = COMMAND_CONNECT_TO_HOST" "s_socket (sk started) = RWS_INVALID_SOCKET"
  "s_send_frames (sk started) = NULL" "s_on_disconnected (sk started) = Some 1" "\<not> s_is_connected (sk started)"
  "ev started = quiet_env" "trace started = []"
  "blocks started 0 = Some OSocket" "blocks started (Suc 0) = Some (OMutex 0)" "blocks started 2 = Some (OMutex 0)"
  by (simp_all add: started_def zero_socket_def)

lemma started_url: "url_at started (cstr ''ws'') (cstr ''h'') (cstr ''/'') [[3], [4], [5]]"
proof -
  have "c_string (Ptr 3 0) (cstr ''ws'') started" "c_string (Ptr 4 0) (cstr ''h'') started" "c_string (Ptr 5 0) (cstr ''/'') started"
    unfolding started_def by (intro c_string_block; simp add: cstr_def)+
  then have strs: "str_at (Ptr 3 0) (cstr ''ws'') [3] started" "str_at (Ptr 4 0) (cstr ''h'') [4] started" "str_at (Ptr 5 0) (cstr ''/'') [5] started"
    by (simp_all add: str_at_def cstr_def)
  then show ?thesis by (simp add: url_at_def slots_at_def started_fields All_less_Suc)
qed

lemma started_sound: "sound 0 ({0, 1, 2} \<union> slot_blks [[3], [4], [5]]) started"
  by (rule sound_at_start [OF _ started_url])
    (simp_all add: started_fields request_text_def cstr_def, simp_all add: started_def zero_socket_def)

theorem action_keeps_sound_witness:
  "\<exists>pc' n' s' U'. act (echo 0 [33]) (Ptr 0 0) Work (Locked, 0, started) = Some (pc', n', s') \<and>
     (steady 0 U' pc' s' \<or> U' = {} \<and> alive (Ptr 0 0) s' = None)"
proof -
  have "civil (echo 0 [33]) 0" by (rule civil_echo) (simp add: small_text_def)
  moreover have "admissible Work (Locked, 0, started)" by (simp add: fair_def started_fields)
  ultimately show ?thesis using action_keeps_sound [OF sound_steady [OF started_sound]] by blast
qed

text \<open>How a thread that was told to end leaves: what it sends, closes and frees.\<close>

definition leaves :: "nat set \<Rightarrow> sys \<Rightarrow> u8 list \<Rightarrow> sys \<Rightarrow> bool" where
  "leaves U s key s' \<longleftrightarrow> length key = 4 \<and> blocks s' = (\<lambda>k. if k \<in> U then None else blocks s k) \<and>
     trace s' = trace s @ (if s_command (sk s) = COMMAND_DISCONNECT \<and> 0 < fst (send_result s)
         then [Sent (take (nat (fst (send_result s))) (encode_frame 8 (Some key) (utoa (unat (next_id s)))))] else []) @
       (if s_socket (sk s) = RWS_INVALID_SOCKET then [] else [Closed (s_socket (sk s))])"

lemma run_more: "run user h (replicate k Work) c = Some (Ended, n, s) \<Longrightarrow> run user h (replicate (k + j) Work) c = Some (Ended, n, s)"
proof (induction k arbitrary: c)
  case 0
  then show ?case by (induction j) auto
next
  case (Suc k)
  then show ?case by (auto elim!: bind_SomeE)
qed

text \<open>From the end of the loop, and from the work mutex, with the command to disconnect or to end.\<close>

lemma end_leaves:
  assumes own: "owns s b U" and cmd: "s_command (sk s) = COMMAND_END"
  obtains s' key where "run user (Ptr b 0) (replicate 1 Work) (Guard, n, s) = Some (Ended, n, s')" and "leaves U s key s'"
  by (rule end_owns [OF own]) (rule that [of _ "[0, 0, 0, 0]"]; simp add: cmd leaves_def)

lemma locked_leaves:
  assumes own: "owns s b U" and fresh: "fresh_ok s" and cmd: "s_command (sk s) \<in> {COMMAND_DISCONNECT, COMMAND_END}"
  obtains s' key where "run user (Ptr b 0) (replicate 4 Work) (Locked, n, s) = Some (Ended, Suc n, s')" and "leaves U s key s'"
proof (cases "s_command (sk s) = COMMAND_END")
  case True
  obtain w where "s_work_mutex (sk s) = Ptr w 0" "blocks s w = Some (OMutex 0)" using own by (auto simp: owns_def)
  then have mx: "mutex_at s (s_work_mutex (sk s)) 0" by (simp add: mutex_at_def)
  have "work_locked n s = Some (Suc n, s)"
    using True lock_run [OF mx] unlock_run [OF mutex_at_count [OF mx]] with_count_twice [OF mx]
    by (simp add: work_locked_def work_command_def)
  moreover obtain s' key where "run user (Ptr b 0) (replicate 1 Work) (Guard, Suc n, s) = Some (Ended, Suc n, s')" "leaves U s key s'"
    by (rule end_leaves [OF own True])
  ultimately show thesis using True by (intro that) (simp_all add: eval_nat_numeral inform_branch_def)
next
  case False
  then have dis: "s_command (sk s) = COMMAND_DISCONNECT" using cmd by simp
  obtain t S' key where t: "work_locked n s = Some (Suc n, t)" "s_command (sk t) = COMMAND_END" "length key = 4" "owns t b S'"
      "\<And>l. (if l \<in> S' then None else blocks t l) = (if l \<in> U then None else blocks s l)"
      "s_socket (sk t) = (if send_fails s then RWS_INVALID_SOCKET else s_socket (sk s))"
      "trace t = trace s @ (if 0 < fst (send_result s)
        then [Sent (take (nat (fst (send_result s))) (encode_frame 8 (Some key) (utoa (unat (next_id s)))))] else []) @
      (if send_fails s \<and> s_socket (sk s) \<noteq> RWS_INVALID_SOCKET then [Closed (s_socket (sk s))] else [])"
    by (rule disconnect_locked [OF own fresh dis]) blast
  obtain s' k where s': "run user (Ptr b 0) (replicate 1 Work) (Guard, Suc n, t) = Some (Ended, Suc n, s')" "leaves S' t k s'"
    by (rule end_leaves [OF t(4,2)])
  have "leaves U s key s'"
    using s'(2) t(2,3,6,7) dis unfolding leaves_def by (auto simp: t(5) send_fails_def)
  moreover have "run user (Ptr b 0) (replicate 4 Work) (Locked, n, s) = Some (Ended, Suc n, s')"
    using s'(1) t(1,2) by (simp add: eval_nat_numeral inform_branch_def)
  ultimately show thesis by (intro that)
qed

text \<open>From every other place but the two at which the thread is about to overwrite the command.\<close>

lemma told_leaves:
  assumes own: "owns s b U" and fresh: "fresh_ok s" and cmd: "s_command (sk s) \<in> {COMMAND_DISCONNECT, COMMAND_END}"
    and pc: "pc \<in> {Guard, Locked, Switch} \<or> (\<exists>c. pc = Inform c \<and> c \<notin> {COMMAND_INFORM_CONNECTED, COMMAND_INFORM_DISCONNECTED})"
  obtains n' s' key where "run user (Ptr b 0) (replicate 7 Work) (pc, n, s) = Some (Ended, n', s')" and "leaves U s key s'"
proof -
  obtain n1 s1 k1 where guard: "run user (Ptr b 0) (replicate 5 Work) (Guard, n, s) = Some (Ended, n1, s1)" "leaves U s k1 s1"
  proof (cases "s_command (sk s) = COMMAND_END")
    case True
    obtain s' key where s': "run user (Ptr b 0) (replicate 1 Work) (Guard, n, s) = Some (Ended, n, s')" "leaves U s key s'"
      by (rule end_leaves [OF own True])
    from run_more [OF s'(1), of 4] s'(2) show thesis by (intro that [of n s' key]) simp_all
  next
    case False
    then have "s_command (sk s) < COMMAND_END" using cmd by auto
    then show thesis using locked_leaves [OF own fresh cmd, of user n] that by (auto simp: eval_nat_numeral)
  qed
  have none: "s_recvd_frames (sk s) = NULL" using own by (auto simp: owns_def)
  consider "pc = Guard" | "pc = Locked" | "pc = Switch" | c where "pc = Inform c" "c \<notin> {COMMAND_INFORM_CONNECTED, COMMAND_INFORM_DISCONNECTED}"
    using pc by auto
  then show thesis
  proof cases
    case 1
    then show thesis using run_more [OF guard(1), of 2] guard(2) by (intro that [of n1 s1 k1]) simp_all
  next
    case 2
    obtain s' key where s': "run user (Ptr b 0) (replicate 4 Work) (Locked, n, s) = Some (Ended, Suc n, s')" "leaves U s key s'"
      by (rule locked_leaves [OF own fresh cmd])
    from run_more [OF s'(1), of 3] s'(2) 2 show thesis by (intro that [of "Suc n" s' key]) simp_all
  next
    case 3
    then show thesis using guard cmd by (intro that [of n1 s1 k1]) (auto simp: eval_nat_numeral inform_branch_def)
  next
    case 4
    then have "run user (Ptr b 0) (replicate 6 Work) (pc, n, s) = Some (Ended, n1, s1)"
      using guard(1) none by (simp add: eval_nat_numeral inform_branch_def)
    from run_more [OF this, of 1] guard(2) show thesis by (intro that [of n1 s1 k1]) simp_all
  qed
qed

lemma sound_fresh_ok: "sound b U s \<Longrightarrow> fresh_ok s"
  using holds_fresh unfolding sound_def joined_def by blast

text \<open>C7: A release ends the thread whatever the peer does.  Let the socket be sound and nothing be queued in either direction, and
  let the work thread stand anywhere - before its loop test, before it takes the work mutex, before the second \<open>switch\<close> reads the
  command, or before it acts on a command it has read - except at one of the two commands at which it is about to overwrite the
  command itself: \<open>COMMAND_INFORM_CONNECTED\<close>, where the release is lost (\<open>release_lost\<close>), and \<open>COMMAND_INFORM_DISCONNECTED\<close>, where the
  thread ends anyway.  Then after a call of \<open>rws_socket_disconnect_and_release\<close> the thread is at its end within seven
  more of its steps: it sends one masked close frame if the socket is connected (as far as the kernel takes it), closes the
  descriptor once if there is one, frees exactly the blocks the socket owns, changes no other block, and makes no callback.\<close>

theorem release_ends_thread:
  assumes "sound b U s" and "s_send_frames (sk s) = NULL"
    and "pc \<in> {Guard, Locked, Switch} \<or> (\<exists>c. pc = Inform c \<and> c \<notin> {COMMAND_INFORM_CONNECTED, COMMAND_INFORM_DISCONNECTED})"
  shows "\<exists>n' s' key. run user (Ptr b 0) (Release # replicate 7 Work) (pc, n, s) = Some (Ended, n', s') \<and> length key = 4 \<and>
    blocks s' = (\<lambda>k. if k \<in> U then None else blocks s k) \<and>
    trace s' = trace s @ (if s_is_connected (sk s) \<and> 0 < fst (send_result s)
        then [Sent (take (nat (fst (send_result s))) (encode_frame 8 (Some key) (utoa (unat (next_id s)))))] else []) @
      (if s_socket (sk s) = RWS_INVALID_SOCKET then [] else [Closed (s_socket (sk s))])"
proof -
  obtain P V bs ys where jn: "joined s b 0 P V bs [] ys" using assms(1) by (auto simp: sound_def)
  have st: "setup_at s b 0 P" using jn by (simp add: joined_def)
  have thread: "s_work_thread (sk s) \<noteq> NULL" using st by (auto simp: setup_at_def)
  define c where "c = (if s_is_connected (sk s) then COMMAND_DISCONNECT else COMMAND_END)"
  let ?t = "s\<lparr>sk := (sk s)\<lparr>s_command := c\<rparr>\<rparr>"
  have rel: "rws_socket_disconnect_and_release (Ptr b 0) s = Some ?t"
    using release_run [OF joined_alive [OF jn] setup_mutexes(1) [OF st] assms(2)] thread by (simp add: c_def)
  have own: "owns ?t b U" by (rule owns_cong [OF sound_owns [OF assms(1,2)]]) simp_all
  have same: "fresh_ok ?t" "s_command (sk ?t) \<in> {COMMAND_DISCONNECT, COMMAND_END}" "send_result ?t = send_result s" "next_id ?t = next_id s"
    using sound_fresh_ok [OF assms(1)] by (simp_all add: send_result_def next_id_def c_def)
  obtain n' s' key where "run user (Ptr b 0) (replicate 7 Work) (pc, n, ?t) = Some (Ended, n', s')" "leaves U ?t key s'"
    by (rule told_leaves [OF own same(1,2) assms(3)])
  moreover have "c = COMMAND_DISCONNECT \<longleftrightarrow> s_is_connected (sk s)" by (simp add: c_def)
  ultimately show ?thesis using rel unfolding leaves_def same(3,4)
    by (intro exI [of _ n'] exI [of _ s'] exI [of _ key]) (simp cong del: if_weak_cong)
qed

theorem release_ends_thread_witness:
  "\<exists>n' s'. run (\<lambda>e. Some) (Ptr 0 0) (Release # replicate 7 Work) (Switch, 0, started) = Some (Ended, n', s') \<and> live s' = {6} \<and> trace s' = []"
proof -
  let ?U = "{0, 1, 2} \<union> slot_blks [[3], [4], [5]]"
  have "s_send_frames (sk started) = NULL" by (simp add: started_fields)
  from release_ends_thread [OF started_sound this, of Switch "\<lambda>e. Some" 0]
  obtain n' s' where s': "run (\<lambda>e. Some) (Ptr 0 0) (Release # replicate 7 Work) (Switch, 0, started) = Some (Ended, n', s')"
      "blocks s' = (\<lambda>k. if k \<in> ?U then None else blocks started k)" "trace s' = []"
    by (auto simp: started_fields)
  have U: "?U = {0, 1, 2, 3, 4, 5}" using slot_blks3 [of "[[3], [4], [5 :: nat]]"] by auto
  have "k \<in> live s' \<longleftrightarrow> k = 6" for k
    unfolding live_def s'(2) U by (auto simp: started_def)
  then show ?thesis using s' by blast
qed

section \<open>The end by a failure\<close>

text \<open>
  What the thread does when it reports the end of a connection: it tries to send a close frame, which deletes the
  error that ended the session, and hands over what that attempt leaves: no error, or the one of a failed write, which
  closes the descriptor as well.
\<close>

definition farewell :: "sys \<Rightarrow> u8 list \<Rightarrow> nat \<Rightarrow> event list" where
  "farewell s key i =
     (if 0 < fst (send_result s) then [Sent (take (nat (fst (send_result s))) (encode_frame 8 (Some key) (utoa i)))] else []) @
     (if send_fails s \<and> s_socket (sk s) \<noteq> RWS_INVALID_SOCKET then [Closed (s_socket (sk s))] else []) @
     (if s_on_disconnected (sk s) = None then []
      else [On_disconnected (if send_fails s then rws_error_code_read_write_socket else rws_error_code_none)])"

lemma offline_fails: "s_socket (sk s) = RWS_INVALID_SOCKET \<Longrightarrow> send_fails s \<and> fst (send_result s) = -1"
  by (simp add: send_fails_def send_result_def write_code_def pending_error_def write_errnos_def)

lemma report_run:
  assumes jn: "joined s b 0 P V bs xs ys" and cmd: "s_command (sk s) = COMMAND_INFORM_DISCONNECTED" and user: "\<And>e s. user e s = Some s"
  obtains s' key i where "work_inform user s = Some s'" and "length key = 4" and "length (utoa i) \<le> 10"
    and "trace s' = trace s @ farewell s key i" and "s_command (sk s') = COMMAND_END" and "s_send_frames (sk s') = s_send_frames (sk s)"
    and "s_socket (sk s') = (if send_fails s then RWS_INVALID_SOCKET else s_socket (sk s))"
proof -
  let ?s = "s\<lparr>sk := (sk s)\<lparr>s_command := COMMAND_END\<rparr>\<rparr>"
  have "joined ?s b 0 P V bs xs ys" by (rule joined_sk [OF jn]) (simp_all add: same_setup_def)
  then obtain E where own: "fresh_ok ?s" "err_own ?s E" by (auto simp: joined_def session_def elim!: holdsE)
  have same: "send_result ?s = send_result s" "send_fails ?s = send_fails s" by (rule send_result_cong; simp)+
  let ?sent = "(if 0 < fst (send_result s) then [Sent (take (nat (fst (send_result s))) (encode_frame 8 (Some (made_key ?s)) (id_text ?s)))] else []) @
      (if send_fails s \<and> s_socket (sk s) \<noteq> RWS_INVALID_SOCKET then [Closed (s_socket (sk s))] else [])"
  obtain t D' where t: "rws_socket_send_disconnect ?s = Some t" "trace t = trace ?s @ ?sent"
      "\<not> send_fails s \<Longrightarrow> D' = [] \<and> sk t = (sk (bump_id ?s))\<lparr>s_error := NULL, s_command := COMMAND_END\<rparr>"
      "send_fails s \<Longrightarrow> \<exists>e. error_at e rws_error_code_read_write_socket D' t \<and>
        sk t = (closed_sk ((sk (bump_id ?s))\<lparr>s_error := e\<rparr>))\<lparr>s_command := COMMAND_END\<rparr>"
    by (rule send_disconnect_run [OF own, unfolded same]) (rule that; simp)
  let ?code = "if send_fails s then rws_error_code_read_write_socket else rws_error_code_none"
  let ?t = "if s_on_disconnected (sk s) = None then t else t\<lparr>trace := trace t @ [On_disconnected ?code]\<rparr>"
  have k: "error_code_of t = Some ?code" "s_on_disconnected (sk t) = s_on_disconnected (sk s)" "s_command (sk t) = COMMAND_END"
      "s_send_frames (sk t) = s_send_frames (sk s)" "s_socket (sk t) = (if send_fails s then RWS_INVALID_SOCKET else s_socket (sk s))"
    using t(3,4) by (cases "send_fails s"; auto simp: error_code_of_def rws_error_get_code_def [of NULL] closed_sk_def dest: error_at_code)+
  have "work_inform user s = Some ?t" using cmd t(1) k(1,2) user by (simp add: work_inform_switch call_user_def)
  moreover have "trace ?t = trace s @ farewell s (made_key ?s) (unat (next_id ?s))" using t(2) by (simp add: farewell_def)
  ultimately show thesis using k(3-5) sprint_id_run(2) by (intro that [of ?t "made_key ?s" "unat (next_id ?s)"]) simp_all
qed

lemma failure_run:
  assumes so: "sound b U s" and fr: "fair s" and cmd: "s_command (sk s) < COMMAND_END" and locked: "work_locked n s = Some (n', t)"
    and down: "s_command (sk t) = COMMAND_INFORM_DISCONNECTED" and none: "s_send_frames (sk t) = NULL" and user: "\<And>e s. user e s = Some s"
  obtains s' key i where "work_loop user n s \<bind> thread_end (Ptr b 0) = Some s'" and "length key = 4" and "length (utoa i) \<le> 10"
    and "trace s' = trace t @ farewell t key i @ (if send_fails t then [] else [Closed (s_socket (sk t))])"
    and "alive (Ptr b 0) s' = None" and "\<forall>j. blocks s j \<noteq> None \<longrightarrow> j \<notin> U \<longrightarrow> blocks s' j = blocks s j"
proof -
  have user': "civil user b" using civil_onlooker user by (simp add: civil_def)
  obtain P V bs xs ys where jn: "joined t b 0 P V bs xs ys"
    using locked_sound [OF so fr, of n] locked by auto
  obtain s1 key i where s1: "work_inform user t = Some s1" "length key = 4" "length (utoa i) \<le> 10" "trace s1 = trace t @ farewell t key i"
      "s_command (sk s1) = COMMAND_END" "s_send_frames (sk s1) = s_send_frames (sk t)"
      "s_socket (sk s1) = (if send_fails t then RWS_INVALID_SOCKET else s_socket (sk t))"
    by (rule report_run [OF jn down user])
  have it: "work_iteration user n s = Some (n', s1)" using locked s1(1) by (simp add: work_iteration_def)
  obtain U1 where U1: "sound b U1 s1" "evolves U s U1 s1" using iteration_sound [OF so fr user', of n] it by auto
  have loop: "work_loop user n s = Some s1" using work_loop_step [OF cmd it] s1(5) by (simp add: work_loop.simps [of user _ s1])
  have "s_send_frames (sk s1) = NULL" using s1(6) none by simp
  from end_sound [OF U1(1) this] obtain s' where s': "thread_end (Ptr b 0) s1 = Some s'" "blocks s' = (\<lambda>k. if k \<in> U1 then None else blocks s1 k)"
      "trace s' = trace s1 @ (if s_socket (sk s1) = RWS_INVALID_SOCKET then [] else [Closed (s_socket (sk s1))])" by blast
  have "alive (Ptr b 0) s' = None" using sound_in_U [OF U1(1)] by (simp add: alive_def obj_at_def s'(2))
  moreover have "blocks s' j = blocks s j" if "blocks s j \<noteq> None" "j \<notin> U" for j
    using that sound_fresh_ok [OF so] U1(2) by (auto simp: s'(2) evolves_def fresh_ok_def)
  moreover have "s_socket (sk t) \<noteq> RWS_INVALID_SOCKET" if "\<not> send_fails t" using that offline_fails by blast
  ultimately show thesis using loop s'(1,3) s1(2-4,7) by (intro that [of s' key i]) auto
qed

text \<open>C19: A failure ends the thread, with one report.  Let the step of the work thread under the mutex fail in a sound state with a
  fair peer, that is, leave the command at \<open>COMMAND_INFORM_DISCONNECTED\<close>: no address, no connection, an unsent request, an answer to
  the upgrade that is refused (with all the parser looks for inside it), a failed read, a close frame of the peer.  If no frame is queued
  to be sent and the callbacks only observe, the loop ends after that iteration and the thread function returns: the application
  has been called exactly once, if it has a callback for the disconnect, with error code 4 or no error according to whether the close frame could be
  written, never with the code of the failure; the descriptor is closed once; the socket is freed and every other block stays as it
  was.\<close>

theorem failure_ends_thread:
  assumes "sound b U s" and "fair s" and "s_command (sk s) < COMMAND_END" and "work_locked n s = Some (n', t)"
    and "s_command (sk t) = COMMAND_INFORM_DISCONNECTED" and "s_send_frames (sk t) = NULL" and "\<And>e s. user e s = Some s"
  shows "\<exists>s' key i. work_loop user n s \<bind> thread_end (Ptr b 0) = Some s' \<and> length key = 4 \<and>
    trace s' = trace t @
      (if 0 < fst (send_result t) then [Sent (take (nat (fst (send_result t))) (encode_frame 8 (Some key) (utoa i)))] else []) @
      (if send_fails t \<and> s_socket (sk t) \<noteq> RWS_INVALID_SOCKET then [Closed (s_socket (sk t))] else []) @
      (if s_on_disconnected (sk t) = None then []
       else [On_disconnected (if send_fails t then rws_error_code_read_write_socket else rws_error_code_none)]) @
      (if send_fails t then [] else [Closed (s_socket (sk t))]) \<and>
    alive (Ptr b 0) s' = None \<and> (\<forall>j. blocks s j \<noteq> None \<longrightarrow> j \<notin> U \<longrightarrow> blocks s' j = blocks s j)"
proof -
  obtain s' key i where s': "work_loop user n s \<bind> thread_end (Ptr b 0) = Some s'" "length key = 4"
      "trace s' = trace t @ farewell t key i @ (if send_fails t then [] else [Closed (s_socket (sk t))])"
      "alive (Ptr b 0) s' = None" "\<forall>j. blocks s j \<noteq> None \<longrightarrow> j \<notin> U \<longrightarrow> blocks s' j = blocks s j"
    by (rule failure_run [OF assms])
  then show ?thesis by (intro exI [of _ s'] exI [of _ key] exI [of _ i]) (simp add: farewell_def)
qed

text \<open>The step that fails to resolve the host.\<close>

lemma unresolved_locked:
  assumes so: "sound b U s" and cmd: "s_command (sk s) = COMMAND_CONNECT_TO_HOST" and none: "s_send_frames (sk s) = NULL"
    and host: "find resolved (stake 4 (env_addrinfo (ev s))) = None"
  obtains t where "work_locked n s = Some (Suc n, t)" and "s_command (sk t) = COMMAND_INFORM_DISCONNECTED" and "s_send_frames (sk t) = NULL"
    and "s_socket (sk t) = RWS_INVALID_SOCKET" and "s_on_disconnected (sk t) = s_on_disconnected (sk s)" and "trace t = trace s"
proof -
  let ?s = "with_count (s_work_mutex (sk s)) 1 s"
  obtain P V bs ys where jn: "joined s b 0 P V bs [] ys" and stg: "stage_ok (sk s) bs []" using so by (auto simp: sound_def)
  have inv: "s_socket (sk s) = RWS_INVALID_SOCKET" and bs: "bs = []" using stg cmd by (simp_all add: stage_ok_def)
  have "ys = []" using jn none by (auto simp: joined_def session_def elim!: holdsE)
  then have hl: "holds ?s V [] [] []" using joined_count(1) [OF jn, of 1] bs by (simp add: joined_def)
  from connect_holds [OF hl] inv obtain t V1 where t: "rws_socket_connect_to_host ?s = Some t" "holds t V1 [] [] []" "goes ?s V t V1"
    by auto
  obtain E where own: "fresh_ok ?s" "err_own ?s E" using hl by (auto simp: session_def elim!: holdsE)
  have it: "s_command (sk t) = COMMAND_INFORM_DISCONNECTED \<and> s_socket (sk t) = RWS_INVALID_SOCKET \<and> trace t = trace s"
    using getaddr_run [OF own] host t(1) inv by (auto simp: rws_socket_connect_to_host_def)
  have fr: "fair s" using cmd by (simp add: fair_def)
  have "work_command (Suc n) ?s = Some (Suc n, t)" using cmd t(1) by (simp add: work_command_def)
  then have "work_locked n s = Some (Suc n, with_count (s_work_mutex (sk t)) 0 t)" by (rule work_locked_run [OF so fr])
  moreover have "s_send_frames (sk t) = NULL" using t(2) by (auto simp: session_def elim!: holdsE dest: queue_holds_nothing)
  moreover have "s_on_disconnected (sk t) = s_on_disconnected (sk s)" using t(3) by (simp add: goes_def same_setup_def)
  ultimately show thesis using it by (intro that [of "with_count (s_work_mutex (sk t)) 0 t"]) simp_all
qed

theorem failure_ends_thread_witness:
  "\<exists>s'. work_loop (\<lambda>e. Some) 0 started \<bind> thread_end (Ptr 0 0) = Some s' \<and> alive (Ptr 0 0) s' = None \<and> trace s' = [On_disconnected 4]"
proof -
  have k: "s_command (sk started) = COMMAND_CONNECT_TO_HOST" "s_send_frames (sk started) = NULL" "fair started"
      "find resolved (stake 4 (env_addrinfo (ev started))) = None"
    by (simp_all add: started_fields fair_def quiet_env_def find_None_iff resolved_def in_set_conv_nth)
  obtain t where t: "work_locked 0 started = Some (Suc 0, t)" "s_command (sk t) = COMMAND_INFORM_DISCONNECTED" "s_send_frames (sk t) = NULL"
      "s_socket (sk t) = RWS_INVALID_SOCKET" "s_on_disconnected (sk t) = s_on_disconnected (sk started)" "trace t = trace started"
    by (rule unresolved_locked [OF started_sound k(1,2,4)])
  from failure_ends_thread [where user = "\<lambda>e. Some", OF started_sound k(3) _ t(1-3)] offline_fails [OF t(4)] k(1) t(4-6)
  show ?thesis by (auto simp: started_fields)
qed

text \<open>A host that cannot be resolved: the thread returns after its first iteration, with one call of \<open>on_disconnected\<close> and error
  code 4 (the failed close frame, not the failed connection).\<close>

lemma unresolved_host_ends_thread:
  assumes "sound b U s" and "s_command (sk s) = COMMAND_CONNECT_TO_HOST" and "s_send_frames (sk s) = NULL"
    and "find resolved (stake 4 (env_addrinfo (ev s))) = None" and "s_on_disconnected (sk s) \<noteq> None"
    and "\<And>e s. user e s = Some s"
  shows "\<exists>s'. rws_socket_work_th_func user (Ptr b 0) s = Some s' \<and> alive (Ptr b 0) s' = None \<and>
    trace s' = trace s @ [On_disconnected rws_error_code_read_write_socket] \<and>
    (\<forall>k. blocks s k \<noteq> None \<longrightarrow> k \<notin> U \<longrightarrow> blocks s' k = blocks s k)"
proof -
  obtain t where t: "work_locked 0 s = Some (Suc 0, t)" "s_command (sk t) = COMMAND_INFORM_DISCONNECTED" "s_send_frames (sk t) = NULL"
      "s_socket (sk t) = RWS_INVALID_SOCKET" "s_on_disconnected (sk t) = s_on_disconnected (sk s)" "trace t = trace s"
    by (rule unresolved_locked [OF assms(1-4)])
  have fr: "fair s" "s_command (sk s) < COMMAND_END" using assms(2) by (simp_all add: fair_def)
  obtain s' key i where "work_loop user 0 s \<bind> thread_end (Ptr b 0) = Some s'" "alive (Ptr b 0) s' = None"
      "trace s' = trace t @ farewell t key i @ (if send_fails t then [] else [Closed (s_socket (sk t))])"
      "\<forall>k. blocks s k \<noteq> None \<longrightarrow> k \<notin> U \<longrightarrow> blocks s' k = blocks s k"
    by (rule failure_run [OF assms(1) fr t(1-3) assms(6)])
  then show ?thesis using offline_fails [OF t(4)] t(4-6) assms(5) by (simp add: work_th_func_loop farewell_def)
qed

end
