(* ===== verification/Rws_Dialogue.thy ===== *)
theory Rws_Dialogue
  imports Rws_Run
begin

text \<open>
  A whole connection, from a started socket to the end of its thread: the three iterations of the opening,
  the messages of the peer, its close frame and the release, each with what it leaves in the socket, in the
  answers still to come and in the trace.
\<close>

section \<open>The opening\<close>

text \<open>The request of the URL a socket has.\<close>

definition asks :: "sys \<Rightarrow> u8 list \<Rightarrow> bool" where
  "asks s r \<longleftrightarrow> (\<exists>scheme host path. c_string (s_scheme (sk s)) scheme s \<and> c_string (s_host (sk s)) host s \<and>
     c_string (s_path (sk s)) path s \<and> r = request_text scheme host (s_port (sk s)) path)"

lemma setup_asks:
  assumes "setup_at s b c P" and "asks s r"
  shows "length r < 512"
  using setup_request [OF assms(1)] assms(2) c_string_unique unfolding request_fits_def asks_def by metis

lemma asks_cong:
  assumes st: "setup_at s b c P" and "asks s r" and same: "same_setup (sk s) (sk s')"
    and keep: "\<And>k cs. k \<in> P \<Longrightarrow> blocks s k = Some (OBytes cs) \<Longrightarrow> blocks s' k = blocks s k"
  shows "asks s' r"
proof -
  obtain sc ho pa where r: "c_string (s_scheme (sk s)) sc s" "c_string (s_host (sk s)) ho s" "c_string (s_path (sk s)) pa s"
      "r = request_text sc ho (s_port (sk s)) pa" using assms(2) unfolding asks_def by blast
  obtain w x K As sc' ho' pa' where P: "P = {b, w, x} \<union> set K \<union> slot_blks As" "url_at s sc' ho' pa' As" "sc' \<noteq> []" "ho' \<noteq> []" "pa' \<noteq> []"
    using st by (rule setup_atE)
  have str: "c_string p t s'" if "c_string p t s" "str_at p t' (As ! i) s" "t' \<noteq> []" "i < length As" for p t t' i
  proof -
    have "blocks s' k = blocks s k" if "p = Ptr k off" for k off
    proof -
      have "k \<in> set (As ! i)" using \<open>str_at p t' (As ! i) s\<close> \<open>t' \<noteq> []\<close> that by (auto simp: str_at_def)
      moreover from this obtain cs where "blocks s k = Some (OBytes cs)" using str_at_live \<open>str_at p t' (As ! i) s\<close> by blast
      ultimately show ?thesis using keep [of k cs] \<open>i < length As\<close> P(1) by (auto simp: slot_blks_def)
    qed
    then show ?thesis using c_string_cong [of p s' s t] that(1) by blast
  qed
  have "length As = 3" using P(2) by (simp add: url_at_def slots_at_def)
  then have "c_string (s_scheme (sk s)) sc s'" "c_string (s_host (sk s)) ho s'" "c_string (s_path (sk s)) pa s'"
    using str [OF r(1) url_at_strings(1) [OF P(2)]] str [OF r(2) url_at_strings(2) [OF P(2)]] str [OF r(3) url_at_strings(3) [OF P(2)]] P(3-5)
    by simp_all
  then show ?thesis using r(4) same unfolding asks_def same_setup_def by auto
qed

lemma sound_locked:
  assumes "sound b U s"
  defines "t \<equiv> with_count (s_work_mutex (sk s)) 1 s"
  obtains P V bs ys where "U = P \<union> V" and "joined s b 0 P V bs [] ys" and "stage_ok (sk s) bs []"
    and "joined t b 1 P V bs [] ys" and "mutex_at s (s_work_mutex (sk s)) 0"
  using assms setup_mutexes(1) joined_count(1) unfolding sound_def joined_def by metis

text \<open>The three iterations of the opening.\<close>

lemma count_keeps:
  assumes "mutex_at s p c" and "blocks s k = Some (OBytes cs)"
  shows "blocks (with_count p c' s) k = blocks s k"
  using assms by (auto simp: mutex_at_def with_count_def set_obj_def)

lemma connect_iteration:
  assumes so: "sound b U s" and user: "civil user b" and cmd: "s_command (sk s) = COMMAND_CONNECT_TO_HOST"
    and net: "find resolved (stake 4 (env_addrinfo (ev s))) = Some a" "length fds < snd a" "RWS_INVALID_SOCKET \<notin> set (fds @ [fd])"
      "env_socket (ev s) = (fds @ [fd]) @- socks" "env_connect (ev s) = (map (\<lambda>_. False) fds @ [True]) @- oks"
    and r: "asks s r"
  obtains s' U' as where "work_iteration user n s = Some (Suc n, s')" and "sound b U' s'" and "evolves U s U' s'"
    and "sk s' = (sk s)\<lparr>s_error := NULL, s_received_len := 0, s_socket := fd, s_command := COMMAND_SEND_HANDSHAKE\<rparr>"
    and "ev s' = (ev s)\<lparr>env_addrinfo := as, env_socket := socks, env_connect := oks\<rparr>" and "trace s' = trace s @ map Closed fds"
    and "asks s' r" and "length r < 512"
proof -
  let ?s = "with_count (s_work_mutex (sk s)) 1 s"
  obtain P V bs ys where U: "U = P \<union> V" and jn: "joined s b 0 P V bs [] ys" and stg: "stage_ok (sk s) bs []"
    and jn1: "joined ?s b 1 P V bs [] ys" and mx: "mutex_at s (s_work_mutex (sk s)) 0" by (rule sound_locked [OF so])
  have hl: "holds ?s V [] [] ys" using jn1 stg cmd by (simp add: joined_def stage_ok_def)
  obtain E where own: "fresh_ok ?s" "err_own ?s E" using hl by (auto simp: session_def elim!: holdsE)
  obtain t as where t: "rws_socket_connect_to_host ?s = Some t"
      "sk t = (sk ?s)\<lparr>s_error := NULL, s_received_len := 0, s_socket := fd, s_command := COMMAND_SEND_HANDSHAKE\<rparr>"
      "ev t = (ev ?s)\<lparr>env_addrinfo := as, env_socket := socks, env_connect := oks\<rparr>" "trace t = trace ?s @ map Closed fds"
  proof (rule connect_accepted [OF own _ net(2,3), of socks oks])
    show "find resolved (stake 4 (env_addrinfo (ev ?s))) = Some a" "env_socket (ev ?s) = (fds @ [fd]) @- socks"
        "env_connect (ev ?s) = (map (\<lambda>_. False) fds @ [True]) @- oks" using net by simp_all
  qed (rule that; assumption)
  obtain V' where V': "holds t V' [] [] ys" "goes ?s V t V'" using connect_holds [OF hl] t(1) stg cmd by (auto simp: stage_ok_def)
  let ?s' = "with_count (s_work_mutex (sk t)) 0 t"
  have jt: "joined t b 1 P V' [] [] ys"
    by (rule joined_step(1) [OF jn1 V'(1,2)]) (use jn1 in \<open>simp_all add: joined_def\<close>)
  have st: "setup_at s b 0 P" "setup_at ?s b 1 P" "setup_at t b 1 P" using jn jn1 jt by (simp_all add: joined_def)
  have a1: "asks ?s r" by (rule asks_cong [OF st(1) r]) (use count_keeps [OF mx] in simp_all)
  have same: "same_setup (sk ?s) (sk t)" and ev: "evolves V ?s V' t" and apart: "P \<inter> V = {}"
    using V'(2) jn1 by (simp_all add: goes_def joined_def)
  have "blocks t k = blocks ?s k" if "k \<in> P" for k
    using that ev apart setup_live [OF st(2) that] own(1) unfolding evolves_def fresh_ok_def by blast
  then have "asks t r" by (intro asks_cong [OF st(2) a1 same])
  then have asks: "asks ?s' r" by (rule asks_cong [OF st(3)]) (use count_keeps [OF setup_mutexes(1) [OF st(3)]] in simp_all)
  have cmd': "work_command (Suc n) ?s = Some (Suc n, t)" using cmd t(1) by (simp add: work_command_def)
  have inf: "work_inform user ?s' = Some ?s'" by (simp add: work_inform_switch t(2))
  have fr: "fair s" using cmd by (simp add: fair_def)
  obtain U' where "work_iteration user n s = Some (Suc n, ?s')" "sound b U' ?s'" "evolves U s U' ?s'"
    by (rule command_iteration [OF so fr user cmd' inf])
  then show thesis using t asks setup_asks [OF st(1) r] by (intro that [of ?s' U' as]) simp_all
qed

lemma handshake_iteration:
  assumes so: "sound b U s" and user: "civil user b" and cmd: "s_command (sk s) = COMMAND_SEND_HANDSHAKE"
    and r: "asks s r" "length r < 512" and net: "s_socket (sk s) \<noteq> RWS_INVALID_SOCKET" "int (length r) \<le> fst (shd (env_send (ev s)))"
  obtains s' U' where "work_iteration user n s = Some (Suc n, s')" and "sound b U' s'" and "evolves U s U' s'"
    and "sk s' = (sk s)\<lparr>s_error := NULL, s_command := COMMAND_WAIT_HANDSHAKE_RESPONCE\<rparr>"
    and "ev s' = (ev s)\<lparr>env_send := stl (env_send (ev s))\<rparr>" and "trace s' = trace s @ [Sent r]"
proof -
  let ?s = "with_count (s_work_mutex (sk s)) 1 s"
  obtain P V bs ys where jn: "joined s b 0 P V bs [] ys" and jn1: "joined ?s b 1 P V bs [] ys"
    and mx: "mutex_at s (s_work_mutex (sk s)) 0" by (rule sound_locked [OF so])
  obtain E where own: "err_own ?s E" using jn1 by (auto simp: joined_def session_def elim!: holdsE)
  have "asks ?s r" by (rule asks_cong [OF _ r(1), of b 0 P]) (use jn count_keeps [OF mx] in \<open>simp_all add: joined_def\<close>)
  then obtain sc ho pa where str: "c_string (s_scheme (sk ?s)) sc ?s" "c_string (s_host (sk ?s)) ho ?s" "c_string (s_path (sk ?s)) pa ?s"
      "r = request_text sc ho (s_port (sk ?s)) pa" unfolding asks_def by blast
  obtain t where t: "rws_socket_send_handshake ?s = Some t" "sk t = (sk ?s)\<lparr>s_error := NULL, s_command := COMMAND_WAIT_HANDSHAKE_RESPONCE\<rparr>"
      "ev t = (ev ?s)\<lparr>env_send := stl (env_send (ev ?s))\<rparr>" "trace t = trace ?s @ [Sent r]"
    by (rule handshake_taken [OF own str(1-3)]) (use str(4) r(2) net in simp_all)
  let ?s' = "with_count (s_work_mutex (sk t)) 0 t"
  have cmd': "work_command (Suc n) ?s = Some (Suc n, t)" using cmd t(1) by (simp add: work_command_def)
  have inf: "work_inform user ?s' = Some ?s'" by (simp add: work_inform_switch t(2))
  have fr: "fair s" using cmd by (simp add: fair_def)
  obtain U' where "work_iteration user n s = Some (Suc n, ?s')" "sound b U' ?s'" "evolves U s U' ?s'"
    by (rule command_iteration [OF so fr user cmd' inf])
  then show thesis using t by (intro that [of ?s' U']) simp_all
qed

lemma sound_session:
  assumes "sound b U s" and "s_send_frames (sk s) = NULL"
  obtains E bs D where "session s E bs D [] [] [] [] [] []"
    and "s_command (sk s) = COMMAND_WAIT_HANDSHAKE_RESPONCE \<Longrightarrow> bs = []"
proof -
  obtain P V bs ys where jn: "joined s b 0 P V bs [] ys" and stg: "stage_ok (sk s) bs []" using assms(1) unfolding sound_def by blast
  obtain E D ns Fs ms Gs where ses: "session s E bs D ns Fs [] ms Gs ys" using jn by (auto simp: joined_def elim!: holdsE)
  then have "queue_holds (blocks s) (s_recvd_frames (sk s)) ns Fs []" "queue_holds (blocks s) (s_send_frames (sk s)) ms Gs ys"
    by (simp_all add: session_def)
  then have "ns = [] \<and> Fs = []" "ms = [] \<and> Gs = [] \<and> ys = []" using assms(2) queue_holds_nothing by auto
  then show thesis using ses stg that by (auto simp: stage_ok_def)
qed

lemma accept_iteration:
  assumes so: "sound b U s" and user: "\<And>e s. user e s = Some s" and cmd: "s_command (sk s) = COMMAND_WAIT_HANDSHAKE_RESPONCE"
    and none: "s_send_frames (sk s) = NULL" and inc: "incoming s (reply # chunks)" and acc: "accepting key tail reply"
  obtains s' U' D where "work_iteration user n s = Some (Suc n, s')" and "sound b U' s'" and "evolves U s U' s'"
    and "session s' [] [] D [] [] [] [] [] []" and "online s'" and "incoming s' chunks"
    and "ev s' = (ev s)\<lparr>env_recv := stl (env_recv (ev s))\<rparr>" and "s_socket (sk s') = s_socket (sk s)"
    and "event_of (sk s') = event_of (sk s)" and "s_on_disconnected (sk s') = s_on_disconnected (sk s)"
    and "trace s' = trace s @ (if s_on_connected (sk s) = None then [] else [On_connected])"
proof -
  note inc' = incoming_Cons [OF inc]
  let ?s = "with_count (s_work_mutex (sk s)) 1 s"
  have mx: "mutex_at s (s_work_mutex (sk s)) 0" by (rule sound_locked [OF so])
  obtain E D where ses: "session s E [] D [] [] [] [] [] []" by (rule sound_session [OF so none]) (use cmd in blast)
  have ses1: "session ?s E [] D [] [] [] [] [] []" by (rule count_session [OF ses mx])
  have acc1: "recv_ok ?s" "accepting key tail (recv_data (fst (recv_result ?s)))" using inc'(1,2) acc by simp_all
  obtain t D' a where t: "rws_socket_wait_handshake_responce ?s = Some t" "session t [] [] D' [] [] [] [] [] []"
      "s_command (sk t) = COMMAND_INFORM_CONNECTED" "s_is_connected (sk t)" "s_socket (sk t) = s_socket (sk ?s)"
      "same_setup ((sk ?s)\<lparr>s_sec_ws_accept := Ptr a 0\<rparr>) (sk t)" "trace t = trace ?s" "ev t = (ev ?s)\<lparr>env_recv := stl (env_recv (ev ?s))\<rparr>"
    by (rule wait_accepting_run [OF ses1 acc1]) blast
  let ?t = "with_count (s_work_mutex (sk t)) 0 t"
  let ?s' = "?t\<lparr>sk := (sk t)\<lparr>s_command := COMMAND_IDLE\<rparr>, trace := trace s @ (if s_on_connected (sk s) = None then [] else [On_connected])\<rparr>"
  have k: "s_on_connected (sk t) = s_on_connected (sk s)" "s_on_disconnected (sk t) = s_on_disconnected (sk s)"
      "event_of (sk ?s') = event_of (sk s)" using t(6) by (simp_all add: same_setup_def event_of_def fun_eq_iff)
  have cmd': "work_command (Suc n) ?s = Some (Suc n, t)" using cmd t(1) by (simp add: work_command_def)
  have inf: "work_inform user ?t = Some ?s'"
    using user t(3,7) k(1) by (simp add: work_inform_switch call_user_def)
  have fr: "fair s" using cmd inc'(2) acc accepting_contained by (auto simp: fair_def)
  have user': "civil user b" using civil_onlooker user by (simp add: civil_def)
  obtain U' where U': "work_iteration user n s = Some (Suc n, ?s')" "sound b U' ?s'" "evolves U s U' ?s'"
    by (rule command_iteration [OF so fr user' cmd' inf])
  have "s_send_frames (sk ?s') = NULL" using t(2) by (auto simp: session_def dest: queue_holds_nothing)
  then obtain E1 bs1 D1 where ses': "session ?s' E1 bs1 D1 [] [] [] [] [] []"
    by (rule sound_session [OF U'(2)]) (rule that; assumption)
  have "err_own ?s' E1" "s_error (sk ?s') = NULL" "buffer_at (blocks ?s') (sk ?s') bs1 D1" "s_received_len (sk ?s') = 0"
    using ses' t(2) buffer_at_len [of "blocks t" "sk t" "[]" D'] by (simp_all add: session_def)
  then have "E1 = []" "bs1 = []" using buffer_at_len by fastforce+
  with ses' have ses': "session ?s' [] [] D1 [] [] [] [] [] []" by simp
  obtain P V bs ys where "joined ?s' b 0 P V bs [] ys" using U'(2) unfolding sound_def by blast
  then have "online ?s'" using setup_mutexes(1,2) [of ?s' b 0 P] t(4,5) inc by (auto simp: online_def joined_def incoming_def)
  moreover have "incoming ?s' chunks" by (rule inc'(3)) (use t(5,8) in simp_all)
  ultimately show thesis using U' ses' t(5,8) k by (intro that [of ?s' U' D1]) simp_all
qed


text \<open>The close frame of the peer, in a quiet moment.\<close>

lemma close_command:
  assumes ses: "session s [] [] D [] [] [] ms Gs []" and on: "online s" and n: "n < 400" and inc: "incoming s [u]"
    and u: "check_size u = length u" "regular u" "opcode_of u = 8"
  obtains s' where "work_command n s = Some (n, s')" and "fresh_ok s'" and "\<exists>E. err_own s' E"
    and "s_command (sk s') = COMMAND_INFORM_DISCONNECTED" and "s_socket (sk s') = s_socket (sk s)" "s_send_frames (sk s') = NULL"
    and "same_setup (sk s) (sk s')" and "trace s' = trace s" and "env_send (ev s') = env_send (ev s)"
proof -
  note inc' = incoming_Cons [OF inc]
  obtain c where mx: "mutex_at s (s_send_mutex (sk s)) c" using on by (auto simp: online_def)
  have conn: "s_is_connected (sk s)" "s_socket (sk s) \<noteq> RWS_INVALID_SOCKET" using on by (simp_all add: online_def)
  obtain s1 where s1: "rws_socket_idle_send s = Some s1" "session s1 [] [] D [] [] [] [] [] []"
      "trace s1 = trace s @ sent_events [] []" "sk s1 = (sk s)\<lparr>s_send_frames := NULL\<rparr>" "ev s1 = (ev s)\<lparr>env_send := env_send (ev s)\<rparr>"
    using idle_send_taken [OF ses mx _ conn, of "[]" "env_send (ev s)"] by auto
  have "recv_result s1 = recv_result s" by (simp add: recv_result_def s1(4,5))
  then have in1: "recv_ok s1" "u = [] @ recv_data (fst (recv_result s1))" using inc'(1,2) by (simp_all add: recv_ok_def)
  have "2 \<le> length u" using u(2) by (simp add: regular_def)
  then have one: "take_one check_size u = ([u], [])" using u(1) by (auto simp: take_one_def)
  have reg: "list_all regular (fst (take_one check_size u))" using u(2) one by simp
  obtain s2 E' D' ns' Fs' ms' Gs' key where s2: "rws_socket_idle_recv s1 = Some s2" "length key = 4"
      "session s2 E' (snd (take_one check_size u)) D' ns' Fs' ([] @ concat (map message_of (fst (take_one check_size u)))) ms' Gs'
        ([] @ concat (map (answer_of key) (fst (take_one check_size u))))"
      "s_command (sk s2) = (if 8 \<in> set (map opcode_of (fst (take_one check_size u))) then COMMAND_INFORM_DISCONNECTED else s_command (sk s1))"
      "s_socket (sk s2) = s_socket (sk s1)" "ev s2 = (ev s1)\<lparr>env_recv := stl (env_recv (ev s1))\<rparr>" "trace s2 = trace s1"
      "same_setup (sk s1) (sk s2)"
    by (rule idle_recv_run [OF s1(2) in1 reg]) blast
  have "work_command n s = Some (n, s2)" using on n conn s1(1,4) s2(1) by (simp add: work_command_def online_def)
  moreover have "s_send_frames (sk s2) = NULL"
    using s2(3) by (auto simp: session_def one u(3) answer_of_def dest: queue_holds_nothing)
  moreover have "fresh_ok s2" "err_own s2 E'" using s2(3) by (simp_all add: session_def)
  ultimately show thesis using s1(3-5) s2(4-8) u(3) one by (intro that [of s2]) (auto simp: same_setup_def)
qed

text \<open>The opening: name, connection, request, acceptance.\<close>

lemma opening_run:
  assumes so: "sound b U s" and user: "\<And>e s. user e s = Some s" and cmd: "s_command (sk s) = COMMAND_CONNECT_TO_HOST"
    and none: "s_send_frames (sk s) = NULL" and r: "asks s request"
    and net: "find resolved (stake 4 (env_addrinfo (ev s))) = Some a" "length fds < snd a" "RWS_INVALID_SOCKET \<notin> set (fds @ [fd])"
      "env_socket (ev s) = (fds @ [fd]) @- socks" "env_connect (ev s) = (map (\<lambda>_. False) fds @ [True]) @- oks"
    and taken: "int (length request) \<le> fst (shd (env_send (ev s)))"
    and acc: "accepting key tail reply" and inc: "arriving (ev s) (reply # chunks)"
  obtains s' U' D where "work_loop user 0 s = work_loop user 3 s'" and "sound b U' s'" and "evolves U s U' s'"
    and "session s' [] [] D [] [] [] [] [] []" and "online s'" and "incoming s' chunks" and "s_socket (sk s') = fd"
    and "env_send (ev s') = stl (env_send (ev s))" and "event_of (sk s') = event_of (sk s)"
    and "s_on_disconnected (sk s') = s_on_disconnected (sk s)"
    and "trace s' = trace s @ map Closed fds @ [Sent request] @ (if s_on_connected (sk s) = None then [] else [On_connected])"
proof -
  have user': "civil user b" using civil_onlooker user by (simp add: civil_def)
  obtain s1 U1 as where s1: "work_iteration user 0 s = Some (Suc 0, s1)" "sound b U1 s1" "evolves U s U1 s1"
      "sk s1 = (sk s)\<lparr>s_error := NULL, s_received_len := 0, s_socket := fd, s_command := COMMAND_SEND_HANDSHAKE\<rparr>"
      "ev s1 = (ev s)\<lparr>env_addrinfo := as, env_socket := socks, env_connect := oks\<rparr>" "trace s1 = trace s @ map Closed fds"
      "asks s1 request" "length request < 512"
    by (rule connect_iteration [OF so user' cmd net r])
  obtain s2 U2 where s2: "work_iteration user (Suc 0) s1 = Some (Suc (Suc 0), s2)" "sound b U2 s2" "evolves U1 s1 U2 s2"
      "sk s2 = (sk s1)\<lparr>s_error := NULL, s_command := COMMAND_WAIT_HANDSHAKE_RESPONCE\<rparr>"
      "ev s2 = (ev s1)\<lparr>env_send := stl (env_send (ev s1))\<rparr>" "trace s2 = trace s1 @ [Sent request]"
    by (rule handshake_iteration [OF s1(2) user' _ s1(7,8)]) (use s1(4,5) net(3) taken in simp_all)
  have in2: "incoming s2 (reply # chunks)" using inc net(3) by (simp add: incoming_def arriving_def s2(4,5) s1(4,5))
  obtain s3 U3 D where s3: "work_iteration user (Suc (Suc 0)) s2 = Some (Suc (Suc (Suc 0)), s3)" "sound b U3 s3" "evolves U2 s2 U3 s3"
      "session s3 [] [] D [] [] [] [] [] []" "online s3" "incoming s3 chunks" "ev s3 = (ev s2)\<lparr>env_recv := stl (env_recv (ev s2))\<rparr>"
      "s_socket (sk s3) = s_socket (sk s2)" "event_of (sk s3) = event_of (sk s2)" "s_on_disconnected (sk s3) = s_on_disconnected (sk s2)"
      "trace s3 = trace s2 @ (if s_on_connected (sk s2) = None then [] else [On_connected])"
    by (rule accept_iteration [OF s2(2) user _ _ in2 acc]) (use s1(4) s2(4) none in simp_all)
  have "work_loop user 0 s = work_loop user 3 s3"
    using work_loop_step [OF _ s1(1)] work_loop_step [OF _ s2(1)] work_loop_step [OF _ s3(1)] cmd s1(4) s2(4) by (simp add: eval_nat_numeral)
  moreover have "evolves U s U3 s3" by (rule evolves_trans [OF evolves_trans [OF s1(3) s2(3)] s3(3)])
  moreover have "event_of (sk s3) = event_of (sk s)" unfolding s3(9) s2(4) s1(4) by (simp add: event_of_def fun_eq_iff)
  ultimately show thesis using s1 s2 s3 by (intro that [of s3 U3 D]) simp_all
qed

section \<open>The dialogue\<close>

text \<open>The messages of the peer, in an open connection whose state is sound.\<close>

lemma fair_idle:
  assumes ses: "session s E bs D ns Fs xs ms Gs ys" and on: "online s"
    and us: "list_all fair_unit (fst (take_one check_size (bs @ recv_data (fst (recv_result s)))))"
  shows "fair s"
  using on us buffered_holds [OF holdsI [OF ses]] by (simp add: fair_def online_def)

lemma fair_encode:
  assumes "op < 16" and "encodable (op, key, payload)" and "length payload < 2 ^ 30"
  shows "fair_unit (encode (op, key, payload))"
proof -
  have "length (encode (op, key, payload)) \<le> 14 + length payload"
  proof (cases key)
    case None
    then show ?thesis by (simp add: encode_def encode_frame_def header_bytes_def)
  next
    case (Some k)
    then show ?thesis using length_encode_frame [of k op payload] assms(2) by (simp add: encode_def encodable_def key_ok_def)
  qed
  then show ?thesis using encode_regular(1) [OF assms(1,2)] assms(3) by (simp add: fair_unit_def)
qed

lemma talk_run:
  assumes so: "sound b U s" and user: "\<And>e s. user e s = Some s" and ses: "session s [] [] D [] [] [] ms Gs []" and on: "online s"
    and msgs: "list_all (\<lambda>(op, key, payload). op \<in> {1, 2} \<and> payload \<noteq> [] \<and> encodable (op, key, payload) \<and> length payload < 2 ^ 30) msgs"
    and inc: "incoming s (chunks @ replicate n [] @ later)" and cut: "concat chunks = concat (map encode msgs)" "length msgs \<le> n"
    and few: "i + (length chunks + n) < 400"
  obtains s' U' D' ms' Gs' where "work_loop user i s = work_loop user (i + (length chunks + n)) s'"
    and "sound b U' s'" and "evolves U s U' s'" and "session s' [] [] D' [] [] [] ms' Gs' []" and "online s'" and "incoming s' later"
    and "trace s' = trace s @ concat (map (event_of (sk s)) (map (\<lambda>(op, key, payload). (of_nat op, payload)) msgs))"
    and "same_setup (sk s) (sk s')" and "s_socket (sk s') = s_socket (sk s)" and "env_send (ev s') = env_send (ev s)"
proof -
  define I where "I t \<longleftrightarrow> (\<exists>V. sound b V t \<and> evolves U s V t)" for t
  define Q where "Q u \<longleftrightarrow> fair_unit u" for u
  have msgs': "list_all (\<lambda>(op, key, payload). op \<in> {1, 2} \<and> payload \<noteq> [] \<and> encodable (op, key, payload)) msgs"
    using msgs by (auto simp: list_all_iff)
  note peer = peer_messages [OF msgs' cut]
  have "fair_unit (encode m)" if "m \<in> set msgs" for m
    using that msgs fair_encode [of "fst m" "fst (snd m)" "snd (snd m)"] by (auto simp: list_all_iff)
  then have reg: "list_all (\<lambda>u. regular u \<and> opcode_of u \<notin> {8, 9} \<and> Q u) (fst (rounds check_size [] (chunks @ replicate n [])))"
    using peer(2,4,5) unfolding peer(1) list_all_iff fst_conv Q_def by fastforce
  have inc': "incoming s (chunks @ replicate n [])" using inc arriving_append(1) [of "ev s" "chunks @ replicate n []" later]
    by (simp add: incoming_def)
  have keep: "I t'" if I: "I t" and at: "session t [] bs D [] [] [] ms Gs []" "online t"
    and us: "list_all Q (fst (take_one check_size (bs @ recv_data (fst (recv_result t)))))" and it: "work_iteration user j t = Some (Suc j, t')"
    for j t t' bs D ms Gs
  proof -
    obtain V where V: "sound b V t" "evolves U s V t" using I by (auto simp: I_def)
    have "fair t" by (rule fair_idle [OF at]) (use us in \<open>simp add: list_all_iff Q_def\<close>)
    moreover have "civil user b" using civil_onlooker user by (simp add: civil_def)
    ultimately obtain V' where "sound b V' t'" "evolves V t V' t'" using iteration_sound [OF V(1), of user j] it by auto
    then show ?thesis using evolves_trans [OF V(2)] by (auto simp: I_def)
  qed
  then have keep': "\<forall>j t t' bs D ms Gs. I t \<longrightarrow> session t [] bs D [] [] [] ms Gs [] \<longrightarrow> online t \<longrightarrow>
      list_all Q (fst (take_one check_size (bs @ recv_data (fst (recv_result t))))) \<longrightarrow>
      work_iteration user j t = Some (Suc j, t') \<longrightarrow> I t'" by blast
  have I: "I s" using so by (auto simp: I_def)
  have few': "i + length (chunks @ replicate n []) < 400" using few by simp
  obtain s' D' ms' Gs' where s': "work_loop user i s = work_loop user (i + (length chunks + n)) s'"
      "session s' [] [] D' [] [] [] ms' Gs' []" "online s'" "I s'"
      "trace s' = trace s @ concat (map (event_of (sk s)) (map (\<lambda>(op, key, payload). (of_nat op, payload)) msgs))"
      "same_setup (sk s) (sk s')" "s_socket (sk s') = s_socket (sk s)"
      "ev s' = (ev s)\<lparr>env_recv := sdrop (length (chunks @ replicate n [])) (env_recv (ev s))\<rparr>"
    using iterations_run [where user = user and I = I and Q = Q, OF user keep' I ses on inc' few' reg]
    unfolding peer(1) fst_conv snd_conv peer(3) by auto
  have "incoming s' later" using inc s'(7,8) arriving_append(2) [of "ev s" "chunks @ replicate n []" later "ev s'"]
    by (simp add: incoming_def)
  with s' show thesis unfolding I_def by (auto intro: that)
qed

text \<open>The end: the close frame of the peer in a quiet moment, the answer, the report, the release.\<close>

lemma ending_run:
  assumes so: "sound b U s" and user: "\<And>e s. user e s = Some s" and ses: "session s [] [] D [] [] [] ms Gs []" and on: "online s"
    and few: "Suc n < 400" and inc: "incoming s [encode (8, ckey, reason)]" and close: "encodable (8, ckey, reason)" "length reason < 2 ^ 30"
    and taken: "14 + 10 \<le> fst (shd (env_send (ev s)))"
  obtains s' k i where "work_loop user n s \<bind> thread_end (Ptr b 0) = Some s'" and "length k = 4" and "alive (Ptr b 0) s' = None"
    and "\<forall>j. blocks s j \<noteq> None \<longrightarrow> j \<notin> U \<longrightarrow> blocks s' j = blocks s j"
    and "trace s' = trace s @ [Sent (encode_frame 8 (Some k) (utoa i))] @
      (if s_on_disconnected (sk s) = None then [] else [On_disconnected rws_error_code_none]) @ [Closed (s_socket (sk s))]"
proof -
  let ?u = "encode (8, ckey, reason)" and ?s = "with_count (s_work_mutex (sk s)) 1 s"
  have u: "check_size ?u = length ?u" "fair_unit ?u" "opcode_of ?u = 8"
    using wire.complete [OF close(1), of "[]"] fair_encode [OF _ close] encode_opcode [of 8 ckey reason] by (simp_all add: encode_def)
  have reg: "regular ?u" using u(2) by (simp add: fair_unit_def)
  have mx: "mutex_at s (s_work_mutex (sk s)) 0" by (rule sound_locked [OF so])
  have inc1: "incoming ?s [?u]" using inc by (simp add: incoming_def)
  obtain t where t: "work_command (Suc n) ?s = Some (Suc n, t)" "s_command (sk t) = COMMAND_INFORM_DISCONNECTED"
      "s_socket (sk t) = s_socket (sk ?s)" "s_send_frames (sk t) = NULL" "same_setup (sk ?s) (sk t)" "trace t = trace ?s"
      "env_send (ev t) = env_send (ev ?s)"
    by (rule close_command [OF count_session [OF ses mx] online_count [OF on mx] few inc1 u(1) reg u(3)])
  let ?t = "with_count (s_work_mutex (sk t)) 0 t"
  have "take_one check_size ?u = ([?u], [])" using u(1) reg by (auto simp: take_one_def regular_def)
  then have fr: "fair s" using u(2) incoming_Cons(2) [OF inc] by (intro fair_idle [OF ses on]) simp
  have cmd: "s_command (sk s) < COMMAND_END" and inv: "s_socket (sk s) \<noteq> RWS_INVALID_SOCKET" using on by (simp_all add: online_def)
  obtain s' k i where s': "work_loop user n s \<bind> thread_end (Ptr b 0) = Some s'" "length k = 4" "length (utoa i) \<le> 10"
      "trace s' = trace ?t @ farewell ?t k i @ (if send_fails ?t then [] else [Closed (s_socket (sk ?t))])" "alive (Ptr b 0) s' = None"
      "\<forall>j. blocks s j \<noteq> None \<longrightarrow> j \<notin> U \<longrightarrow> blocks s' j = blocks s j"
    by (rule failure_run [OF so fr cmd work_locked_run [OF so fr t(1)] _ _ user]) (use t(2,4) in simp_all)
  have "length (encode_frame 8 (Some k) (utoa i)) \<le> 24" using length_encode_frame [OF s'(2), of 8 "utoa i"] s'(3) by simp
  then have sent: "take (nat (fst (shd (env_send (ev s))))) (encode_frame 8 (Some k) (utoa i)) = encode_frame 8 (Some k) (utoa i)"
    using taken by simp
  have "send_result ?t = shd (env_send (ev s))" using inv t(3,7) by (simp add: send_result_def)
  then have "trace s' = trace s @ [Sent (encode_frame 8 (Some k) (utoa i))] @
      (if s_on_disconnected (sk s) = None then [] else [On_disconnected rws_error_code_none]) @ [Closed (s_socket (sk s))]"
    using taken t(3,5,6) s'(4) sent by (simp add: farewell_def send_fails_def same_setup_def)
  then show thesis using s' by (intro that [of s' k i])
qed

text \<open>C2: A whole dialogue.  Let the host name resolve, some addresses refuse and one accept, the kernel take the request and
  the closing frame, and the peer accept the upgrade, send text and binary messages that the network cuts into arbitrary
  chunks, pause, and close.  Then the work thread of a started socket returns, and all it has done is: close the
  descriptors of the refused addresses, send the one request, report the connection, hand over each message in order with
  exactly its bytes, answer with one masked close frame, report the end - with no error code, although the peer
  has closed - and close the descriptor.  The socket object is freed, and every block that is not the socket's is as before.\<close>

theorem dialogue_ends:
  assumes "sound b U s" and "s_command (sk s) = COMMAND_CONNECT_TO_HOST" and "s_send_frames (sk s) = NULL" and "asks s request"
    and "find resolved (stake 4 (env_addrinfo (ev s))) = Some a" "length fds < snd a" "RWS_INVALID_SOCKET \<notin> set (fds @ [fd])"
      "env_socket (ev s) = (fds @ [fd]) @- socks" "env_connect (ev s) = (map (\<lambda>_. False) fds @ [True]) @- oks"
    and "int (length request) \<le> fst (shd (env_send (ev s)))" "14 + 10 \<le> fst (shd (stl (env_send (ev s))))"
    and "accepting key tail reply" and "arriving (ev s) (reply # chunks @ replicate n [] @ [encode (8, ckey, reason)])"
    and "concat chunks = concat (map encode msgs)" "length msgs \<le> n" "length chunks + n < 396"
    and "list_all (\<lambda>(op, key, payload). op \<in> {1, 2} \<and> payload \<noteq> [] \<and> encodable (op, key, payload) \<and> length payload < 2 ^ 30) msgs"
    and "encodable (8, ckey, reason)" "length reason < 2 ^ 30" and "\<And>e s. user e s = Some s"
  shows "\<exists>s' k i. rws_socket_work_th_func user (Ptr b 0) s = Some s' \<and> length k = 4 \<and>
    trace s' = trace s @ map Closed fds @ [Sent request] @ (if s_on_connected (sk s) = None then [] else [On_connected]) @
      concat (map (event_of (sk s)) (map (\<lambda>(op, key, payload). (of_nat op, payload)) msgs)) @
      [Sent (encode_frame 8 (Some k) (utoa i))] @
      (if s_on_disconnected (sk s) = None then [] else [On_disconnected rws_error_code_none]) @ [Closed fd] \<and>
    alive (Ptr b 0) s' = None \<and> (\<forall>j. blocks s j \<noteq> None \<longrightarrow> j \<notin> U \<longrightarrow> blocks s' j = blocks s j)"
proof -
  obtain s3 U3 D where s3: "work_loop user 0 s = work_loop user 3 s3" "sound b U3 s3" "evolves U s U3 s3"
      "session s3 [] [] D [] [] [] [] [] []" "online s3" "incoming s3 (chunks @ replicate n [] @ [encode (8, ckey, reason)])"
      "s_socket (sk s3) = fd" "env_send (ev s3) = stl (env_send (ev s))" "event_of (sk s3) = event_of (sk s)"
      "s_on_disconnected (sk s3) = s_on_disconnected (sk s)"
      "trace s3 = trace s @ map Closed fds @ [Sent request] @ (if s_on_connected (sk s) = None then [] else [On_connected])"
    by (rule opening_run [OF assms(1,20,2-10,12,13)])
  have few: "3 + (length chunks + n) < 400" "Suc (3 + (length chunks + n)) < 400" using assms(16) by simp_all
  obtain s4 U4 D4 ms Gs where s4: "work_loop user 3 s3 = work_loop user (3 + (length chunks + n)) s4" "sound b U4 s4" "evolves U3 s3 U4 s4"
      "session s4 [] [] D4 [] [] [] ms Gs []" "online s4" "incoming s4 [encode (8, ckey, reason)]"
      "trace s4 = trace s3 @ concat (map (event_of (sk s3)) (map (\<lambda>(op, key, payload). (of_nat op, payload)) msgs))"
      "same_setup (sk s3) (sk s4)" "s_socket (sk s4) = s_socket (sk s3)" "env_send (ev s4) = env_send (ev s3)"
    by (rule talk_run [OF s3(2) assms(20) s3(4,5) assms(17) s3(6) assms(14,15) few(1)])
  have taken: "14 + 10 \<le> fst (shd (env_send (ev s4)))" using assms(11) s3(8) s4(10) by simp
  obtain s' k i where s': "work_loop user (3 + (length chunks + n)) s4 \<bind> thread_end (Ptr b 0) = Some s'" "length k = 4"
      "alive (Ptr b 0) s' = None" "\<forall>j. blocks s4 j \<noteq> None \<longrightarrow> j \<notin> U4 \<longrightarrow> blocks s' j = blocks s4 j"
      "trace s' = trace s4 @ [Sent (encode_frame 8 (Some k) (utoa i))] @
        (if s_on_disconnected (sk s4) = None then [] else [On_disconnected rws_error_code_none]) @ [Closed (s_socket (sk s4))]"
    by (rule ending_run [where user = user, OF s4(2) assms(20) s4(4,5) few(2) s4(6) assms(18,19) taken])
  have "rws_socket_work_th_func user (Ptr b 0) s = Some s'" using s3(1) s4(1) s'(1) by (simp add: work_th_func_loop)
  moreover have "blocks s' j = blocks s j" if "blocks s j \<noteq> None" "j \<notin> U" for j
    using that s'(4) evolves_trans [OF s3(3) s4(3)] sound_fresh_ok [OF assms(1)] by (auto simp: evolves_def fresh_ok_def)
  moreover have "s_on_disconnected (sk s4) = s_on_disconnected (sk s)" "s_socket (sk s4) = fd"
    using s4(8,9) s3(7,10) by (simp_all add: same_setup_def)
  ultimately show ?thesis using s'(2,3)
    by (intro exI [of _ s'] exI [of _ k] exI [of _ i]) (simp add: s'(5) s4(7) s3(9,11))
qed

text \<open>A started socket with callbacks, whose host has two addresses; the second one talks.\<close>

definition talker :: sys where
  "talker = started\<lparr>sk := (sk started)\<lparr>s_on_connected := Some 1, s_on_recvd_text := Some 1\<rparr>,
     ev := quiet_env\<lparr>env_addrinfo := sconst (0, 2), env_socket := [5, 7] @- sconst (-1), env_connect := [False, True] @- sconst False,
       env_send := [(600, 0), (30, 0)] @- sconst (-1, EAGAIN),
       env_recv := [([cstr ''HTTP/1.1 101 OK'' @ [13, 10] @ cstr ''Sec-WebSocket-Accept: x'' @ [13, 10, 13, 10]], EAGAIN),
         ([[129, 1], [72]], EAGAIN), ([], EAGAIN), ([[136, 0]], EAGAIN)] @- sconst ([], EAGAIN)\<rparr>\<rparr>"

lemma talker_url: "url_at talker (cstr ''ws'') (cstr ''h'') (cstr ''/'') [[3], [4], [5]]"
  unfolding url_at_def using started_url slots_at_cong [of started _ _ _ talker]
  by (simp add: url_at_def talker_def)

lemma talker_sound: "sound 0 ({0, 1, 2} \<union> slot_blks [[3], [4], [5]]) talker"
  by (rule sound_at_start [OF _ talker_url])
    (simp_all add: talker_def started_fields request_text_def cstr_def, simp_all add: started_def zero_socket_def)

theorem dialogue_ends_witness:
  "\<exists>s' k i. rws_socket_work_th_func (\<lambda>e. Some) (Ptr 0 0) talker = Some s' \<and>
     trace s' = [Closed 5, Sent (request_text (cstr ''ws'') (cstr ''h'') 80 (cstr ''/'')), On_connected, On_text [72],
       Sent (encode_frame 8 (Some k) (utoa i)), On_disconnected 0, Closed 7]"
proof -
  let ?reply = "cstr ''HTTP/1.1 101 OK'' @ [13, 10] @ cstr ''Sec-WebSocket-Accept: x'' @ [13, 10, 13, 10]"
  let ?r = "request_text (cstr ''ws'') (cstr ''h'') 80 (cstr ''/'')"
  have k: "s_command (sk talker) = COMMAND_CONNECT_TO_HOST" "s_send_frames (sk talker) = NULL" "s_port (sk talker) = 80"
      "s_on_connected (sk talker) = Some 1" "s_on_disconnected (sk talker) = Some 1" "s_on_recvd_text (sk talker) = Some 1" "trace talker = []"
    by (simp_all add: talker_def started_fields)
  have str: "cstr ''ws'' \<noteq> []" "cstr ''h'' \<noteq> []" "cstr ''/'' \<noteq> []" by (simp_all add: cstr_def)
  have asks: "asks talker ?r" unfolding asks_def k(3)
    using url_at_strings [OF talker_url] str by (intro exI conjI) (auto simp: str_at_def)
  have net: "find resolved (stake 4 (env_addrinfo (ev talker))) = Some (0, 2)" "length [5 :: int] < snd (0 :: int, 2 :: nat)"
      "RWS_INVALID_SOCKET \<notin> set ([5] @ [7])" "env_socket (ev talker) = ([5] @ [7]) @- sconst (-1)"
      "env_connect (ev talker) = (map (\<lambda>_. False) [5 :: int] @ [True]) @- sconst False"
    by (simp_all add: talker_def resolved_def eval_nat_numeral)
  have sent: "int (length ?r) \<le> fst (shd (env_send (ev talker)))" "14 + 10 \<le> fst (shd (stl (env_send (ev talker))))"
    by (simp_all add: talker_def request_text_def cstr_def)
  have acc: "accepting [120] [10, 13, 10] ?reply"
    unfolding accepting_def
    by (rule exI, rule exI [of _ 32], rule exI [of _ "[79, 75, 13, 10]"], rule exI [of _ "[58, 32]"], intro conjI, rule refl)
      (simp_all add: k_rws_socket_sec_websocket_accept_def cstr_def is_digit_def All_less_Suc)
  have close: "encode (8, None, []) = [136, 0]" by (simp add: encode_def encode_frame_def header_bytes_def mask_with_def)
  have recv: "arriving (ev talker) (?reply # [[129, 1, 72]] @ replicate 1 [] @ [encode (8, None, [])])"
    unfolding arriving_def close
    by (intro exI [of _ "[[?reply], [[129, 1], [72]], [], [[136, 0]]]"]) (simp add: talker_def cstr_def)
  have msgs: "concat [[129, 1, 72]] = concat (map encode [(1, None, [72])])"
    by (simp add: encode_def encode_frame_def header_bytes_def mask_with_def)
  from dialogue_ends [where user = "\<lambda>e. Some", OF talker_sound k(1,2) asks net sent acc recv msgs] k(4-7)
  show ?thesis by (fastforce simp: encodable_def key_ok_def event_of_def)
qed

end
