(* ===== verification/Rws_Order.thy ===== *)
theory Rws_Order
  imports Rws_Run
begin

text \<open>
  The order of the callbacks over whole runs.  These lemmas speak of operations that return, whatever the memory: the lower
  layers leave the rest of the state alone, no operation but the second \<open>switch\<close> makes a callback, and each moves the
  command as the protocol says.  An invariant of the runs ties the callbacks made to the command; that the runs are defined
  is the matter of \<open>Rws_Run\<close>.
\<close>

section \<open>The lower layers\<close>

named_theorems same_more \<open>operations of the lower layers leave the rest of the state alone\<close>

lemmas returns = Option.bind_eq_Some_conv Let_def case_prod_unfold

lemma more_alloc [simp]:
  "mem.more (snd (alloc x m)) = mem.more m"
  "mem.more (snd (rws_malloc k m)) = mem.more m"
  "mem.more (snd (rws_malloc_zero x m)) = mem.more m"
  "mem.more (snd (rws_list_create m)) = mem.more m"
  "mem.more (snd (rws_frame_create m)) = mem.more m"
  by (simp_all add: alloc_def rws_malloc_def rws_malloc_zero_def rws_list_create_def rws_frame_create_def Let_def)

lemma more_malloc [same_more]: "rws_malloc k m = (p, m') \<Longrightarrow> mem.more m' = mem.more m"
  using more_alloc(2) [of k m] by simp

lemma more_primitives [same_more]:
  "rws_free p m = Some m' \<Longrightarrow> mem.more m' = mem.more m"
  "store p vs m = Some m' \<Longrightarrow> mem.more m' = mem.more m"
  "put_frame p f m = Some m' \<Longrightarrow> mem.more m' = mem.more m"
  "put_node p y m = Some m' \<Longrightarrow> mem.more m' = mem.more m"
  "put_err p e m = Some m' \<Longrightarrow> mem.more m' = mem.more m"
  using heap_only_free heap_only_store
  by (auto simp: put_frame_def put_node_def put_err_def set_obj_def returns heap_only_more split: ptr.splits)

lemma more_memory [same_more]:
  "rws_free_clean p m = Some r \<Longrightarrow> mem.more (snd r) = mem.more m"
  "memcpy dst src k m = Some m' \<Longrightarrow> mem.more m' = mem.more m"
  "rws_string_delete p m = Some m' \<Longrightarrow> mem.more m' = mem.more m"
  "rws_string_delete_clean p m = Some r \<Longrightarrow> mem.more (snd r) = mem.more m"
  by (auto simp: rws_free_clean_def memcpy_def rws_string_delete_def rws_string_delete_clean_def returns dest!: same_more)

lemma more_string_len [same_more]: "rws_string_copy_len str len m = Some r \<Longrightarrow> mem.more (snd r) = mem.more m"
  by (auto simp: rws_string_copy_len_def returns split: if_splits dest!: same_more)

lemma more_string [same_more]: "rws_string_copy str m = Some r \<Longrightarrow> mem.more (snd r) = mem.more m"
  by (auto simp: rws_string_copy_def returns split: if_splits dest!: same_more)

lemma more_error [same_more]:
  "rws_error_new_code_descr code descr m = Some r \<Longrightarrow> mem.more (snd r) = mem.more m"
  "rws_error_delete_clean p m = Some r \<Longrightarrow> mem.more (snd r) = mem.more m"
  by (auto simp: rws_error_new_code_descr_def rws_error_delete_clean_def rws_error_delete_def returns split: if_splits dest!: same_more)

lemma more_mutex [same_more]:
  "rws_mutex_lock p m = Some m' \<Longrightarrow> mem.more m' = mem.more m"
  "rws_mutex_unlock p m = Some m' \<Longrightarrow> mem.more m' = mem.more m"
  "rws_mutex_delete p m = Some m' \<Longrightarrow> mem.more m' = mem.more m"
  by (auto simp: rws_mutex_lock_def rws_mutex_unlock_def rws_mutex_delete_def set_obj_def
      split: if_splits option.splits obj.splits nat.splits ptr.splits dest!: same_more)

lemma more_list_append [same_more]: "rws_list_append list v m = Some m' \<Longrightarrow> mem.more m' = mem.more m"
  by (auto simp: rws_list_append_def returns split: if_splits dest!: same_more)

lemma more_list_delete [same_more]:
  assumes "rws_list_delete cur m = Some m'"
  shows "mem.more m' = mem.more m"
  by (rule rws_list_delete.raw_induct [where P = "\<lambda>cur m m'. mem.more m' = mem.more m", OF _ assms])
    (fastforce simp: returns split: if_splits dest: same_more)

lemma more_frame [same_more]:
  "rws_list_delete_clean p m = Some r \<Longrightarrow> mem.more (snd r) = mem.more m"
  "rws_frame_delete p m = Some m' \<Longrightarrow> mem.more m' = mem.more m"
  by (auto simp: rws_list_delete_clean_def rws_frame_delete_def returns split: if_splits dest!: same_more)

lemma more_fill [same_more]: "rws_frame_fill_with_send_data p data k m = Some m' \<Longrightarrow> mem.more m' = mem.more m"
  by (auto simp: rws_frame_fill_with_send_data_def returns split: if_splits dest!: same_more)

lemma more_combine [same_more]: "rws_frame_combine_datas p q m = Some m' \<Longrightarrow> mem.more m' = mem.more m"
  by (auto simp: rws_frame_combine_datas_def returns split: if_splits dest!: same_more)

lemma more_recv_parts [same_more]:
  "recv_frame_header frame data opcode fin masked pos hdr m = Some m' \<Longrightarrow> mem.more m' = mem.more m"
  "recv_frame_data frame data fin masked hdr' size' m = Some m' \<Longrightarrow> mem.more m' = mem.more m"
  by (auto simp: recv_frame_header_def recv_frame_data_def returns split: if_splits dest!: same_more)

lemma more_recv [same_more]: "rws_frame_create_with_recv_data data k m = Some r \<Longrightarrow> mem.more (snd r) = mem.more m"
  unfolding rws_frame_create_with_recv_data_def Let_def case_prod_unfold
  by (auto simp only: snd_conv option.inject option.distinct more_alloc elim!: bind_SomeE dest!: same_more split: if_split_asm)

lemma more_delete_all [same_more]:
  assumes "rws_socket_delete_all_frames_in_list cur m = Some m'"
  shows "mem.more m' = mem.more m"
  by (rule rws_socket_delete_all_frames_in_list.raw_induct [where P = "\<lambda>cur m m'. mem.more m' = mem.more m", OF _ assms])
    (fastforce simp: delete_all_frames_body_def returns split: if_splits dest: same_more)

section \<open>What the application sees\<close>

fun is_message :: "event \<Rightarrow> bool" where
  "is_message (On_text bs) = True"
| "is_message (On_bin bs) = True"
| "is_message e = False"

fun is_report :: "event \<Rightarrow> bool" where
  "is_report On_connected = True"
| "is_report (On_disconnected code) = True"
| "is_report e = is_message e"

text \<open>The callbacks made so far; what the order of callbacks depends on.\<close>

definition reports :: "sys \<Rightarrow> event list" where
  "reports s = filter is_report (trace s)"

definition face :: "sys \<Rightarrow> event list \<times> nat option \<times> int" where
  "face s = (reports s, s_on_connected (sk s), s_command (sk s))"

named_theorems same_face \<open>operations that return leave the callbacks and the command alone\<close>

lemma more_sys: "mem.more s' = mem.more s \<longleftrightarrow> sk s' = sk s \<and> ev s' = ev s \<and> trace s' = trace (s :: sys)"
  by (cases s; cases s') auto

lemmas faces = face_def reports_def more_sys returns

lemma sys_alloc [simp]:
  fixes s :: sys
  shows "sk (snd (rws_malloc k s)) = sk s" "ev (snd (rws_malloc k s)) = ev s" "trace (snd (rws_malloc k s)) = trace s"
  "sk (snd (rws_malloc_zero x s)) = sk s" "ev (snd (rws_malloc_zero x s)) = ev s" "trace (snd (rws_malloc_zero x s)) = trace s"
  "sk (snd (rws_list_create s)) = sk s" "ev (snd (rws_list_create s)) = ev s" "trace (snd (rws_list_create s)) = trace s"
  "sk (snd (rws_frame_create s)) = sk s" "ev (snd (rws_frame_create s)) = ev s" "trace (snd (rws_frame_create s)) = trace s"
  using more_alloc(2) [of k s] more_alloc(3) [of x s] more_alloc(4,5) [where m = s] unfolding more_sys by simp_all

lemma face_system [simp]:
  "face (snd (snd (sys_send bs s))) = face s" "face (snd (snd (sys_recv s))) = face s" "face (snd (sys_getsockopt_error s)) = face s"
  "face (rws_socket_close s) = face s" "face (snd (rws_socket_get_next_message_id s)) = face s"
  by (auto simp: faces sys_send_def sys_recv_def sys_getsockopt_error_def rws_socket_close_def rws_socket_get_next_message_id_def
      split: option.split)

lemmas face_system_parts [simp] = face_system [unfolded face_def reports_def prod.inject]

lemma face_errors [same_face]:
  "clean_error s = Some s' \<Longrightarrow> face s' = face s"
  "set_error code descr s = Some s' \<Longrightarrow> face s' = face s"
  by (auto simp: clean_error_def set_error_def faces dest!: same_more)

lemma face_write_error [same_face]: "rws_socket_check_write_error e s = Some s' \<Longrightarrow> face s' = face s"
  using face_system(3) [of s] by (auto simp: rws_socket_check_write_error_def returns split: if_splits dest!: same_face)

lemma face_send [same_face]: "rws_socket_send data k s = Some r \<Longrightarrow> face (snd r) = face s"
  by (auto simp: rws_socket_send_def returns split: if_splits dest!: same_face)


lemma face_resize [same_face]: "rws_socket_resize_received k s = Some s' \<Longrightarrow> face s' = face s"
  by (auto simp: rws_socket_resize_received_def faces split: if_splits dest!: same_more)

lemma face_recv_loop [same_face]: "recv_loop chunks s = Some s' \<Longrightarrow> face s' = face s"
proof (induction chunks arbitrary: s)
  case (Cons chunk chunks)
  then show ?case by (fastforce simp: faces split: if_splits dest!: same_more same_face)
qed simp

lemma face_recv [same_face]: "rws_socket_recv s = Some r \<Longrightarrow> face (snd r) = face s"
  by (auto simp: rws_socket_recv_def returns split: if_splits dest!: same_face)

lemma face_append [same_face]:
  "rws_socket_append_send_frames frame s = Some s' \<Longrightarrow> face s' = face s"
  "rws_socket_append_recvd_frames frame s = Some s' \<Longrightarrow> face s' = face s"
  by (auto simp: rws_socket_append_send_frames_def rws_socket_append_recvd_frames_def faces split: if_splits dest!: same_more)

lemma face_send_ping [same_face]: "rws_socket_send_ping s = Some s' \<Longrightarrow> face s' = face s"
  by (auto simp: rws_socket_send_ping_def faces split: if_splits dest!: same_more same_face)

lemma face_send_text_priv [same_face]: "rws_socket_send_text_priv text s = Some r \<Longrightarrow> face (snd r) = face s"
  by (auto simp: rws_socket_send_text_priv_def faces split: if_splits dest!: same_more same_face)

lemma face_consume [same_face]: "consume_received k s = Some s' \<Longrightarrow> face s' = face s"
  by (auto simp: consume_received_def faces split: if_splits dest!: same_more)

lemma face_frames [same_face]:
  "rws_socket_process_bin_or_text_frame frame s = Some s' \<Longrightarrow> face s' = face s"
  "rws_socket_process_ping_frame frame s = Some s' \<Longrightarrow> face s' = face s"
  by (auto simp: rws_socket_process_bin_or_text_frame_def rws_socket_process_ping_frame_def faces
      split: if_splits dest!: same_more same_face)

section \<open>The commands\<close>

text \<open>No callback is made, and the command stays or becomes one of \<open>C\<close>.\<close>

definition moves :: "int set \<Rightarrow> sys \<Rightarrow> sys \<Rightarrow> bool" where
  "moves C s s' \<longleftrightarrow> reports s' = reports s \<and> s_on_connected (sk s') = s_on_connected (sk s) \<and>
     (s_command (sk s') = s_command (sk s) \<or> s_command (sk s') \<in> C)"

lemma face_moves: "face s' = face s \<Longrightarrow> moves C s s'"
  by (simp add: moves_def face_def)

lemma face_process_close: "rws_socket_process_conn_close_frame frame s = Some s' \<Longrightarrow> moves {COMMAND_INFORM_DISCONNECTED} s s'"
  by (auto simp: rws_socket_process_conn_close_frame_def moves_def faces dest!: same_more same_face)

lemma moves_process: "rws_socket_process_received_frame frame s = Some s' \<Longrightarrow> moves {COMMAND_INFORM_DISCONNECTED} s s'"
  by (auto simp: rws_socket_process_received_frame_def returns split: if_splits dest!: face_process_close same_face face_moves)
    (auto simp: moves_def faces dest!: same_more)

lemma moves_received:
  assumes "(if frame \<noteq> NULL then rws_socket_process_received_frame frame s else Some s) \<bind> consume_received k = Some s'"
  shows "moves {COMMAND_INFORM_DISCONNECTED} s s'"
  using assms by (auto simp: moves_def elim!: bind_SomeE split: if_split_asm dest!: moves_process same_face) (auto simp: moves_def faces)

lemma moves_idle_recv:
  assumes "rws_socket_idle_recv s = Some s'"
  shows "moves {COMMAND_INFORM_DISCONNECTED} s s'"
proof -
  obtain r where r: "rws_socket_recv s = Some r" "face (snd r) = face s"
    using assms same_face by (auto simp: rws_socket_idle_recv_def elim!: bind_SomeE)
  show ?thesis
  proof (cases "fst r")
    case False
    then show ?thesis using assms r by (auto simp: rws_socket_idle_recv_def moves_def faces split: if_splits)
  next
    case True
    obtain k where k: "rws_check_recv_frame_size (s_received (sk (snd r))) (s_received_len (sk (snd r))) (snd r) = Some k"
      using assms r(1) True by (auto simp: rws_socket_idle_recv_def case_prod_unfold elim!: bind_SomeE)
    show ?thesis
    proof (cases "k = 0")
      case True
      then show ?thesis using assms r k \<open>fst r\<close> by (simp add: rws_socket_idle_recv_def case_prod_unfold face_moves)
    next
      case False
      then obtain f where f: "rws_frame_create_with_recv_data (s_received (sk (snd r))) k (snd r) = Some f"
          "(if fst f \<noteq> NULL then rws_socket_process_received_frame (fst f) (snd f) else Some (snd f))
             \<bind> consume_received k = Some s'"
        using assms r(1) k \<open>fst r\<close> by (auto simp: rws_socket_idle_recv_def case_prod_unfold elim!: bind_SomeE)
      have "face (snd f) = face s" using more_recv [OF f(1)] r(2) by (simp add: faces)
      then show ?thesis using moves_received [OF f(2)] by (simp add: moves_def face_def)
    qed
  qed
qed

lemma face_send_loop:
  assumes "idle_send_loop cur sending s = Some s'"
  shows "face s' = face s"
  by (rule idle_send_loop.raw_induct [where P = "\<lambda>cur sending s s'. face s' = face s", OF _ assms])
    (auto simp: faces split: if_split_asm dest!: same_more same_face)

lemma moves_idle_send:
  assumes "rws_socket_idle_send s = Some s'"
  shows "moves {COMMAND_INFORM_DISCONNECTED} s s'"
proof -
  obtain t u where t: "rws_mutex_lock (s_send_mutex (sk s)) s = Some t" and u: "rws_mutex_unlock (s_send_mutex (sk u)) u = Some s'"
    and b: "(if s_send_frames (sk t) \<noteq> NULL then do {
         s \<leftarrow> idle_send_loop (s_send_frames (sk t)) True t;
         (l, s) \<leftarrow> rws_list_delete_clean (s_send_frames (sk s)) s;
         let s = s\<lparr>sk := (sk s)\<lparr>s_send_frames := l\<rparr>\<rparr>;
         Some (if s_error (sk s) \<noteq> NULL
               then s\<lparr>sk := (sk s)\<lparr>s_command := COMMAND_INFORM_DISCONNECTED\<rparr>\<rparr> else s) }
       else Some t) = Some u"
    using assms unfolding rws_socket_idle_send_def by (elim bind_SomeE)
  have "moves {COMMAND_INFORM_DISCONNECTED} t u"
  proof (cases "s_send_frames (sk t) = NULL")
    case True
    then show ?thesis using b by (simp add: face_moves)
  next
    case False
    then obtain v r where v: "idle_send_loop (s_send_frames (sk t)) True t = Some v" "rws_list_delete_clean (s_send_frames (sk v)) v = Some r"
      and u: "u = (let s = (snd r)\<lparr>sk := (sk (snd r))\<lparr>s_send_frames := fst r\<rparr>\<rparr>
         in if s_error (sk s) \<noteq> NULL then s\<lparr>sk := (sk s)\<lparr>s_command := COMMAND_INFORM_DISCONNECTED\<rparr>\<rparr> else s)"
      using b by (auto simp: Let_def elim!: bind_SomeE)
    show ?thesis using face_send_loop [OF v(1)] more_frame(1) [OF v(2)] by (simp add: u moves_def faces)
  qed
  then show ?thesis using t u by (auto simp: moves_def faces dest!: same_more)
qed

lemma moves_disconnect: "rws_socket_send_disconnect s = Some s' \<Longrightarrow> moves {COMMAND_END} s s'"
  by (auto simp: rws_socket_send_disconnect_def moves_def faces dest!: same_face same_more)

lemma moves_send_handshake:
  "rws_socket_send_handshake s = Some s' \<Longrightarrow> moves {COMMAND_WAIT_HANDSHAKE_RESPONCE, COMMAND_INFORM_DISCONNECTED} s s'"
  by (auto simp: rws_socket_send_handshake_def moves_def faces closed_sk_def split: if_splits dest!: same_face same_more)

lemma face_read_value [same_face]: "rws_socket_read_handshake_responce_value p v s = Some r \<Longrightarrow> face (snd r) = face s"
  by (auto simp: rws_socket_read_handshake_responce_value_def faces split: if_splits dest!: same_more)

lemma face_accept_key:
  assumes "(case sub of None \<Rightarrow> Some s | Some ks \<Rightarrow> do {
       (v, s) \<leftarrow> rws_socket_read_handshake_responce_value (off ks) (s_sec_ws_accept (sk s)) s;
       Some (s\<lparr>sk := (sk s)\<lparr>s_sec_ws_accept := v\<rparr>\<rparr>) }) = Some s'"
  shows "face s' = face s"
  using assms by (auto simp: faces split: option.splits dest!: face_read_value)

lemma face_verdict:
  assumes "(if c \<noteq> 101 \<or> p = NULL then do { s \<leftarrow> set_error code descr s; Some (False, s) } else Some (True, s)) = Some r"
  shows "face (snd r) = face s"
  using assms by (auto elim!: bind_SomeE split: if_split_asm dest!: face_errors)

lemma face_process_handshake [same_face]:
  assumes "rws_socket_process_handshake_responce s = Some r"
  shows "face (snd r) = face s"
proof -
  obtain t cs sub where t: "clean_error s = Some t" and sub: "(case sub of None \<Rightarrow> Some (False, t) | Some hs \<Rightarrow> do {
          code \<leftarrow> sscanf_f_i (drop 5 hs);
          let http_code = (case code of None \<Rightarrow> -1 | Some c \<Rightarrow> c);
          sub \<leftarrow> strstr_cells k_rws_socket_sec_websocket_accept cs;
          s \<leftarrow> (case sub of None \<Rightarrow> Some t | Some ks \<Rightarrow> do {
                 (v, s) \<leftarrow> rws_socket_read_handshake_responce_value
                   (length cs - length ks + length k_rws_socket_sec_websocket_accept) (s_sec_ws_accept (sk t)) t;
                 Some (s\<lparr>sk := (sk s)\<lparr>s_sec_ws_accept := v\<rparr>\<rparr>) });
          if http_code \<noteq> 101 \<or> s_sec_ws_accept (sk s) = NULL then do {
            s \<leftarrow> set_error rws_error_code_parse_handshake
                 (if http_code \<noteq> 101 then lit ''HTPP code not found or non 101'' else lit ''Accept key not found'') s;
            Some (False, s) }
          else Some (True, s) }) = Some r"
    using assms unfolding rws_socket_process_handshake_responce_def by (elim bind_SomeE)
  have "face (snd r) = face t"
  proof (cases sub)
    case None
    then show ?thesis using sub by auto
  next
    case (Some hs)
    then show ?thesis using sub unfolding Some option.case Let_def
      by (elim bind_SomeE) (simp only: face_verdict face_accept_key)
  qed
  then show ?thesis using face_errors(1) [OF t] by simp
qed

lemma moves_wait_handshake:
  assumes "rws_socket_wait_handshake_responce s = Some s'"
  shows "moves {COMMAND_INFORM_CONNECTED, COMMAND_INFORM_DISCONNECTED} s s'"
proof -
  obtain r where r: "rws_socket_recv s = Some r" "face (snd r) = face s"
    using assms face_recv by (auto simp: rws_socket_wait_handshake_responce_def elim!: bind_SomeE)
  consider (lost) "\<not> fst r" | (empty) "fst r" "s_received_len (sk (snd r)) = 0"
    | (response) "fst r" "s_received_len (sk (snd r)) \<noteq> 0" by blast
  then show ?thesis
  proof cases
    case response
    then obtain q where q: "rws_socket_process_handshake_responce (snd r) = Some q"
        "s' = (if fst q then (snd q)\<lparr>sk := (sk (snd q))
             \<lparr>s_received_len := 0, s_is_connected := True, s_command := COMMAND_INFORM_CONNECTED\<rparr>\<rparr>
           else (let s = rws_socket_close (snd q) in s\<lparr>sk := (sk s)\<lparr>s_command := COMMAND_INFORM_DISCONNECTED\<rparr>\<rparr>))"
      using assms r(1) by (fastforce simp: rws_socket_wait_handshake_responce_def Let_def case_prod_unfold elim!: bind_SomeE split: if_split_asm)
    have "face (snd q) = face s" using face_process_handshake [OF q(1)] r(2) by simp
    then show ?thesis using face_system(4) [of "snd q"] by (simp add: q(2) moves_def face_def reports_def Let_def closed_sk_def)
  qed (use assms r in \<open>auto simp: rws_socket_wait_handshake_responce_def moves_def faces split: if_split_asm\<close>)
qed

lemma face_getaddr [simp]: "face (snd (snd (getaddr_loop k r s))) = face s"
proof (induction k r s rule: getaddr_loop.induct)
  case (1 k r s)
  then show ?case
    by (subst getaddr_loop.simps) (auto simp: Let_def case_prod_unfold sys_getaddrinfo_def faces)
qed

lemma face_try [simp]: "face (snd (try_addresses p sock s)) = face s"
  by (induction p sock s rule: try_addresses.induct)
    (auto simp: Let_def case_prod_unfold sys_socket_def sys_connect_def faces)

lemma face_connect_loop [simp]: "face (connect_loop k sock result s) = face s"
proof (induction k sock result s rule: connect_loop.induct)
  case (1 k sock result s)
  then show ?case by (subst connect_loop.simps) (auto simp: Let_def case_prod_unfold)
qed

lemma moves_connect:
  "rws_socket_connect_to_host s = Some s' \<Longrightarrow> moves {COMMAND_SEND_HANDSHAKE, COMMAND_INFORM_DISCONNECTED} s s'"
  using face_getaddr face_connect_loop
  by (auto simp: rws_socket_connect_to_host_def rws_socket_connect_getaddr_info_def moves_def faces split: if_splits dest!: same_face)

text \<open>The command after the first \<open>switch\<close>.\<close>

definition next_commands :: "int \<Rightarrow> int set" where
  "next_commands c =
     (if c = COMMAND_CONNECT_TO_HOST then {COMMAND_SEND_HANDSHAKE, COMMAND_INFORM_DISCONNECTED}
      else if c = COMMAND_SEND_HANDSHAKE then {COMMAND_WAIT_HANDSHAKE_RESPONCE, COMMAND_INFORM_DISCONNECTED}
      else if c = COMMAND_WAIT_HANDSHAKE_RESPONCE then {COMMAND_INFORM_CONNECTED, COMMAND_INFORM_DISCONNECTED}
      else if c = COMMAND_IDLE then {COMMAND_INFORM_DISCONNECTED}
      else if c = COMMAND_DISCONNECT then {COMMAND_END} else {})"

lemma moves_idle:
  assumes "do { (n, s) \<leftarrow> (if 400 \<le> n then do {
                    s \<leftarrow> (if s_is_connected (sk s) then rws_socket_send_ping s else Some s); Some (0, s) }
                  else Some (n, s));
        s \<leftarrow> (if s_is_connected (sk s) then rws_socket_idle_send s else Some s);
        s \<leftarrow> (if s_is_connected (sk s) then rws_socket_idle_recv s else Some s);
        Some (n, s) } = Some (n', s')"
  shows "moves {COMMAND_INFORM_DISCONNECTED} s s'"
  using assms
  by (auto elim!: bind_SomeE split: if_split_asm dest!: moves_idle_recv moves_idle_send face_send_ping simp: moves_def face_def)

lemma moves_command:
  assumes "work_command n s = Some (n', s')"
  shows "moves (next_commands (s_command (sk s))) s s'"
  using assms moves_idle [of n s n' s']
  by (auto simp: work_command_def next_commands_def split: if_split_asm
      dest: moves_connect moves_send_handshake moves_wait_handshake moves_disconnect intro: face_moves)

lemma moves_locked:
  assumes "work_locked n s = Some (n', s')"
  shows "moves (next_commands (s_command (sk s))) s s'"
  using assms
  by (auto simp: work_locked_def elim!: bind_SomeE dest!: moves_command same_more) (auto simp: moves_def faces)

lemma moves_delete:
  assumes "rws_socket_delete h s = Some s'"
  shows "moves {} s s'"
  using assms
  by (auto simp: rws_socket_delete_def clean_send_frames_def clean_recvd_frames_def clean_list_def moves_def faces closed_sk_def
      elim!: bind_SomeE dest!: same_face same_more)

lemma moves_thread_end:
  assumes "thread_end h s = Some s'"
  shows "moves {} s s'"
proof -
  let ?s = "rws_socket_close s"
  have "moves {} (?s\<lparr>sk := (sk ?s)\<lparr>s_work_thread := NULL\<rparr>\<rparr>) s'"
    using assms by (simp only: thread_end_def Let_def moves_delete)
  moreover have "face (?s\<lparr>sk := (sk ?s)\<lparr>s_work_thread := NULL\<rparr>\<rparr>) = face ?s" by (simp add: face_def reports_def)
  ultimately show ?thesis using face_system(4) [of s] by (simp add: moves_def face_def)
qed

section \<open>The public functions\<close>

lemma moves_send_text: "rws_socket_send_text h text s = Some r \<Longrightarrow> moves {} s (snd r)"
  by (auto simp: rws_socket_send_text_def moves_def faces split: if_split_asm elim!: bind_SomeE dest!: same_face same_more)

lemma moves_is_connected: "rws_socket_is_connected h s = Some r \<Longrightarrow> moves {} s (snd r)"
  by (auto simp: rws_socket_is_connected_def moves_def faces split: if_split_asm elim!: bind_SomeE dest!: same_more)

lemma moves_release:
  "rws_socket_disconnect_and_release h s = Some s' \<Longrightarrow> moves {COMMAND_DISCONNECT, COMMAND_END} s s'"
  by (auto simp: rws_socket_disconnect_and_release_def moves_def faces split: if_split_asm elim!: bind_SomeE
      dest!: same_more moves_delete)

section \<open>The order of the callbacks\<close>

text \<open>
  Callbacks of the application that only use the public functions: they make no callback themselves, and change the
  command by a release at most.
\<close>

definition modest :: "user_code \<Rightarrow> bool" where
  "modest user \<longleftrightarrow> (\<forall>e s s'. user e s = Some s' \<longrightarrow> moves {COMMAND_DISCONNECT, COMMAND_END} s s')"

fun is_end :: "event \<Rightarrow> bool" where
  "is_end (On_disconnected code) = True"
| "is_end e = False"

text \<open>\<open>talking on rs\<close>: the connection has been reported, if there is a callback for it, and then messages only.\<close>

definition greeting :: "nat option \<Rightarrow> event list" where
  "greeting on = (if on = None then [] else [On_connected])"

definition talking :: "nat option \<Rightarrow> event list \<Rightarrow> bool" where
  "talking on rs \<longleftrightarrow> take (length (greeting on)) rs = greeting on \<and> list_all is_message (drop (length (greeting on)) rs)"

text \<open>\<open>orderly on rs\<close>: nothing yet, or the connection and then messages; possibly the end after that, and nothing
  behind it.\<close>

definition orderly :: "nat option \<Rightarrow> event list \<Rightarrow> bool" where
  "orderly on rs \<longleftrightarrow>
     (let es = (if rs \<noteq> [] \<and> is_end (last rs) then butlast rs else rs) in es = [] \<or> talking on es)"

lemma talking_iff: "talking on rs \<longleftrightarrow> (\<exists>ms. rs = greeting on @ ms \<and> list_all is_message ms)"
  by (auto simp: talking_def) (metis append_take_drop_id)

lemma talking_greeting: "talking on (greeting on)"
  by (simp add: talking_def)

lemma talking_append: "talking on rs \<Longrightarrow> list_all is_message ms \<Longrightarrow> talking on (rs @ ms)"
  by (auto simp: talking_iff)

lemma talking_no_end: "talking on rs \<Longrightarrow> rs \<noteq> [] \<Longrightarrow> \<not> is_end (last rs)"
  by (cases rs rule: rev_cases) (auto simp: talking_iff greeting_def append_eq_Cons_conv append_eq_append_conv2 Cons_eq_append_conv
      split: if_splits elim!: is_end.elims)

lemma orderly_talking: "rs = [] \<or> talking on rs \<Longrightarrow> orderly on rs"
  using talking_no_end by (auto simp: orderly_def Let_def)

lemma orderly_end: "rs = [] \<or> talking on rs \<Longrightarrow> orderly on (rs @ [On_disconnected code])"
  by (auto simp: orderly_def Let_def)

text \<open>The callbacks made when the command is \<open>c\<close>.\<close>

definition made :: "nat option \<Rightarrow> int \<Rightarrow> event list \<Rightarrow> bool" where
  "made on c rs \<longleftrightarrow>
     (if c \<in> {COMMAND_CONNECT_TO_HOST, COMMAND_SEND_HANDSHAKE, COMMAND_WAIT_HANDSHAKE_RESPONCE, COMMAND_INFORM_CONNECTED} then rs = []
      else if c = COMMAND_IDLE then talking on rs
      else if c = COMMAND_INFORM_DISCONNECTED then rs = [] \<or> talking on rs
      else orderly on rs)"

lemma made_orderly: "made on c rs \<Longrightarrow> orderly on rs"
  using orderly_talking by (auto simp: made_def split: if_splits)

lemma made_released: "made on c rs \<Longrightarrow> c' = c \<or> c' \<in> {COMMAND_DISCONNECT, COMMAND_END} \<Longrightarrow> made on c' rs"
  using made_orderly by (auto simp: made_def [of on COMMAND_DISCONNECT] made_def [of on COMMAND_END])

lemma made_next: "made on c rs \<Longrightarrow> c' = c \<or> c' \<in> next_commands c \<Longrightarrow> made on c' rs"
  by (auto simp: next_commands_def made_def split: if_splits)

text \<open>The second \<open>switch\<close>.\<close>

definition tells :: "sys \<Rightarrow> sys \<Rightarrow> bool" where
  "tells s s' \<longleftrightarrow> s_on_connected (sk s') = s_on_connected (sk s) \<and>
     (s_command (sk s') = s_command (sk s) \<or> s_command (sk s') \<in> {COMMAND_DISCONNECT, COMMAND_END}) \<and>
     (\<exists>ms. reports s' = reports s @ ms \<and> list_all is_message ms)"

lemma tells_trans: "tells s t \<Longrightarrow> tells t u \<Longrightarrow> tells s u"
  unfolding tells_def by fastforce

lemma face_tells: "face s' = face s \<Longrightarrow> tells s s'"
  by (simp add: tells_def face_def)

lemma called: "call_user user e s = Some s' \<Longrightarrow> modest user \<Longrightarrow> is_report e \<Longrightarrow>
    reports s' = reports s @ [e] \<and> s_on_connected (sk s') = s_on_connected (sk s) \<and>
    (s_command (sk s') = s_command (sk s) \<or> s_command (sk s') \<in> {COMMAND_DISCONNECT, COMMAND_END})"
  by (fastforce simp: call_user_def modest_def moves_def reports_def)

lemma tells_deliver: "deliver_frame user f s = Some s' \<Longrightarrow> modest user \<Longrightarrow> tells s s'"
  by (auto simp: deliver_frame_def face_tells elim!: bind_SomeE split: if_split_asm) (auto simp: tells_def dest!: called)

lemma tells_entry:
  assumes "(if n_value x \<noteq> NULL then do {
             f \<leftarrow> get_frame (n_value x) s;
             if f_is_finished f then do {
               s \<leftarrow> deliver_frame user f s;
               s \<leftarrow> rws_frame_delete (n_value x) s;
               y \<leftarrow> get_node cur s;
               s \<leftarrow> put_node cur (y\<lparr>n_value := NULL\<rparr>) s;
               Some (fin, s) }
             else Some (False, s) }
           else Some (fin, s)) = Some r" and "modest user"
  shows "tells s (snd r)"
  using assms
  by (auto elim!: bind_SomeE split: if_split_asm dest!: tells_deliver same_more simp: face_tells) (auto simp: tells_def faces)

lemma tells_loop:
  assumes "inform_loop user cur fin s = Some r" and modest: "modest user"
  shows "tells s (snd r)"
proof (rule mp [OF _ modest],
    rule inform_loop.raw_induct [where P = "\<lambda>user cur fin s r. modest user \<longrightarrow> tells s (snd r)", OF _ assms(1)], rule impI)
  fix f and user :: user_code and cur fin s r
  assume IH: "\<And>user cur fin s r. f user cur fin s = Some r \<Longrightarrow> modest user \<longrightarrow> tells s (snd r)" and modest: "modest user"
    and eq: "(if cur \<noteq> NULL then do {
        x \<leftarrow> get_node cur s;
        (fin, s) \<leftarrow>
          (if n_value x \<noteq> NULL then do {
             f \<leftarrow> get_frame (n_value x) s;
             if f_is_finished f then do {
               s \<leftarrow> deliver_frame user f s;
               s \<leftarrow> rws_frame_delete (n_value x) s;
               y \<leftarrow> get_node cur s;
               s \<leftarrow> put_node cur (y\<lparr>n_value := NULL\<rparr>) s;
               Some (fin, s) }
             else Some (False, s) }
           else Some (fin, s));
        x \<leftarrow> get_node cur s;
        f user (n_next x) fin s }
      else Some (fin, s)) = Some r"
  show "tells s (snd r)"
  proof (cases "cur = NULL")
    case True
    then show ?thesis using eq by (auto simp: face_tells)
  next
    case False
    then obtain x y :: rws_node and q where q: "(if n_value x \<noteq> NULL then do {
             f \<leftarrow> get_frame (n_value x) s;
             if f_is_finished f then do {
               s \<leftarrow> deliver_frame user f s;
               s \<leftarrow> rws_frame_delete (n_value x) s;
               y \<leftarrow> get_node cur s;
               s \<leftarrow> put_node cur (y\<lparr>n_value := NULL\<rparr>) s;
               Some (fin, s) }
             else Some (False, s) }
           else Some (fin, s)) = Some q" "f user (n_next y) (fst q) (snd q) = Some r"
      using eq unfolding if_P [OF False] case_prod_unfold by (elim bind_SomeE)
    show ?thesis by (rule tells_trans [OF tells_entry [OF q(1) modest]]) (use IH [OF q(2)] modest in simp)
  qed
qed

lemma tells_inform:
  assumes "rws_socket_inform_recvd_frames user s = Some s'" and "modest user"
  shows "tells s s'"
proof -
  obtain r where r: "inform_loop user (s_recvd_frames (sk s)) True s = Some r"
      "(if fst r then do { (l, s) \<leftarrow> rws_list_delete_clean (s_recvd_frames (sk (snd r))) (snd r);
          Some (s\<lparr>sk := (sk s)\<lparr>s_recvd_frames := l\<rparr>\<rparr>) } else Some (snd r)) = Some s'"
    using assms(1) by (auto simp: rws_socket_inform_recvd_frames_def case_prod_unfold elim!: bind_SomeE)
  have "face s' = face (snd r)" using r(2) by (auto simp: faces split: if_split_asm dest!: same_more)
  then show ?thesis using tells_trans [OF tells_loop [OF r(1) assms(2)] face_tells] by blast
qed

lemma informed:
  assumes inf: "inform_branch user c s = Some s'" and modest: "modest user" and rs: "reports s = R @ rs" "made (s_on_connected (sk s)) c rs"
    and cmd: "s_command (sk s) = c \<or> s_command (sk s) \<in> {COMMAND_DISCONNECT, COMMAND_END}"
  shows "\<exists>rs'. reports s' = R @ rs' \<and> made (s_on_connected (sk s)) (s_command (sk s')) rs' \<and>
    s_on_connected (sk s') = s_on_connected (sk s)"
proof -
  let ?on = "s_on_connected (sk s)"
  consider (connected) "c = COMMAND_INFORM_CONNECTED" | (disconnected) "c = COMMAND_INFORM_DISCONNECTED" | (idle) "c = COMMAND_IDLE"
    | (other) "c \<noteq> COMMAND_INFORM_CONNECTED" "c \<noteq> COMMAND_INFORM_DISCONNECTED" "c \<noteq> COMMAND_IDLE" by blast
  then show ?thesis
  proof cases
    case connected
    let ?s = "s\<lparr>sk := (sk s)\<lparr>s_command := COMMAND_IDLE\<rparr>\<rparr>"
    have s': "(if ?on \<noteq> None then call_user user On_connected ?s else Some ?s) = Some s'"
      using inf connected by (simp add: inform_branch_def Let_def)
    have "rs = []" using rs(2) connected by (simp add: made_def)
    moreover have "made ?on COMMAND_IDLE (greeting ?on)" using talking_greeting by (simp add: made_def)
    moreover have "reports s' = reports s @ greeting ?on \<and> s_on_connected (sk s') = ?on \<and>
        (s_command (sk s') = COMMAND_IDLE \<or> s_command (sk s') \<in> {COMMAND_DISCONNECT, COMMAND_END})"
      using s' called [OF _ modest, of On_connected ?s s'] by (auto simp: greeting_def reports_def split: if_split_asm)
    ultimately show ?thesis using rs(1) made_released by (intro exI [of _ "greeting ?on"]) auto
  next
    case disconnected
    let ?s = "s\<lparr>sk := (sk s)\<lparr>s_command := COMMAND_END\<rparr>\<rparr>"
    obtain t where t: "rws_socket_send_disconnect ?s = Some t"
        "(if s_on_disconnected (sk t) \<noteq> None then error_code_of t \<bind> (\<lambda>code. call_user user (On_disconnected code) t)
          else Some t) = Some s'"
      using inf disconnected by (auto simp: inform_branch_def elim!: bind_SomeE)
    have m: "reports t = reports s" "s_on_connected (sk t) = ?on" "s_command (sk t) = COMMAND_END"
      using moves_disconnect [OF t(1)] by (auto simp: moves_def reports_def)
    have op: "rs = [] \<or> talking ?on rs" using rs(2) disconnected by (simp add: made_def)
    show ?thesis
    proof (cases "s_on_disconnected (sk t) = None")
      case True
      then show ?thesis using t(2) m rs(1) orderly_talking [OF op] by (auto simp: made_def)
    next
      case False
      then obtain code where "call_user user (On_disconnected code) t = Some s'" using t(2) by (auto elim!: bind_SomeE)
      from called [OF this modest] m rs(1) orderly_end [OF op]
      show ?thesis by (intro exI [of _ "rs @ [On_disconnected code]"]) (auto simp: made_def)
    qed
  next
    case idle
    have "tells s s'"
      using inf idle tells_inform [OF _ modest] by (auto simp: inform_branch_def face_tells split: if_split_asm)
    then obtain ms where ms: "reports s' = reports s @ ms" "list_all is_message ms" "s_on_connected (sk s') = ?on"
        "s_command (sk s') = s_command (sk s) \<or> s_command (sk s') \<in> {COMMAND_DISCONNECT, COMMAND_END}" by (auto simp: tells_def)
    have "made ?on COMMAND_IDLE (rs @ ms)" using rs(2) idle talking_append [OF _ ms(2)] by (simp add: made_def)
    then have "made ?on (s_command (sk s')) (rs @ ms)" by (rule made_released) (use ms(4) cmd idle in auto)
    then show ?thesis using ms(1,3) rs(1) by (intro exI [of _ "rs @ ms"]) simp
  next
    case other
    then have "s' = s" using inf by (simp add: inform_branch_def)
    then show ?thesis using rs made_released [OF rs(2) cmd] by auto
  qed
qed

text \<open>What holds at every place of the work thread: the callbacks made, \<open>R\<close> those before the connection, agree
  with the command.\<close>

definition in_order :: "event list \<Rightarrow> nat option \<Rightarrow> place \<Rightarrow> sys \<Rightarrow> bool" where
  "in_order R on pc s \<longleftrightarrow> s_on_connected (sk s) = on \<and> (\<exists>rs. reports s = R @ rs \<and>
     (case pc of Inform c \<Rightarrow> made on c rs \<and> (s_command (sk s) = c \<or> s_command (sk s) \<in> {COMMAND_DISCONNECT, COMMAND_END})
      | _ \<Rightarrow> made on (s_command (sk s)) rs))"

lemma in_order_moves:
  assumes "in_order R on pc s" and m: "moves {COMMAND_DISCONNECT, COMMAND_END} s s'"
  shows "in_order R on pc s'"
proof -
  obtain rs where on: "s_on_connected (sk s) = on" "reports s = R @ rs"
    and c: "case pc of Inform c \<Rightarrow> made on c rs \<and> (s_command (sk s) = c \<or> s_command (sk s) \<in> {COMMAND_DISCONNECT, COMMAND_END})
      | _ \<Rightarrow> made on (s_command (sk s)) rs" using assms(1) unfolding in_order_def by blast
  have "case pc of Inform c \<Rightarrow> made on c rs \<and> (s_command (sk s') = c \<or> s_command (sk s') \<in> {COMMAND_DISCONNECT, COMMAND_END})
      | _ \<Rightarrow> made on (s_command (sk s')) rs"
    using c m made_released [of on "s_command (sk s)" rs "s_command (sk s')"] by (cases pc) (auto simp: moves_def)
  then show ?thesis using on m unfolding in_order_def moves_def by auto
qed

lemma in_order_work:
  assumes io: "in_order R on pc s" and step: "work_step user h (pc, n, s) = Some (pc', n', s')" and modest: "modest user"
  shows "in_order R on pc' s'"
proof (cases pc)
  case Guard
  then show ?thesis using io step in_order_moves [of R on pc s s'] moves_thread_end [of h s]
    by (auto simp: in_order_def moves_def split: if_split_asm elim!: bind_SomeE)
next
  case Locked
  then have l: "work_locked n s = Some (n', s')" and pc': "pc' = Switch" using step by (auto elim!: bind_SomeE)
  from moves_locked [OF l] io Locked pc' made_next show ?thesis by (fastforce simp: in_order_def moves_def)
next
  case (Inform c)
  then have b: "inform_branch user c s = Some s'" and pc': "pc' = Guard" using step by (auto elim!: bind_SomeE)
  obtain rs where rs: "s_on_connected (sk s) = on" "reports s = R @ rs" "made on c rs"
      "s_command (sk s) = c \<or> s_command (sk s) \<in> {COMMAND_DISCONNECT, COMMAND_END}" using io Inform by (auto simp: in_order_def)
  from informed [OF b modest rs(2) _ rs(4)] rs(1,3) pc' show ?thesis by (auto simp: in_order_def)
qed (use io step in \<open>auto simp: in_order_def\<close>)

lemma in_order_act:
  assumes io: "in_order R on pc s" and act: "act user h a (pc, n, s) = Some (pc', n', s')" and modest: "modest user"
  shows "in_order R on pc' s'"
proof (cases a)
  case Work
  then show ?thesis using in_order_work [OF io _ modest] act by simp
next
  case (Send_text bs)
  then obtain r where "rws_socket_send_text h (Lit bs 0) s = Some r" "pc' = pc" "s' = snd r" using act by (auto elim!: bind_SomeE)
  then show ?thesis using moves_send_text in_order_moves [OF io] by (auto simp: moves_def)
next
  case Ask_connected
  then obtain r where "rws_socket_is_connected h s = Some r" "pc' = pc" "s' = snd r" using act by (auto elim!: bind_SomeE)
  then show ?thesis using moves_is_connected in_order_moves [OF io] by (auto simp: moves_def)
next
  case Release
  then have "rws_socket_disconnect_and_release h s = Some s'" "pc' = pc" using act by (auto elim!: bind_SomeE)
  then show ?thesis using moves_release in_order_moves [OF io] by simp
qed

lemma in_order_run:
  assumes "modest user"
  shows "in_order R on pc s \<Longrightarrow> run user h as (pc, n, s) = Some (pc', n', s') \<Longrightarrow> in_order R on pc' s'"
proof (induction as arbitrary: pc n s)
  case (Cons a as)
  obtain c where "act user h a (pc, n, s) = Some c" "run user h as c = Some (pc', n', s')"
    using Cons.prems(2) by (auto elim!: bind_SomeE)
  then show ?case using Cons.IH in_order_act [OF Cons.prems(1) _ assms] by (cases c) blast
qed simp

lemma in_order_orderly: "in_order R on pc s \<Longrightarrow> \<exists>rs. reports s = R @ rs \<and> orderly on rs"
  using made_orderly by (cases pc) (fastforce simp: in_order_def)+

lemma modest_echo: "modest (echo b msg)"
  using moves_send_text by (fastforce simp: modest_def echo_def moves_def elim!: bind_SomeE split: event.splits if_split_asm)

text \<open>C3: The callbacks come in order.  Let the application's callbacks use the public functions only (they may send texts or release the
  socket), and let the thread be about to connect.  Then in every run that returns, however the steps of the work thread (\<open>work_step\<close>) and
  the calls of the client alternate, and whatever the network answers, the callbacks made on the way are: nothing; or the one report of
  the connection (if there is a callback for it) and then messages; and at the end at most one report of the disconnect, after which
  nothing is reported any more.  A connection that never came about is reported by the disconnect alone.  Nothing else is asked for
  the order; that a run from a sound state does return is shown for the good ones, where every action is admissible, with
  civil callbacks (a run that is not may fail or hang: \<open>handshake_reads_past_end\<close>, \<open>release_hangs_with_queued_text\<close>).\<close>

theorem callbacks_in_order:
  assumes "s_command (sk s) = COMMAND_CONNECT_TO_HOST" and "modest user"
  shows "(\<forall>h as pc n s'. run user h as (Guard, 0, s) = Some (pc, n, s') \<longrightarrow>
      (\<exists>rs. reports s' = reports s @ rs \<and> orderly (s_on_connected (sk s)) rs)) \<and>
    (\<forall>b U as. sound b U s \<and> civil user b \<and> good user (Ptr b 0) as (Guard, 0, s) \<longrightarrow>
      (\<exists>pc n s'. run user (Ptr b 0) as (Guard, 0, s) = Some (pc, n, s')))"
proof (intro conjI allI impI)
  fix h as pc n s' assume run: "run user h as (Guard, 0, s) = Some (pc, n, s')"
  have "in_order (reports s) (s_on_connected (sk s)) Guard s" using assms(1) by (simp add: in_order_def made_def)
  from in_order_orderly [OF in_order_run [OF assms(2) this run]]
  show "\<exists>rs. reports s' = reports s @ rs \<and> orderly (s_on_connected (sk s)) rs" .
next
  fix b U as assume "sound b U s \<and> civil user b \<and> good user (Ptr b 0) as (Guard, 0, s)"
  then show "\<exists>pc n s'. run user (Ptr b 0) as (Guard, 0, s) = Some (pc, n, s')" using run_safe sound_steady by blast
qed

theorem callbacks_in_order_witness:
  "\<exists>pc n s'. run (echo 0 [33]) (Ptr 0 0) (Ask_connected # replicate 4 Work) (Guard, 0, started) = Some (pc, n, s') \<and>
     orderly None (reports s')"
proof -
  let ?u = "echo 0 [33]" and ?h = "Ptr 0 0"
  have civ: "civil ?u 0" by (rule civil_echo) (simp add: small_text_def)
  have k: "s_command (sk started) = COMMAND_CONNECT_TO_HOST" "s_send_frames (sk started) = NULL" "fair started"
      "s_on_connected (sk started) = None"
      "reports started = []" "find resolved (stake 4 (env_addrinfo (ev started))) = None"
    by (simp_all add: started_fields fair_def quiet_env_def find_None_iff resolved_def in_set_conv_nth reports_def)
      (simp add: started_def zero_socket_def)
  obtain t where t: "work_locked 0 started = Some (Suc 0, t)" "s_command (sk t) = COMMAND_INFORM_DISCONNECTED"
    using unresolved_locked [OF started_sound k(1,2,6)] by blast
  have al: "alive ?h started = Some ()" "alive ?h t = Some ()"
    using started_sound locked_sound [OF started_sound k(3), of 0] t(1) joined_alive by (auto simp: sound_def)
  have "good ?u ?h (Ask_connected # replicate 4 Work) (Guard, 0, started)"
    using k(1,3) t al ask_steady [OF sound_steady [OF started_sound, of Guard]]
    by (simp add: eval_nat_numeral split: option.split)
  with started_sound civ have good: "sound 0 ({0, 1, 2} \<union> slot_blks [[3], [4], [5]]) started \<and> civil ?u 0 \<and>
      good ?u ?h (Ask_connected # replicate 4 Work) (Guard, 0, started)" by blast
  note order = callbacks_in_order [OF k(1) modest_echo [of 0 "[33]"]]
  from order [THEN conjunct2, rule_format, OF good] obtain pc n s' where
      run: "run ?u ?h (Ask_connected # replicate 4 Work) (Guard, 0, started) = Some (pc, n, s')" by blast
  from order [THEN conjunct1, rule_format, OF run] k(4,5) run show ?thesis by auto
qed

end
