(* ===== verification/Rws_Races.thy ===== *)
theory Rws_Races
  imports Rws_Run
begin

text \<open>
  Calls of the client that come at a bad moment.  The release is safe in memory wherever the work thread
  stands, but between the two \<open>switch\<close> statements it may be lost, or make the end of the thread loop for ever.  Frames queued by two
  threads at once may be lost.
\<close>

section \<open>A release at the wrong place\<close>

lemma steady_release:
  assumes st: "steady b U pc s" and none: "s_send_frames (sk s) = NULL" and conn: "s_is_connected (sk s)"
  shows "rws_socket_disconnect_and_release (Ptr b 0) s = Some (s\<lparr>sk := (sk s)\<lparr>s_command := COMMAND_DISCONNECT\<rparr>\<rparr>)"
proof -
  obtain P V bs xs ys where "joined s b 0 P V bs xs ys" using st unfolding steady_def by blast
  then have "alive (Ptr b 0) s = Some ()" "mutex_at s (s_work_mutex (sk s)) 0"
    using joined_alive setup_mutexes(1) by (auto simp: joined_def)
  from release_run [OF this none] conn show ?thesis by simp
qed

text \<open>C11: A release may be lost.  When the work thread has read that the connection was accepted and not yet
  acted on it, \<open>rws_socket_disconnect_and_release\<close> does ask for the disconnect, but the thread then
  overwrites the request with \<open>COMMAND_IDLE\<close>: from there on every run is the run without the release, so the
  thread and its connection live on after the client has let go of the socket.\<close>

theorem release_lost:
  assumes "steady b U (Inform COMMAND_INFORM_CONNECTED) s" and "s_send_frames (sk s) = NULL" and "s_is_connected (sk s)"
  shows "(\<exists>s'. act user (Ptr b 0) Release (Inform COMMAND_INFORM_CONNECTED, n, s) = Some (Inform COMMAND_INFORM_CONNECTED, n, s') \<and>
      s_command (sk s') = COMMAND_DISCONNECT) \<and>
    run user (Ptr b 0) (Release # Work # as) (Inform COMMAND_INFORM_CONNECTED, n, s) =
      run user (Ptr b 0) (Work # as) (Inform COMMAND_INFORM_CONNECTED, n, s)"
  using steady_release [OF assms] by (simp add: inform_branch_def)

text \<open>The end of the thread up to the loop over the received frames.\<close>

definition thread_end_begin :: "sys \<Rightarrow> sys option" where
  "thread_end_begin s = do {
     let s = rws_socket_close s;
     let s = s\<lparr>sk := (sk s)\<lparr>s_work_thread := NULL\<rparr>\<rparr>;
     let s = rws_socket_close s;
     (p, s) \<leftarrow> rws_string_delete_clean (s_sec_ws_accept (sk s)) s;
     let s = s\<lparr>sk := (sk s)\<lparr>s_sec_ws_accept := p\<rparr>\<rparr>;
     (p, s) \<leftarrow> rws_free_clean (s_received (sk s)) s;
     let s = s\<lparr>sk := (sk s)\<lparr>s_received := p, s_received_size := 0, s_received_len := 0\<rparr>\<rparr>;
     clean_send_frames s }"

lemma thread_end_in_two:
  "\<exists>rest. \<forall>u. thread_end h u = do {
     v \<leftarrow> thread_end_begin u;
     v \<leftarrow> rws_socket_delete_all_frames_in_list (s_recvd_frames (sk v)) v;
     rest v }"
  unfolding thread_end_def rws_socket_delete_def thread_end_begin_def clean_recvd_frames_def clean_list_def Let_def case_prod_unfold bind_assoc
  by (rule exI, rule allI, rule refl)

lemma thread_end_begin_run:
  assumes "own_bytes (s_sec_ws_accept (sk s)) K s" and "own_bytes (s_received (sk s)) R s" and "set R \<inter> set K = {}"
    and "s_send_frames (sk s) = NULL"
  obtains v where "thread_end_begin s = Some v" and "s_recvd_frames (sk v) = s_recvd_frames (sk s)"
    and "\<And>k. k \<notin> set K \<union> set R \<Longrightarrow> blocks v k = blocks s k"
proof -
  define c where "c = rws_socket_close ((rws_socket_close s)\<lparr>sk := (sk (rws_socket_close s))\<lparr>s_work_thread := NULL\<rparr>\<rparr>)"
  have c: "sk c = (closed_sk (sk s))\<lparr>s_work_thread := NULL\<rparr>" "blocks c = blocks s"
    by (simp_all add: c_def closed_sk_def)
  have own: "own_bytes (s_sec_ws_accept (sk s)) K c" "own_bytes (s_received (sk s)) R c"
    using assms(1,2) by (simp_all add: own_bytes_def c(2))
  have "rws_string_delete_clean (s_sec_ws_accept (sk s)) c = Some (NULL, drop_blks (set K) c)"
    using own_bytes_free [OF own(1)] by (simp add: rws_string_delete_clean_def)
  then have "thread_end_begin s = Some ((drop_blks (set R \<union> set K) c)\<lparr>sk := (sk c)\<lparr>s_sec_ws_accept := NULL, s_received := NULL,
          s_received_size := 0, s_received_len := 0\<rparr>\<rparr>)"
    unfolding thread_end_begin_def Let_def c_def [symmetric] using assms(4) own_bytes_gone(1) [OF own(2) assms(3)]
    by (simp add: c closed_sk_def clean_frames_NULL)
  then show thesis by (rule that) (simp_all add: c closed_sk_def)
qed

text \<open>The end of the thread with a received message still queued reaches the loop and never leaves it.\<close>

lemma thread_end_endless:
  assumes jn: "joined s b c P V bs xs ys" and some: "xs \<noteq> []" and none: "s_send_frames (sk s) = NULL"
  obtains v where "thread_end_begin s = Some v" and "s_recvd_frames (sk v) \<noteq> NULL"
    and "\<And>k. delete_rounds k (s_recvd_frames (sk v)) v \<noteq> None" and "thread_end h s = None"
proof -
  obtain E D ns Fs ms Gs where ses: "session s E bs D ns Fs xs ms Gs ys" "V = foot E D ns Fs ms Gs"
    using jn by (auto simp: joined_def elim: holdsE)
  obtain w x K As sc ho pa where P: "P = {b, w, x} \<union> set K \<union> slot_blks As" "own_bytes (s_sec_ws_accept (sk s)) K s"
    using jn by (auto simp: joined_def elim: setup_atE)
  have apart: "P \<inter> V = {}" using jn by (simp add: joined_def)
  have q: "queue_at (blocks s) (s_recvd_frames (sk s)) ns Fs" "ns \<noteq> []" and dist: "set D \<inter> set (queue_blks ns Fs) = {}"
    using ses(1) some by (auto simp: session_def queue_holds_def queue_at_def)
  have buf: "own_bytes (s_received (sk s)) D s" using buffer_own [of s bs D] ses(1) by (simp add: session_def)
  have KD: "set D \<inter> set K = {}" using apart P(1) ses(2) by auto
  obtain v where v: "thread_end_begin s = Some v" "s_recvd_frames (sk v) = s_recvd_frames (sk s)"
      "\<And>k. k \<notin> set K \<union> set D \<Longrightarrow> blocks v k = blocks s k"
    by (rule thread_end_begin_run [OF P(2) buf KD none]) blast
  have "queue_at (blocks v) (s_recvd_frames (sk v)) ns Fs"
    unfolding v(2) using q(1) by (rule queue_at_cong [rotated]) (use v(3) apart P(1) ses(2) dist in auto)
  note stuck = queue_endless [OF this q(2)]
  obtain rest where "\<forall>u. thread_end h u = do {
       v \<leftarrow> thread_end_begin u;
       v \<leftarrow> rws_socket_delete_all_frames_in_list (s_recvd_frames (sk v)) v;
       rest v }"
    using thread_end_in_two by blast
  then have "thread_end h s = None" using v(1) stuck(3) by simp
  then show thesis using v(1) stuck(1,2) by (intro that [of v])
qed

lemma work_locked_disconnect:
  assumes jn: "joined s b 0 P V bs xs ys" and cmd: "s_command (sk s) = COMMAND_DISCONNECT"
  shows "\<exists>n' s' V' bs'. work_locked n s = Some (n', s') \<and> joined s' b 0 P V' bs' xs ys \<and> s_command (sk s') = COMMAND_END"
proof -
  let ?w = "s_work_mutex (sk s)"
  let ?s0 = "with_count ?w 1 s"
  have len: "list_all (\<lambda>x. length (snd x) < 2 ^ 32) xs" "list_all (\<lambda>y. length (snd y) < 2 ^ 31) ys" using jn by (simp_all add: joined_def)
  have mx: "mutex_at s ?w 0" using jn setup_mutexes(1) by (auto simp: joined_def)
  have lock: "rws_mutex_lock ?w s = Some ?s0" using lock_run [OF mx] by simp
  have jn0: "joined ?s0 b 1 P V bs xs ys" by (rule joined_count [OF jn])
  then have "holds ?s0 V bs xs ys" by (simp add: joined_def)
  from disconnect_holds [OF this] obtain s1 V1 bs1 where s1: "rws_socket_send_disconnect ?s0 = Some s1" "holds s1 V1 bs1 xs ys"
      "goes ?s0 V s1 V1" "s_command (sk s1) = COMMAND_END" by blast
  have jn1: "joined s1 b 1 P V1 bs1 xs ys" by (rule joined_step [OF jn0 s1(2,3) len])
  let ?v = "s_work_mutex (sk s1)"
  have "mutex_at s1 ?v (Suc 0)" using jn1 setup_mutexes(1) [of s1 b 1 P] by (simp add: joined_def)
  then have "work_locked n s = Some (Suc n, with_count ?v 0 s1)"
    using lock s1(1) cmd unlock_run by (simp add: work_locked_def work_command_def)
  moreover have "joined (with_count ?v 0 s1) b 0 P V1 bs1 xs ys" by (rule joined_count [OF jn1])
  ultimately show ?thesis using s1(4) by auto
qed

lemma joined_recvd: "joined s b c P V bs xs ys \<Longrightarrow> s_recvd_frames (sk s) = NULL \<longleftrightarrow> xs = []"
  by (auto simp: joined_def session_def queue_holds_def queue_at_def elim!: holdsE)

text \<open>C10: A release before the delivery hangs the work thread.  When the first \<open>switch\<close> has received a message and
  the release comes before the second one has read the command, the message is never delivered: the thread
  goes on to send the close frame and leaves its loop six steps later, with the message still queued.  The end of the thread is, by the code,
  its first part (\<open>thread_end_begin\<close>), the loop that is to delete the received frames, and a \<open>rest\<close>; the first part
  succeeds with the message in the queue, and for every \<open>k\<close> the first \<open>k\<close> rounds of the loop run without error from there, so the thread
  does not fail, it never ends and never frees the socket.\<close>

theorem release_before_delivery_hangs:
  assumes "steady b U Switch s" and "s_send_frames (sk s) = NULL" and "s_is_connected (sk s)"
    and "s_recvd_frames (sk s) \<noteq> NULL"
  shows "\<exists>n' s' v. run user (Ptr b 0) (Release # replicate 6 Work) (Switch, n, s) = Some (Guard, n', s') \<and>
    s_command (sk s') = COMMAND_END \<and> s_recvd_frames (sk s') \<noteq> NULL \<and>
    (\<exists>rest. \<forall>u. thread_end (Ptr b 0) u = do {
       w \<leftarrow> thread_end_begin u;
       w \<leftarrow> rws_socket_delete_all_frames_in_list (s_recvd_frames (sk w)) w;
       rest w }) \<and>
    thread_end_begin s' = Some v \<and> s_recvd_frames (sk v) \<noteq> NULL \<and>
    (\<forall>k. delete_rounds k (s_recvd_frames (sk v)) v \<noteq> None) \<and>
    run user (Ptr b 0) (Release # replicate 7 Work) (Switch, n, s) = None"
proof -
  let ?t = "s\<lparr>sk := (sk s)\<lparr>s_command := COMMAND_DISCONNECT\<rparr>\<rparr>"
  obtain P V bs xs ys where jn: "joined s b 0 P V bs xs ys" using assms(1) unfolding steady_def by blast
  have "xs \<noteq> []" "ys = []"
    using joined_recvd [OF jn] assms(2,4) jn by (auto simp: joined_def session_def elim!: holdsE)
  have "joined ?t b 0 P V bs xs ys" by (rule joined_sk [OF jn]) (simp_all add: same_setup_def)
  from work_locked_disconnect [OF this, of n] obtain n' s' V' bs' where s': "work_locked n ?t = Some (n', s')"
      "joined s' b 0 P V' bs' xs ys" "s_command (sk s') = COMMAND_END" by auto
  have recvd: "s_recvd_frames (sk s') \<noteq> NULL" using joined_recvd [OF s'(2)] \<open>xs \<noteq> []\<close> by simp
  have none: "s_send_frames (sk s') = NULL"
    using s'(2) \<open>ys = []\<close> by (auto simp: joined_def session_def elim!: holdsE dest: queue_holds_nothing)
  obtain v where v: "thread_end_begin s' = Some v" "s_recvd_frames (sk v) \<noteq> NULL"
      "\<And>k. delete_rounds k (s_recvd_frames (sk v)) v \<noteq> None" "thread_end (Ptr b 0) s' = None"
    by (rule thread_end_endless [OF s'(2) \<open>xs \<noteq> []\<close> none]) blast
  have w: "run user (Ptr b 0) (Release # replicate 6 Work @ as) (Switch, n, s) = run user (Ptr b 0) as (Guard, n', s')" for as
    using s'(1,3) steady_release [OF assms(1-3)] by (simp add: eval_nat_numeral inform_branch_def)
  have "replicate 7 Work = replicate 6 Work @ [Work]" by (simp add: eval_nat_numeral)
  then have "run user (Ptr b 0) (Release # replicate 7 Work) (Switch, n, s) = run user (Ptr b 0) [Work] (Guard, n', s')"
    using w by metis
  then have "run user (Ptr b 0) (Release # replicate 7 Work) (Switch, n, s) = None" using v(4) s'(3) by simp
  moreover have "run user (Ptr b 0) (Release # replicate 6 Work) (Switch, n, s) = Some (Guard, n', s')" using w [of "[]"] by simp
  ultimately show ?thesis using s'(3) recvd v(1-3) thread_end_in_two
    by (intro exI [of _ n'] exI [of _ s'] exI [of _ v] conjI) (assumption | rule allI)+
qed

section \<open>Two threads that queue a frame\<close>

text \<open>
  The work thread queues its pings and pongs under the work mutex, the client its texts under the send
  mutex, so the two may overlap: both look for the end of the queue before either has linked its frame.  The two
  halves of \<open>rws_socket_append_send_frames\<close>: \<open>append_look\<close> reads the head and follows the list to its last
  node (\<open>NULL\<close> when there is none), \<open>append_link\<close> makes the new node and links it there.
\<close>

definition append_look :: "sys \<Rightarrow> ptr option" where
  "append_look s = (if s_send_frames (sk s) \<noteq> NULL then list_last (s_send_frames (sk s)) s else Some NULL)"

definition append_link :: "ptr \<Rightarrow> ptr \<Rightarrow> sys \<Rightarrow> sys option" where
  "append_link cur frame s =
     (if cur \<noteq> NULL then do {
        let (p, s) = rws_malloc_zero (ONode zero_node) s;
        x \<leftarrow> get_node cur s;
        s \<leftarrow> put_node cur (x\<lparr>n_next := p\<rparr>) s;
        x \<leftarrow> get_node cur s;
        y \<leftarrow> get_node (n_next x) s;
        put_node (n_next x) (y\<lparr>n_value := frame\<rparr>) s }
      else do {
        let (l, s) = rws_list_create s;
        let s = s\<lparr>sk := (sk s)\<lparr>s_send_frames := l\<rparr>\<rparr>;
        x \<leftarrow> get_node (s_send_frames (sk s)) s;
        put_node (s_send_frames (sk s)) (x\<lparr>n_value := frame\<rparr>) s })"

lemma list_last_not_NULL: "list_last p m = Some q \<Longrightarrow> q \<noteq> NULL"
proof (rule list_last.raw_induct [of "\<lambda>p m q. q \<noteq> NULL"])
  fix f p m q
  assume IH: "\<And>p m q. f p m = Some q \<Longrightarrow> q \<noteq> NULL"
    and "(do { x \<leftarrow> get_node p m; if n_next x \<noteq> NULL then f (n_next x) m else Some p }) = Some q"
  then show "q \<noteq> NULL" by (auto elim!: bind_SomeE split: if_splits) (use IH in blast)
qed

lemma append_in_two: "rws_socket_append_send_frames frame s = do { cur \<leftarrow> append_look s; append_link cur frame s }"
proof (cases "s_send_frames (sk s) = NULL")
  case True
  then show ?thesis by (simp add: rws_socket_append_send_frames_def append_look_def append_link_def)
next
  case False
  then show ?thesis using list_last_not_NULL [of "s_send_frames (sk s)" s]
    by (cases "list_last (s_send_frames (sk s)) s")
      (simp_all add: rws_socket_append_send_frames_def append_look_def append_link_def rws_list_append_def)
qed

lemma link_first: "append_link NULL q s = Some (set_heap ((blocks s)(next_blk s \<mapsto> ONode \<lparr>n_value = q, n_next = NULL\<rparr>))
    (Suc (next_blk s)) (s\<lparr>sk := (sk s)\<lparr>s_send_frames := Ptr (next_blk s) 0\<rparr>\<rparr>))"
  by (simp add: append_link_def rws_list_create_def rws_malloc_zero_def run_simps) (simp add: zero_node_def)

lemma link_last:
  assumes "blocks s a = Some (ONode x)" and "a \<noteq> next_blk s"
  shows "append_link (Ptr a 0) q s = Some (set_heap ((blocks s)(a \<mapsto> ONode (x\<lparr>n_next := Ptr (next_blk s) 0\<rparr>),
    next_blk s \<mapsto> ONode \<lparr>n_value = q, n_next = NULL\<rparr>)) (Suc (next_blk s)) s)"
  using assms by (simp add: append_link_def rws_malloc_zero_def run_simps fun_upd_twist) (simp add: zero_node_def)

text \<open>C21: Frames queued at once are lost.  \<open>rws_socket_append_send_frames\<close> is its two halves in sequence; when the
  work thread and the client have both looked for the end of the queue before either has linked its frame, both
  calls succeed, but the queue then ends with the second frame only: the node of the first one, still
  allocated with its frame, is on no list, so the frame is never sent and never freed.\<close>

theorem racing_appends_lose_frame:
  assumes "fresh_ok s" and "nodes_at (blocks s) (s_send_frames (sk s)) ns"
  shows "rws_socket_append_send_frames v s = append_look s \<bind> (\<lambda>w. append_link w v s) \<and>
    (\<exists>w s1 s2. append_look s = Some w \<and> append_link w q1 s = Some s1 \<and> append_link w q2 s1 = Some s2 \<and>
      nodes_at (blocks s2) (s_send_frames (sk s2)) (ns @ [(next_blk s1, q2)]) \<and>
      next_blk s \<notin> node_blks (ns @ [(next_blk s1, q2)]) \<and>
      blocks s2 (next_blk s) = Some (ONode \<lparr>n_value = q1, n_next = NULL\<rparr>))"
proof (cases ns rule: rev_cases)
  case Nil
  then have "append_look s = Some NULL" using assms(2) by (simp add: append_look_def)
  then show ?thesis using Nil by (simp add: append_in_two link_first)
next
  case (snoc xs x)
  obtain a w where x: "x = (a, w)" by (cases x)
  have nodes: "nodes_at (blocks s) (s_send_frames (sk s)) (xs @ [(a, w)])" using assms(2) snoc x by simp
  then have "s_send_frames (sk s) \<noteq> NULL" by auto
  then have look: "append_look s = Some (Ptr a 0)" using list_last_run [OF nodes] by (simp add: append_look_def)
  have a: "blocks s a = Some (ONode \<lparr>n_value = w, n_next = NULL\<rparr>)" by (rule nodes_at_last [OF nodes])
  let ?n = "next_blk s"
  let ?s1 = "set_heap ((blocks s)(a \<mapsto> ONode \<lparr>n_value = w, n_next = Ptr ?n 0\<rparr>, ?n \<mapsto> ONode \<lparr>n_value = q1, n_next = NULL\<rparr>)) (Suc ?n) s"
  have old: "k < ?n" if "k \<in> node_blks (xs @ [(a, w)])" for k
    using nodes_at_live [OF nodes that] assms(1) by (auto simp: fresh_ok_def)
  then have na: "a < ?n" by auto
  have s1: "append_link (Ptr a 0) q1 s = Some ?s1" using link_last [OF a] na by simp
  let ?B = "(blocks ?s1)(a \<mapsto> ONode \<lparr>n_value = w, n_next = Ptr (Suc ?n) 0\<rparr>, Suc ?n \<mapsto> ONode \<lparr>n_value = q2, n_next = NULL\<rparr>)"
  have s2: "append_link (Ptr a 0) q2 ?s1 = Some (set_heap ?B (Suc (Suc ?n)) ?s1)"
    using link_last [of ?s1 a "\<lparr>n_value = w, n_next = Ptr ?n 0\<rparr>" q2] na by simp
  let ?C = "(blocks s)(?n \<mapsto> ONode \<lparr>n_value = q1, n_next = NULL\<rparr>)"
  have "nodes_at ?C (s_send_frames (sk s)) (xs @ [(a, w)])"
    using nodes nodes_at_cong [of "xs @ [(a, w)]" ?C "blocks s"] old by fastforce
  then have "nodes_at ?B (s_send_frames (sk s)) (xs @ [(a, w), (Suc ?n, q2)])"
    using nodes_at_snoc [of ?C "s_send_frames (sk s)" xs a w "Suc ?n" ?B q2] old [of "Suc ?n"] na by fastforce
  then have "nodes_at ?B (s_send_frames (sk s)) (ns @ [(Suc ?n, q2)])" using snoc x by simp
  moreover have "?n \<notin> node_blks (ns @ [(Suc ?n, q2)])" using old snoc x by fastforce
  moreover have "?B ?n = Some (ONode \<lparr>n_value = q1, n_next = NULL\<rparr>)" using na by simp
  ultimately show ?thesis using append_in_two look s1 s2
    by (intro conjI exI [of _ "Ptr a 0"] exI [of _ ?s1] exI [of _ "set_heap ?B (Suc (Suc ?n)) ?s1"]) simp_all
qed

section \<open>Witnesses\<close>

lemma started_setup: "setup_at started 0 0 ({0, 1, 2} \<union> set [] \<union> slot_blks [[3], [4], [5]])"
  by (rule setup_atI [OF _ _ _ _ _ _ started_url]) (simp_all add: started_fields request_text_def cstr_def)

lemma started_blocks: "slot_blks [[3], [4], [5 :: nat]] = {3, 4, 5}"
  using slot_blks3 [of "[[3], [4], [5 :: nat]]"] by auto

text \<open>The socket of \<open>started\<close> when its connection has just been accepted, and with a message that waits for delivery.\<close>

definition accepted :: sys where
  "accepted = started\<lparr>sk := (sk started)\<lparr>s_socket := 3, s_is_connected := True, s_command := COMMAND_INFORM_CONNECTED\<rparr>\<rparr>"

lemma accepted_steady: "steady 0 ({0, 1, 2} \<union> slot_blks [[3], [4], [5]]) (Inform COMMAND_INFORM_CONNECTED) accepted"
proof -
  obtain P V bs ys where U: "{0, 1, 2} \<union> slot_blks [[3], [4], [5]] = P \<union> V" and jn: "joined started 0 0 P V bs [] ys"
    using started_sound by (auto simp: sound_def)
  have "joined accepted 0 0 P V bs [] ys" unfolding accepted_def by (rule joined_sk [OF jn]) (simp_all add: same_setup_def)
  moreover have "stage_ok (sk accepted) bs []" by (simp add: stage_ok_def accepted_def)
  ultimately show ?thesis unfolding steady_def U by blast
qed

theorem release_lost_witness:
  "run (\<lambda>e. Some) (Ptr 0 0) [Release, Work] (Inform COMMAND_INFORM_CONNECTED, 0, accepted) =
     run (\<lambda>e. Some) (Ptr 0 0) [Work] (Inform COMMAND_INFORM_CONNECTED, 0, accepted)"
  using release_lost [OF accepted_steady] by (simp add: accepted_def started_fields del: run.simps)

definition undelivered :: sys where
  "undelivered = accepted\<lparr>blocks := (blocks accepted)(7 \<mapsto> ONode \<lparr>n_value = Ptr 8 0, n_next = NULL\<rparr>,
       8 \<mapsto> OFrame (zero_frame\<lparr>f_data := Ptr 9 0, f_data_size := 1, f_opcode := 1, f_is_finished := True\<rparr>),
       9 \<mapsto> OBytes [Some 104]), next_blk := 10,
     sk := (sk accepted)\<lparr>s_command := COMMAND_IDLE, s_recvd_frames := Ptr 7 0\<rparr>\<rparr>"

lemma undelivered_steady: "steady 0 ({0, 1, 2, 3, 4, 5} \<union> {7, 8, 9}) Switch undelivered"
proof -
  let ?f = "zero_frame\<lparr>f_data := Ptr 9 0, f_data_size := 1, f_opcode := 1, f_is_finished := True\<rparr>"
  have "fresh_ok undelivered" by (auto simp: undelivered_def accepted_def started_def fresh_ok_def)
  then have "session undelivered [] [] [] [(7, Ptr 8 0)] [(?f, [8, 9])] [(1, [104])] [] [] []"
    by (simp add: session_def buffer_at_def queue_blks_def queue_holds_def queue_at_def carries_def frame_at_def zero_frame_def
        undelivered_def accepted_def started_def zero_socket_def)
  from holdsI [OF this] have hl: "holds undelivered {7, 8, 9} [] [(1, [104])] []" by (simp add: queue_blks_def insert_commute)
  have "setup_at undelivered 0 0 ({0, 1, 2} \<union> set [] \<union> slot_blks [[3], [4], [5]])"
    by (rule setup_cong [OF started_setup]) (auto simp: started_blocks undelivered_def accepted_def same_setup_def)
  then have "setup_at undelivered 0 0 {0, 1, 2, 3, 4, 5}" by (simp add: started_blocks insert_commute)
  then have "joined undelivered 0 0 {0, 1, 2, 3, 4, 5} {7, 8, 9} [] [(1, [104])] []" using hl by (simp add: joined_def)
  moreover have "stage_ok (sk undelivered) [] [(1, [104])]" by (simp add: stage_ok_def undelivered_def)
  ultimately show ?thesis unfolding steady_def by blast
qed

theorem release_before_delivery_hangs_witness:
  "\<exists>n' s' v. run (\<lambda>e. Some) (Ptr 0 0) (Release # replicate 6 Work) (Switch, 0, undelivered) = Some (Guard, n', s') \<and>
    thread_end_begin s' = Some v \<and> s_recvd_frames (sk v) \<noteq> NULL \<and> (\<forall>k. delete_rounds k (s_recvd_frames (sk v)) v \<noteq> None)"
proof -
  have k: "s_send_frames (sk undelivered) = NULL" "s_is_connected (sk undelivered)" "s_recvd_frames (sk undelivered) \<noteq> NULL"
    by (simp_all add: undelivered_def accepted_def started_fields)
  show ?thesis
    using release_before_delivery_hangs [OF undelivered_steady k, of "\<lambda>e. Some" 0] by blast
qed

theorem racing_appends_lose_frame_witness:
  "\<exists>w s1 s2. append_look undelivered = Some w \<and> append_link w (Ptr 8 0) undelivered = Some s1 \<and> append_link w NULL s1 = Some s2 \<and>
     nodes_at (blocks s2) (s_send_frames (sk s2)) [(next_blk s1, NULL)] \<and>
     blocks s2 10 = Some (ONode \<lparr>n_value = Ptr 8 0, n_next = NULL\<rparr>)"
proof -
  have "fresh_ok undelivered" by (auto simp: undelivered_def accepted_def started_def fresh_ok_def)
  then show ?thesis using racing_appends_lose_frame [of undelivered "[]" NULL "Ptr 8 0" NULL]
    by (fastforce simp: undelivered_def accepted_def started_fields)
qed

end
