(* ===== verification/Rws_Joiner.thy ===== *)
theory Rws_Joiner
  imports Rws_Thread
begin

text \<open>
  The life of threads (\<open>rws_thread.c\<close>, the POSIX branches).  A thread whose function has returned hands itself to the
  global joiner; under the joiner's mutex it first joins and frees the thread that was handed over
  before.  The steps of any number of threads interleave; each rule is one step of one thread between
  two points where another one may run.
\<close>

section \<open>State\<close>

text \<open>Where a thread stands; \<open>Joining u\<close> waits in \<open>pthread_join\<close> for the thread \<open>u\<close>.\<close>

datatype stage = Unborn | Running | Locking | Cleaning | Joining nat | Storing | Unlocking | Returning | Exited | Freed

text \<open>\<open>struct _rws_threads_joiner_struct\<close> and the stages of all threads.\<close>

record joiner =
  j_thread :: "nat option"
  j_owner :: "nat option"
  stage_of :: "nat \<Rightarrow> stage"

abbreviation move :: "nat \<Rightarrow> stage \<Rightarrow> joiner \<Rightarrow> joiner" where
  "move t c s \<equiv> s\<lparr>stage_of := (stage_of s)(t := c)\<rparr>"

definition no_threads :: joiner where
  "no_threads = \<lparr>j_thread = None, j_owner = None, stage_of = (\<lambda>t. Unborn)\<rparr>"

section \<open>Steps\<close>

text \<open>\<open>rws_threads_joiner_clean\<close>: nothing to join, or take the thread, wait for it and free it.\<close>

inductive clean_step :: "nat \<Rightarrow> joiner \<Rightarrow> joiner \<Rightarrow> bool" where
  Clean_none: "stage_of s t = Cleaning \<Longrightarrow> j_thread s = None \<Longrightarrow> clean_step t s (move t Storing s)"
| Clean_take: "stage_of s t = Cleaning \<Longrightarrow> j_thread s = Some u \<Longrightarrow>
    clean_step t s (move t (Joining u) (s\<lparr>j_thread := None\<rparr>))"
| Clean_join: "stage_of s t = Joining u \<Longrightarrow> stage_of s u = Exited \<Longrightarrow>
    clean_step t s (move t Storing (move u Freed s))"

text \<open>\<open>rws_threads_joiner_add\<close>: lock, clean, store the thread, unlock.\<close>

inductive add_step :: "nat \<Rightarrow> joiner \<Rightarrow> joiner \<Rightarrow> bool" where
  Add_lock: "stage_of s t = Locking \<Longrightarrow> j_owner s = None \<Longrightarrow> add_step t s (move t Cleaning (s\<lparr>j_owner := Some t\<rparr>))"
| Add_clean: "clean_step t s s' \<Longrightarrow> add_step t s s'"
| Add_store: "stage_of s t = Storing \<Longrightarrow> add_step t s (move t Unlocking (s\<lparr>j_thread := Some t\<rparr>))"
| Add_unlock: "stage_of s t = Unlocking \<Longrightarrow> add_step t s (move t Returning (s\<lparr>j_owner := None\<rparr>))"

text \<open>
  \<open>rws_thread_create\<close> with a function starts a thread, one step (the joiner and its mutex exist from
  the first call on, see \<open>Rws_Creation\<close>, and \<open>pthread_create\<close> succeeds, as the code asserts);
  \<open>rws_thread_func_priv\<close> runs its function, adds it to the joiner and returns.
\<close>

inductive thread_step :: "nat \<Rightarrow> joiner \<Rightarrow> joiner \<Rightarrow> bool" where
  Thread_create: "stage_of s t = Unborn \<Longrightarrow> thread_step t s (move t Running s)"
| Thread_done: "stage_of s t = Running \<Longrightarrow> thread_step t s (move t Locking s)"
| Thread_return: "stage_of s t = Returning \<Longrightarrow> thread_step t s (move t Exited s)"

inductive reachable :: "joiner \<Rightarrow> bool" where
  Start: "reachable no_threads"
| Add: "reachable s \<Longrightarrow> add_step t s s' \<Longrightarrow> reachable s'"
| Thread: "reachable s \<Longrightarrow> thread_step t s s' \<Longrightarrow> reachable s'"

inductive_cases clean_stepE: "clean_step t s s'"
inductive_cases add_stepE: "add_step t s s'"
inductive_cases thread_stepE: "thread_step t s s'"

section \<open>Invariant\<close>

definition holds_mutex :: "stage \<Rightarrow> bool" where
  "holds_mutex c \<longleftrightarrow> (case c of Cleaning \<Rightarrow> True | Joining u \<Rightarrow> True | Storing \<Rightarrow> True | Unlocking \<Rightarrow> True | _ \<Rightarrow> False)"

lemma holds_mutex_simps [simp]:
  "\<not> holds_mutex Unborn" "\<not> holds_mutex Running" "\<not> holds_mutex Locking" "holds_mutex Cleaning" "holds_mutex (Joining u)"
  "holds_mutex Storing" "holds_mutex Unlocking" "\<not> holds_mutex Returning" "\<not> holds_mutex Exited" "\<not> holds_mutex Freed"
  by (simp_all add: holds_mutex_def)

text \<open>
  One thread at a time is inside; the stored thread and the one waited for have been handed over and
  are not freed; and every thread that was handed over is the stored one, is waited for, or is freed.
\<close>

definition joiner_ok :: "joiner \<Rightarrow> bool" where
  "joiner_ok s \<longleftrightarrow>
     (\<forall>t. holds_mutex (stage_of s t) \<longleftrightarrow> j_owner s = Some t) \<and>
     (\<forall>u. j_thread s = Some u \<longrightarrow> stage_of s u \<in> {Unlocking, Returning, Exited}) \<and>
     (\<forall>t. stage_of s t = Unlocking \<longrightarrow> j_thread s = Some t) \<and>
     (\<forall>t. stage_of s t = Storing \<longrightarrow> j_thread s = None) \<and>
     (\<forall>t u. stage_of s t = Joining u \<longrightarrow> j_thread s = None \<and> stage_of s u \<in> {Returning, Exited}) \<and>
     (\<forall>u. stage_of s u \<in> {Returning, Exited} \<longrightarrow> j_thread s = Some u \<or> (\<exists>t. stage_of s t = Joining u))"

lemma alone:
  assumes "joiner_ok s" and "holds_mutex (stage_of s t)"
  shows "j_owner s = Some t" and "\<And>u. holds_mutex (stage_of s u) \<Longrightarrow> u = t"
  using assms unfolding joiner_ok_def by auto

lemma joiner_ok_clean:
  assumes "clean_step t s s'" and ok: "joiner_ok s"
  shows "joiner_ok s'"
  using assms(1)
proof cases
  case Clean_none
  then have "stage_of s u \<noteq> Joining v \<and> stage_of s u \<noteq> Storing" for u v
    using alone(2) [OF ok, of t u] by auto
  then show ?thesis using ok Clean_none unfolding joiner_ok_def by (auto split: if_splits)
next
  case (Clean_take u)
  then have only: "v = t" if "holds_mutex (stage_of s v)" for v using alone(2) [OF ok, of t v] that by auto
  have other: "stage_of s v \<noteq> Joining w" "stage_of s v \<noteq> Storing" "stage_of s v \<noteq> Unlocking" for v w
    using only [of v] Clean_take(2) by auto
  have u: "stage_of s u \<in> {Returning, Exited}" using ok Clean_take(3) other(3) [of u] unfolding joiner_ok_def by blast
  then have ne: "u \<noteq> t" using Clean_take(2) by auto
  have all: "v = u" if "stage_of s v \<in> {Returning, Exited}" for v
    using ok that other(1) Clean_take(3) unfolding joiner_ok_def by (metis option.inject)
  have new: "stage_of s' t = Joining u" "stage_of s' v = (if v = t then Joining u else stage_of s v)"
      "j_thread s' = None" "j_owner s' = j_owner s" for v
    using Clean_take(1) by simp_all
  have "holds_mutex (stage_of s' v) \<longleftrightarrow> j_owner s' = Some v" for v
    using alone(1) [OF ok, of v] ok Clean_take(2) unfolding joiner_ok_def new(2,4) by auto
  moreover have "stage_of s' v \<noteq> Storing \<and> stage_of s' v \<noteq> Unlocking" for v using other by (simp add: new(2))
  moreover have "stage_of s' v = Joining w \<Longrightarrow> stage_of s' w \<in> {Returning, Exited}" for v w
    using other(1) u ne by (simp add: new(2) split: if_splits)
  moreover have "stage_of s' v \<in> {Returning, Exited} \<Longrightarrow> \<exists>x. stage_of s' x = Joining v" for v
    using all [of v] new(1) by (auto simp: new(2) split: if_splits)
  ultimately show ?thesis unfolding joiner_ok_def using new(3) by (intro conjI allI impI) auto
next
  case (Clean_join u)
  have only: "v = t" if "holds_mutex (stage_of s v)" for v using alone(2) [OF ok, of t v] Clean_join that by auto
  have none: "j_thread s = None" using ok Clean_join(2) by (auto simp: joiner_ok_def)
  have ne: "t \<noteq> u" using Clean_join by auto
  have "stage_of s' v \<notin> {Returning, Exited}" for v
  proof
    assume v: "stage_of s' v \<in> {Returning, Exited}"
    then have "v \<noteq> u" "stage_of s v \<in> {Returning, Exited}" using Clean_join(1) by (auto split: if_splits)
    then obtain x where "stage_of s x = Joining v" using ok none by (auto simp: joiner_ok_def)
    then show False using only [of x] Clean_join(2) \<open>v \<noteq> u\<close> by auto
  qed
  moreover have "stage_of s' v \<noteq> Joining w \<and> stage_of s' v \<noteq> Unlocking" for v w
    using only [of v] Clean_join(1) by (auto split: if_splits)
  moreover have "holds_mutex (stage_of s' v) \<longleftrightarrow> j_owner s' = Some v" for v
    using ok Clean_join ne unfolding joiner_ok_def by (auto split: if_splits)
  ultimately show ?thesis unfolding joiner_ok_def by (simp add: Clean_join(1) none)
qed

lemma joiner_ok_add:
  assumes "add_step t s s'" and ok: "joiner_ok s"
  shows "joiner_ok s'"
  using assms(1)
proof cases
  case Add_lock
  then have "\<not> holds_mutex (stage_of s u)" for u using ok by (auto simp: joiner_ok_def)
  then have "stage_of s v \<noteq> Joining w \<and> stage_of s v \<noteq> Storing \<and> stage_of s v \<noteq> Unlocking" for v w
    by (metis holds_mutex_simps(5-7))
  then show ?thesis using ok Add_lock unfolding joiner_ok_def by (auto split: if_splits)
next
  case Add_clean
  then show ?thesis using ok by (rule joiner_ok_clean)
next
  case Add_store
  then have "stage_of s v \<noteq> Joining w \<and> (v \<noteq> t \<longrightarrow> stage_of s v \<noteq> Storing) \<and> stage_of s v \<noteq> Unlocking" for v w
    using alone(2) [OF ok, of t v] by (cases "v = t") auto
  then show ?thesis using ok Add_store unfolding joiner_ok_def by (auto split: if_splits)
next
  case Add_unlock
  then have "v = t \<or> \<not> holds_mutex (stage_of s v) \<and> stage_of s v \<noteq> Unlocking" for v
    using alone(2) [OF ok, of t v] by auto
  then show ?thesis using ok Add_unlock unfolding joiner_ok_def by (auto split: if_splits)
qed

lemma joiner_ok_thread:
  assumes "thread_step t s s'" and ok: "joiner_ok s"
  shows "joiner_ok s'"
proof -
  from assms(1) obtain c where s': "s' = move t c s"
    and c: "stage_of s t = Unborn \<and> c = Running \<or> stage_of s t = Running \<and> c = Locking \<or> stage_of s t = Returning \<and> c = Exited"
    by cases auto
  then have t: "\<not> holds_mutex (stage_of s t)" "\<not> holds_mutex c" by auto
  have "stage_of s' u = Joining v \<longleftrightarrow> stage_of s u = Joining v" for u v using s' c by auto
  moreover have "stage_of s' u \<in> {Returning, Exited} \<longleftrightarrow> stage_of s u \<in> {Returning, Exited}" for u using s' c by auto
  moreover have "stage_of s' u = Unlocking \<longleftrightarrow> stage_of s u = Unlocking" "stage_of s' u = Storing \<longleftrightarrow> stage_of s u = Storing" for u
    using s' c by auto
  moreover have "holds_mutex (stage_of s' u) \<longleftrightarrow> holds_mutex (stage_of s u)" for u using s' t by auto
  ultimately show ?thesis using ok unfolding joiner_ok_def by (simp add: s' insert_iff)
qed

lemma reachable_ok: "reachable s \<Longrightarrow> joiner_ok s"
proof (induction rule: reachable.induct)
  case Start
  show ?case by (simp add: joiner_ok_def no_threads_def)
qed (auto intro: joiner_ok_add joiner_ok_thread)


text \<open>Once a thread has been handed over, one is stored whenever nobody is inside.\<close>

lemma reachable_stored:
  "reachable s \<Longrightarrow> j_owner s = None \<Longrightarrow> stage_of s t \<in> {Returning, Exited, Freed} \<Longrightarrow> j_thread s \<noteq> None"
proof (induction arbitrary: t rule: reachable.induct)
  case Start
  then show ?case by (simp add: no_threads_def)
next
  case (Add s u s')
  have ok: "joiner_ok s" by (rule reachable_ok [OF Add.hyps(1)])
  from Add.hyps(2) show ?case
  proof cases
    case Add_clean
    then have "holds_mutex (stage_of s u)" "j_owner s' = j_owner s" by (auto elim!: clean_stepE)
    then show ?thesis using alone(1) [OF ok] Add.prems(1) by simp
  next
    case Add_store
    then have "j_owner s = Some u" using alone(1) [OF ok, of u] by simp
    then show ?thesis using Add_store Add.prems(1) by simp
  next
    case Add_unlock
    then show ?thesis using ok by (simp add: joiner_ok_def)
  qed (use Add.prems(1) in simp)
next
  case (Thread s u s')
  from Thread.hyps(2) have "j_owner s' = j_owner s" "j_thread s' = j_thread s"
    "\<exists>v. stage_of s v \<in> {Returning, Exited, Freed}"
    by (cases; use Thread.prems(2) in \<open>auto split: if_splits\<close>)+
  then show ?case using Thread.IH Thread.prems(1) by auto
qed

lemma joining:
  assumes ok: "joiner_ok s" and t: "stage_of s t = Joining u"
  shows "u \<noteq> t" "stage_of s u \<in> {Returning, Exited}" "j_thread s = None" "\<And>v w. stage_of s v = Joining w \<Longrightarrow> v = t"
proof -
  show u: "stage_of s u \<in> {Returning, Exited}" and "j_thread s = None" using ok t unfolding joiner_ok_def by blast+
  show "u \<noteq> t" using u t by auto
  show "v = t" if "stage_of s v = Joining w" for v w using alone(2) [OF ok, of t v] t that by simp
qed

text \<open>A run of two threads: thread 0 is handed over, then thread 1 waits for it, frees it and is left.\<close>

lemma reach_add: "reachable s \<Longrightarrow> add_step t s s'' \<Longrightarrow> s' = s'' \<Longrightarrow> reachable s'"
  by (auto intro: reachable.Add)

lemma reach_thread: "reachable s \<Longrightarrow> thread_step t s s'' \<Longrightarrow> s' = s'' \<Longrightarrow> reachable s'"
  by (auto intro: reachable.Thread)

abbreviation two :: "nat option \<Rightarrow> nat option \<Rightarrow> stage \<Rightarrow> stage \<Rightarrow> joiner" where
  "two j m a b \<equiv> \<lparr>j_thread = j, j_owner = m, stage_of = (\<lambda>t. Unborn)(0 := a, 1 := b)\<rparr>"

lemma two_ends_first: "reachable (two (Some 0) None Exited Unborn)"
proof -
  have e: "(\<lambda>t::nat. Unborn)(0 := a, 1 := Unborn) = (\<lambda>t. Unborn)(0 := a)" for a :: stage by (rule ext) simp
  have "reachable (two None None Running Unborn)"
    by (rule reach_thread [OF Start Thread_create [of _ 0]]) (auto simp: no_threads_def e)
  then have "reachable (two None None Locking Unborn)" by (rule reach_thread [OF _ Thread_done [of _ 0]]) (auto simp: e)
  then have "reachable (two None (Some 0) Cleaning Unborn)" by (rule reach_add [OF _ Add_lock [of _ 0]]) (auto simp: e)
  then have "reachable (two None (Some 0) Storing Unborn)"
    by (rule reach_add [OF _ Add_clean [OF Clean_none [of _ 0]]]) (auto simp: e)
  then have "reachable (two (Some 0) (Some 0) Unlocking Unborn)" by (rule reach_add [OF _ Add_store [of _ 0]]) (auto simp: e)
  then have "reachable (two (Some 0) None Returning Unborn)" by (rule reach_add [OF _ Add_unlock [of _ 0]]) (auto simp: e)
  then show ?thesis by (rule reach_thread [OF _ Thread_return [of _ 0]]) (auto simp: e)
qed

lemma two_waits: "reachable (two None (Some 1) Exited (Joining 0))"
proof -
  have "reachable (two (Some 0) None Exited Running)"
    by (rule reach_thread [OF two_ends_first Thread_create [of _ 1]]) simp_all
  then have "reachable (two (Some 0) None Exited Locking)" by (rule reach_thread [OF _ Thread_done [of _ 1]]) simp_all
  then have "reachable (two (Some 0) (Some 1) Exited Cleaning)" by (rule reach_add [OF _ Add_lock [of _ 1]]) simp_all
  then show ?thesis by (rule reach_add [OF _ Add_clean [OF Clean_take [of _ 1 0]]]) simp_all
qed

lemma two_ends: "reachable (two (Some 1) None Freed Exited)"
proof -
  have "reachable (two None (Some 1) Freed Storing)"
    by (rule reach_add [OF two_waits Add_clean [OF Clean_join [of _ 1 0]]]) (auto simp: fun_upd_twist)
  then have "reachable (two (Some 1) (Some 1) Freed Unlocking)" by (rule reach_add [OF _ Add_store [of _ 1]]) simp_all
  then have "reachable (two (Some 1) None Freed Returning)" by (rule reach_add [OF _ Add_unlock [of _ 1]]) simp_all
  then show ?thesis by (rule reach_thread [OF _ Thread_return [of _ 1]]) simp_all
qed

section \<open>Properties\<close>

text \<open>C27: Threads are joined and freed once.  In every reachable state of any number of threads, at most
  one thread is inside the joiner; the thread it waits for is another one, has been handed over, is not
  freed, is not stored any more and is waited for by nobody else; and the stored thread is not freed.\<close>

theorem joiner_frees_once:
  assumes "reachable s"
  shows "(\<forall>t u. holds_mutex (stage_of s t) \<and> holds_mutex (stage_of s u) \<longrightarrow> t = u) \<and>
    (\<forall>t u. stage_of s t = Joining u \<longrightarrow> u \<noteq> t \<and> stage_of s u \<in> {Returning, Exited} \<and> j_thread s \<noteq> Some u \<and>
      (\<forall>v. stage_of s v = Joining u \<longrightarrow> v = t)) \<and>
    (\<forall>u. j_thread s = Some u \<longrightarrow> stage_of s u \<in> {Unlocking, Returning, Exited})"
proof -
  have ok: "joiner_ok s" by (rule reachable_ok [OF assms])
  have "u = t" if "holds_mutex (stage_of s t)" "holds_mutex (stage_of s u)" for t u using alone(2) [OF ok that] .
  moreover have "u \<noteq> t \<and> stage_of s u \<in> {Returning, Exited} \<and> j_thread s \<noteq> Some u \<and> (\<forall>v. stage_of s v = Joining u \<longrightarrow> v = t)"
    if t: "stage_of s t = Joining u" for t u
    using joining [OF ok t] by auto
  moreover have "stage_of s u \<in> {Unlocking, Returning, Exited}" if "j_thread s = Some u" for u
    using ok that by (simp add: joiner_ok_def)
  ultimately show ?thesis by blast
qed

theorem joiner_frees_once_witness:
  "let s = two None (Some 1) Exited (Joining 0) in
   stage_of s 1 = Joining 0 \<and> (\<forall>v. stage_of s v = Joining 0 \<longrightarrow> v = 1) \<and> j_thread s \<noteq> Some 0"
proof -
  have "stage_of (two None (Some 1) Exited (Joining 0)) 1 = Joining 0" by simp
  with joiner_frees_once [OF two_waits] show ?thesis unfolding Let_def by blast
qed

text \<open>Who can go on: with a free mutex every thread between its end and its exit, otherwise the owner, or the
  thread that the owner waits for.\<close>

lemma free_progress:
  assumes "j_owner s = None" and "stage_of s t \<in> {Locking, Returning}"
  shows "\<exists>s'. add_step t s s' \<or> thread_step t s s'"
  using assms Add_lock [of s t] Thread_return [of s t] by auto

lemma owner_progress:
  assumes ok: "joiner_ok s" and "holds_mutex (stage_of s u)"
  shows "\<exists>v s'. stage_of s v \<notin> {Unborn, Running} \<and> (add_step v s s' \<or> thread_step v s s')"
proof -
  have step: ?thesis if "add_step v s s' \<or> thread_step v s s'" "stage_of s v \<notin> {Unborn, Running}" for v s'
    using that by blast
  consider "stage_of s u = Cleaning" | v where "stage_of s u = Joining v" | "stage_of s u = Storing" | "stage_of s u = Unlocking"
    using assms(2) by (cases "stage_of s u") auto
  then show ?thesis
  proof cases
    case 1
    then show ?thesis
      using step [OF disjI1, OF Add_clean, OF Clean_none, of u] step [OF disjI1, OF Add_clean, OF Clean_take, of u]
      by (cases "j_thread s") simp_all
  next
    case (2 v)
    then have "stage_of s v = Returning \<or> stage_of s v = Exited" using joining(2) [OF ok] by auto
    then show ?thesis
      using step [OF disjI2, OF Thread_return, of v] step [OF disjI1, OF Add_clean, OF Clean_join, of u v] 2 by auto
  next
    case 3
    then show ?thesis by (intro step [OF disjI1, OF Add_store, of u]) simp_all
  next
    case 4
    then show ?thesis by (intro step [OF disjI1, OF Add_unlock, of u]) simp_all
  qed
qed

text \<open>C28: The joiner never blocks for good.  In every reachable state with a thread between the end of its
  function and its exit, some thread that has finished its function can take a step, so the wait for
  the mutex and the wait in \<open>pthread_join\<close> both end.\<close>

theorem joiner_no_deadlock:
  assumes "reachable s" and "stage_of s t \<notin> {Unborn, Running, Exited, Freed}"
  shows "\<exists>u s'. stage_of s u \<notin> {Unborn, Running} \<and> (add_step u s s' \<or> thread_step u s s')"
proof (cases "j_owner s")
  case None
  then have "\<not> holds_mutex (stage_of s t)" using reachable_ok [OF assms(1)] by (simp add: joiner_ok_def)
  then have "stage_of s t \<in> {Locking, Returning}" using assms(2) by (cases "stage_of s t") auto
  then show ?thesis using free_progress [OF None] assms(2) by blast
next
  case (Some u)
  then show ?thesis using reachable_ok [OF assms(1)] by (intro owner_progress) (simp_all add: joiner_ok_def)
qed

theorem joiner_no_deadlock_witness:
  "\<exists>u s'. stage_of (two None (Some 1) Exited (Joining 0)) u \<notin> {Unborn, Running} \<and>
     (add_step u (two None (Some 1) Exited (Joining 0)) s' \<or> thread_step u (two None (Some 1) Exited (Joining 0)) s')"
  by (rule joiner_no_deadlock [OF two_waits, of 1]) simp

text \<open>C37: The object of the last thread is never freed.  When every thread that was started has exited,
  exactly one of them is not freed: the one stored in the joiner.\<close>

theorem last_thread_leaks:
  assumes "reachable s" and "\<forall>t. stage_of s t \<in> {Unborn, Exited, Freed}" and "stage_of s t \<noteq> Unborn"
  shows "\<exists>u. j_thread s = Some u \<and> {v. stage_of s v = Exited} = {u}"
proof -
  have ok: "joiner_ok s" by (rule reachable_ok [OF assms(1)])
  have out: "\<not> holds_mutex (stage_of s v)" "stage_of s v \<noteq> Unlocking" "stage_of s v \<noteq> Returning" "stage_of s v \<noteq> Joining w" for v w
    using spec [OF assms(2), of v] by auto
  have "j_owner s = None" using ok out(1) unfolding joiner_ok_def by (metis option.exhaust)
  moreover have "stage_of s t \<in> {Returning, Exited, Freed}" using assms(2,3) by auto
  ultimately obtain u where u: "j_thread s = Some u" using reachable_stored [OF assms(1), of t] by auto
  then have "stage_of s u = Exited" using ok out(2,3) unfolding joiner_ok_def by blast
  moreover have "v = u" if "stage_of s v = Exited" for v
    using ok out(4) that u unfolding joiner_ok_def by (metis insertI1 insertI2 option.inject)
  ultimately show ?thesis using u by blast
qed

theorem last_thread_leaks_witness:
  "\<exists>u. j_thread (two (Some 1) None Freed Exited) = Some u \<and> {v. stage_of (two (Some 1) None Freed Exited) v = Exited} = {u}"
  by (rule last_thread_leaks [OF two_ends, of 1]) simp_all

end
