(* ===== verification/Rws_Creation.thy ===== *)
theory Rws_Creation
  imports Rws_Thread
begin

text \<open>
  The creation of the global joiner (\<open>rws_threads_joiner_create_ifneed\<close> of \<open>rws_thread.c\<close>), which every
  \<open>rws_thread_create\<close> begins with.  It takes no lock, so the steps of several callers interleave.
\<close>

section \<open>Steps\<close>

text \<open>
  Where a caller stands: it has not begun, it has seen that there is no joiner, it has stored a new zeroed one, or it
  has returned.  The joiner objects and the mutexes are numbered in the order of their allocation;
  \<open>mutex_of\<close> is the \<open>mutex\<close> member of a joiner.
\<close>

datatype caller = Outside | Missing | Stored | Returned

record creation =
  current :: "nat option"
  joiners :: nat
  mutexes :: nat
  mutex_of :: "nat \<Rightarrow> nat option"
  caller_of :: "nat \<Rightarrow> caller"

definition nobody :: creation where
  "nobody = \<lparr>current = None, joiners = 0, mutexes = 0, mutex_of = (\<lambda>j. None), caller_of = (\<lambda>t. Outside)\<rparr>"

abbreviation goto :: "nat \<Rightarrow> caller \<Rightarrow> creation \<Rightarrow> creation" where
  "goto t c s \<equiv> s\<lparr>caller_of := (caller_of s)(t := c)\<rparr>"

text \<open>
  The test of \<open>_threads_joiner\<close>; the assignment of the new object, zeroed by \<open>rws_malloc_zero\<close>; and the assignment of its
  mutex, which reads \<open>_threads_joiner\<close> once more.
\<close>

inductive create_step :: "nat \<Rightarrow> creation \<Rightarrow> creation \<Rightarrow> bool" where
  Create_found: "caller_of s t = Outside \<Longrightarrow> current s = Some j \<Longrightarrow> create_step t s (goto t Returned s)"
| Create_missing: "caller_of s t = Outside \<Longrightarrow> current s = None \<Longrightarrow> create_step t s (goto t Missing s)"
| Create_store: "caller_of s t = Missing \<Longrightarrow>
    create_step t s (goto t Stored (s\<lparr>current := Some (joiners s), joiners := Suc (joiners s)\<rparr>))"
| Create_mutex: "caller_of s t = Stored \<Longrightarrow> current s = Some j \<Longrightarrow>
    create_step t s (goto t Returned (s\<lparr>mutex_of := (mutex_of s)(j \<mapsto> mutexes s), mutexes := Suc (mutexes s)\<rparr>))"

inductive create_steps :: "creation \<Rightarrow> creation \<Rightarrow> bool" where
  Create_none: "create_steps s s"
| Create_next: "create_steps s s' \<Longrightarrow> create_step t s' s'' \<Longrightarrow> create_steps s s''"

inductive_cases create_stepE: "create_step t s s'"

section \<open>One caller after the other\<close>

text \<open>A returned caller leaves a joiner, and only a caller at work leaves it without its mutex.\<close>

definition creation_ok :: "creation \<Rightarrow> bool" where
  "creation_ok s \<longleftrightarrow> (\<forall>t. caller_of s t \<in> {Stored, Returned} \<longrightarrow> current s \<noteq> None) \<and>
     (\<forall>j. current s = Some j \<longrightarrow> mutex_of s j = None \<longrightarrow> (\<exists>t. caller_of s t = Stored)) \<and>
     (\<forall>j. joiners s \<le> j \<longrightarrow> mutex_of s j = None) \<and> (\<forall>j. current s = Some j \<longrightarrow> j < joiners s)"

lemma creation_ok_step:
  assumes "create_step t s s'" and ok: "creation_ok s"
  shows "creation_ok s'"
  using assms(1)
proof cases
  case (Create_found j)
  then have "\<forall>u. caller_of s u = Stored \<longrightarrow> caller_of s' u = Stored" by auto
  moreover have "current s' = current s" "mutex_of s' = mutex_of s" "joiners s' = joiners s" using Create_found(1) by simp_all
  ultimately show ?thesis using ok Create_found(3) unfolding creation_ok_def by (metis option.distinct(1))
next
  case Create_missing
  then show ?thesis using ok unfolding creation_ok_def by auto
next
  case Create_store
  then have "caller_of s' t = Stored" by simp
  then show ?thesis using ok Create_store unfolding creation_ok_def by auto
next
  case (Create_mutex j)
  then show ?thesis using ok unfolding creation_ok_def by auto
qed

lemma creation_reach: "create_steps nobody s \<Longrightarrow> creation_ok s"
proof (induction nobody s rule: create_steps.induct)
  case Create_none
  show ?case by (simp add: creation_ok_def nobody_def)
qed (auto intro: creation_ok_step)

text \<open>With nobody at work and a joiner in place, callers only find it.\<close>

lemma settled_step:
  assumes "create_step t s s'" and "current s = Some j" "\<forall>t. caller_of s t \<notin> {Missing, Stored}"
  shows "current s' = Some j \<and> mutex_of s' = mutex_of s \<and> joiners s' = joiners s \<and> mutexes s' = mutexes s \<and>
    (\<forall>t. caller_of s' t \<notin> {Missing, Stored})"
  using assms by (cases rule: create_step.cases) auto

text \<open>C26: Callers that do not overlap share one joiner.  When some call of \<open>rws_threads_joiner_create_ifneed\<close> has returned
  and none is at work, there is a joiner with its mutex, and no further calls, in any order, ever replace
  the one or the other or allocate another.\<close>

theorem joiner_created_once:
  assumes "create_steps nobody s" and "caller_of s t = Returned" and "\<forall>t. caller_of s t \<notin> {Missing, Stored}"
  shows "\<exists>j m. current s = Some j \<and> mutex_of s j = Some m \<and>
    (\<forall>s'. create_steps s s' \<longrightarrow> current s' = Some j \<and> mutex_of s' j = Some m \<and> joiners s' = joiners s \<and> mutexes s' = mutexes s)"
proof -
  have ok: "creation_ok s" by (rule creation_reach [OF assms(1)])
  then obtain j where j: "current s = Some j" using assms(2) unfolding creation_ok_def by (metis insertI1 insertI2 option.exhaust)
  obtain m where m: "mutex_of s j = Some m" using ok j assms(3) unfolding creation_ok_def by (metis insertI1 insertI2 option.exhaust)
  have "current s' = Some j \<and> mutex_of s' = mutex_of s \<and> joiners s' = joiners s \<and> mutexes s' = mutexes s \<and>
      (\<forall>t. caller_of s' t \<notin> {Missing, Stored})" if "create_steps s s'" for s'
    using that j assms(3)
  proof (induction rule: create_steps.induct)
    case (Create_next s s' u s'')
    then show ?case using settled_step [OF Create_next.hyps(2)] by simp
  qed simp
  then show ?thesis using j m by auto
qed

abbreviation made :: "nat option \<Rightarrow> nat \<Rightarrow> nat \<Rightarrow> (nat \<Rightarrow> nat option) \<Rightarrow> caller \<Rightarrow> caller \<Rightarrow> creation" where
  "made c n k m a b \<equiv> \<lparr>current = c, joiners = n, mutexes = k, mutex_of = m, caller_of = (\<lambda>t. Outside)(0 := a, 1 := b)\<rparr>"

lemma create_reach: "create_steps s0 s \<Longrightarrow> create_step t s s'' \<Longrightarrow> s' = s'' \<Longrightarrow> create_steps s0 s'"
  by (auto intro: create_steps.Create_next)

lemma made_nobody: "made None 0 0 (\<lambda>j. None) Outside Outside = nobody"
  by (simp add: nobody_def fun_eq_iff)

lemma one_caller: "create_steps nobody (made (Some 0) 1 1 [0 \<mapsto> 0] Returned Outside)"
proof -
  have "create_steps nobody (made None 0 0 (\<lambda>j. None) Outside Outside)" unfolding made_nobody by (rule Create_none)
  then have "create_steps nobody (made None 0 0 (\<lambda>j. None) Missing Outside)"
    by (rule create_reach [OF _ Create_missing [of _ 0]]) (auto simp: fun_eq_iff)
  then have "create_steps nobody (made (Some 0) 1 0 (\<lambda>j. None) Stored Outside)"
    by (rule create_reach [OF _ Create_store [of _ 0]]) (auto simp: fun_eq_iff)
  then show ?thesis by (rule create_reach [OF _ Create_mutex [of _ 0 0]]) (auto simp: fun_eq_iff)
qed

theorem joiner_created_once_witness:
  "\<exists>j m. current (made (Some 0) 1 1 [0 \<mapsto> 0] Returned Outside) = Some j \<and>
     (\<forall>s'. create_steps (made (Some 0) 1 1 [0 \<mapsto> 0] Returned Outside) s' \<longrightarrow> current s' = Some j \<and> mutex_of s' j = Some m)"
  using joiner_created_once [OF one_caller, of 0] by auto

section \<open>Two callers at once\<close>

text \<open>
  When two threads create their first sockets' threads at once, one of the calls may return while the joiner has no
  mutex, so that a thread that ends then takes no lock (\<open>rws_mutex_lock\<close> passes over \<open>NULL\<close>); a second joiner replaces the
  first one, which is lost together with a thread object it may hold already.
\<close>

lemma creation_race: "create_steps nobody (made (Some 1) 2 1 [0 \<mapsto> 0] Returned Stored)"
proof -
  have "create_steps nobody (made None 0 0 (\<lambda>j. None) Outside Outside)" unfolding made_nobody by (rule Create_none)
  then have "create_steps nobody (made None 0 0 (\<lambda>j. None) Outside Missing)"
    by (rule create_reach [OF _ Create_missing [of _ 1]]) (auto simp: fun_eq_iff)
  then have "create_steps nobody (made None 0 0 (\<lambda>j. None) Missing Missing)"
    by (rule create_reach [OF _ Create_missing [of _ 0]]) (auto simp: fun_eq_iff)
  then have "create_steps nobody (made (Some 0) 1 0 (\<lambda>j. None) Stored Missing)"
    by (rule create_reach [OF _ Create_store [of _ 0]]) (auto simp: fun_eq_iff)
  then have "create_steps nobody (made (Some 0) 1 1 [0 \<mapsto> 0] Returned Missing)"
    by (rule create_reach [OF _ Create_mutex [of _ 0 0]]) (auto simp: fun_eq_iff)
  then show ?thesis by (rule create_reach [OF _ Create_store [of _ 1]]) (auto simp: fun_eq_iff)
qed

end
