(* ===== verification/Spec2Isabelle.thy ===== *)
theory Spec2Isabelle
  imports Rws_Dialogue Rws_Order Rws_Races Rws_Joiner Rws_Creation
begin

text \<open>
  librws is a WebSocket client library in C (\<open>src/src\<close> and the public header \<open>src/librws.h\<close>).  An
  application creates a socket object, sets a URL and callbacks, and connects; a work thread per
  socket then resolves the host, connects, performs the HTTP upgrade, and loops: it sends queued
  frames, receives bytes, cuts them into frames, answers pings and hands messages to the callbacks.
  The application may queue text at any time and ends with a call that disconnects and releases.
  This development models that core as HOL functions over an explicit state and proves what the
  parts do on their own and together.

  The state.  \<open>mem\<close> (theory \<open>Rws_Memory\<close>) is a heap of typed blocks and the stream of answers of
  \<open>rand\<close>.  \<open>sys\<close> (\<open>Rws_Socket\<close>) extends it by the members of one socket object
  (\<open>struct rws_socket_struct\<close> of \<open>rws_socket.h\<close>), the answers of the operating system call by call,
  and the trace of what can be seen from outside: bytes sent, descriptors closed, callbacks made.
  The block of the socket object itself only records whether the object is still allocated.  A
  function that may touch memory returns an option.  \<open>None\<close> is an execution without a
  defined result: access to freed, foreign or uninitialised memory, a double free, an unlock of a
  mutex that is not held, or a loop that never ends.  So a theorem that a call is \<open>Some\<close> says that
  it returns and is memory safe, and a theorem that it is \<open>None\<close> exhibits an undefined or endless
  execution without telling which.  A theorem that a call never returns therefore says more: the part before
  the loop succeeds, the loop is entered, and for every \<open>k\<close> its first \<open>k\<close> rounds (\<open>delete_rounds\<close>) run without error.
  Errors that the library reports are ordinary values.

  The theories, in the order in which they build on each other:

  \<^item> \<open>Rws_Prelude\<close>, \<open>Rws_Types\<close>: the names of the C types, the collection \<open>run_simps\<close> of rules that
    execute the models, the structs and enums of the headers.

  \<^item> \<open>Rws_Memory\<close> (\<open>rws_memory.c\<close>), \<open>Rws_String\<close> (\<open>rws_string.c\<close>), \<open>Rws_Error\<close> (\<open>rws_error.c\<close>),
    \<open>Rws_List\<close> (\<open>rws_list.c\<close>): the base units; copies are independent of their originals, error
    objects and lists give back exactly the blocks they took.

  \<^item> \<open>Rws_Thread\<close>, \<open>Rws_Joiner\<close>, \<open>Rws_Creation\<close> (\<open>rws_thread.c\<close>): recursive mutexes as lock counts; the
    life of any number of threads and the global joiner as a step relation, with its invariant, the absence of
    deadlock, and the one thread object that is never freed; the creation of the joiner, once when calls do not
    overlap, and twice when they do.

  \<^item> \<open>Rws_Stream\<close>: the locales \<open>stream_parser\<close> and \<open>framing\<close>, the contract between a byte stream cut
    at arbitrary places and the frames it carries.  \<open>Rws_Frame\<close> holds the functions of
    \<open>rws_frame.c\<close>; \<open>Rws_Wire\<close> proves that they compute the wire format (\<open>encode_frame\<close>,
    \<open>check_size\<close>); \<open>Rws_Codec\<close> interprets \<open>framing\<close> on it and states round trip, memory safety and
    the exact meaning of the size check, the cut-off 64-bit lengths included.

  \<^item> \<open>Rws_Socket\<close>, \<open>Rws_Buffer\<close>, \<open>Rws_Queue\<close>, \<open>Rws_Session\<close>, \<open>Rws_Handshake\<close>, \<open>Rws_Connect\<close>
    (\<open>rws_socketpriv.c\<close>): sending and write errors, the receive buffer, the two frame queues with
    the locale \<open>frame_queue\<close> interpreted on both, the session traffic, the upgrade, and name
    resolution and connection.

  \<^item> \<open>Rws_Worker\<close> (\<open>rws_socket_work_th_func\<close>, and \<open>rws_socket_delete\<close> of \<open>rws_socketpub.c\<close>):
    the two switches of the loop as \<open>work_command\<close> and \<open>work_inform\<close>, an iteration, the loop.
    \<open>Rws_Api\<close> (\<open>rws_socketpub.c\<close>): every public function on sockets.

  \<^item> \<open>Rws_Traffic\<close>: \<open>session s E bs D ns Fs xs ms Gs ys\<close>, the refinement relation of the development.
    It ties a state \<open>s\<close> to the bytes received and not consumed (\<open>bs\<close>), the messages waiting for
    delivery (\<open>xs\<close>) and the frames waiting to be sent (\<open>ys\<close>), names the blocks of each part and says
    that they are disjoint.  Its lemmas say how each operation of the session moves the abstract
    session.

  \<^item> \<open>Rws_Receiver\<close>, \<open>Rws_Delivery\<close>, \<open>Rws_Sender\<close>: the receiver over many rounds, the delivery and the
    send queue, each for every answer of the network.  \<open>Rws_Lifecycle\<close> composes them in the work
    loop, from the bytes on the network to the callbacks and from the public call to the queue.

  \<^item> \<open>Rws_Public\<close>, \<open>Rws_Release\<close>: what the public functions promise, what the work thread does at the
    end, and the release of everything a socket owns (\<open>owns\<close>).

  \<^item> \<open>Rws_Steps\<close>, \<open>Rws_Program\<close>, \<open>Rws_Run\<close>: the whole program under every answer of the network.  \<open>Rws_Steps\<close>
    says what each operation leaves (\<open>holds\<close>, a session of which the rest of the memory is disjoint) whether the
    network accepts, refuses, cuts or breaks; \<open>setup_at\<close> in \<open>Rws_Program\<close> adds the mutexes, the strings of the
    URL, the accept key and the stage the command names, and \<open>sound\<close> is the invariant of the socket between two
    iterations, which each branch keeps; the callbacks may use the socket, within the delivery as well (\<open>civil\<close>,
    \<open>park\<close>).  \<open>Rws_Run\<close> cuts an iteration where no lock is held (\<open>place\<close>, \<open>work_step\<close>) and lets the
    client and the work thread take turns: a list of actions (a step of the thread, a text to send, the query for
    the connection, the release) is run from a started socket; \<open>program_safe\<close> carries the four calls that start it
    through every good run (below), \<open>release_ends_thread\<close> follows a release from each place of the thread to its end, the lemma
    \<open>thread_is_iterations\<close> unrolls the thread function into the iterations of the runs, and \<open>failure_ends_thread\<close>
    says what is seen outside and what is left when a step fails (\<open>farewell\<close>).

  \<^item> \<open>Rws_Dialogue\<close>: one connection from end to end.  Each command of the work thread is given with exactly what it
    leaves in the socket, in the answers still to come and in the trace (\<open>connect_iteration\<close>, \<open>handshake_iteration\<close>,
    \<open>accept_iteration\<close>, \<open>talk_run\<close>, \<open>ending_run\<close>), its memory by the soundness of \<open>Rws_Program\<close>; together they
    make \<open>dialogue_ends\<close>, from a started socket to the return of the thread function.

  \<^item> \<open>Rws_Order\<close>: the order of the callbacks over every run, by an invariant that ties the callbacks made to the command
    (\<open>made\<close>, \<open>in_order\<close>).  It rests on what each operation leaves alone when it returns (\<open>same_more\<close>,
    \<open>face\<close>, \<open>moves\<close>), so the order needs no assumption about the memory or the peer, only that the callbacks do not touch
    the command or the trace (\<open>modest\<close>) and that the run returns; \<open>Rws_Run\<close> adds that good runs do.

  \<^item> \<open>Rws_Races\<close>: the calls that come at a bad moment: releases between the two \<open>switch\<close> statements, which are lost
    or make the thread loop for ever, and two threads that append to the send queue at once.

  Interfaces.  The receiver relies on the codec only through \<open>framing\<close>: the check accepts a prefix
  once and for all, and accepts an encoded frame exactly when it is complete; that every cut of
  the stream gives the same messages follows inside the locale.  Appending relies on
  \<open>frame_queue\<close>: either queue refines a list that grows at its end.

  Loops.  Loops with a counter are total functions (the connection attempts, with a measure).  Loops that
  follow pointers or wait for the outside are \<open>partial_function (option)\<close>: whether they return is
  proved, on well-formed lists by induction on the list, for the deletion loop of the queues in the
  negative (\<open>delete_rounds_run\<close>, \<open>queue_endless\<close>).  No fuel is used.  The work loop runs as long as the application wants; the theorems
  about it speak of a given number of iterations, or of its end after a disconnect.  The bounds
  in hypotheses come from the code: payloads below \<open>2 ^ 32 - 14\<close> bytes, because sizes are taken in
  32 bits, frames to send below \<open>2 ^ 31\<close> bytes because of the cast to \<open>int\<close>, fewer than 400 (for a dialogue 396)
  iterations where no keep-alive ping is to interfere, requests below 512 bytes because of the array
  they are formatted into.

  The peer and the client of \<open>Rws_Run\<close>.  \<open>fair\<close> asks of the peer what the receiver needs to stay defined, which
  \<open>recv_frame_safe\<close>, \<open>fragmented_message_undefined\<close> and \<open>handshake_reads_past_end\<close> show from the other side: its
  first answer is empty, or accepts or refuses the upgrade and contains what ends the scans of the parser (\<open>contained\<close>), and
  its frames are whole messages, pings, pongs or a close.
  \<open>civil\<close> asks of the callbacks that they leave the socket sound (one that answers every text is an example), and
  \<open>admissible\<close> of the client that it sends C strings and releases with nothing queued in either direction (otherwise
  \<open>release_hangs_with_queued_text\<close> or \<open>release_before_delivery_hangs\<close> applies), and that no text is left in the queue when
  the thread ends, whose deletion would loop as well.  Runs that are not good are not claimed to be safe.

  What the outside may do.  The answers of \<open>send\<close>, \<open>recv\<close>, \<open>getsockopt\<close>, \<open>getaddrinfo\<close>, \<open>socket\<close>,
  \<open>connect\<close> and \<open>rand\<close> are arbitrary streams in the state, and \<open>strerror\<close>, \<open>gai_strerror\<close>
  and the callbacks are arbitrary functions, unless a theorem says otherwise.  From the C library the
  model uses the documented behaviour of \<open>malloc\<close>, \<open>free\<close>, \<open>memcpy\<close>, \<open>memmove\<close>, \<open>strlen\<close>, \<open>strstr\<close>,
  and of \<open>sprintf\<close> and \<open>sscanf\<close> for the formats that occur.

  Not modelled.  The Windows branches; the SIGPIPE handler; delays and socket
  options, which have no effect on the state; a failing \<open>malloc\<close> or \<open>pthread_create\<close>, at which the
  code stops by \<open>assert\<close>; calls of the application inside a section that the work mutex guards: the
  release takes that mutex and cannot come there, but the setters do not and \<open>rws_socket_send_text\<close> and
  \<open>rws_socket_is_connected\<close> take the send mutex only; and calls inside the branch of the second \<open>switch\<close> or the end of the
  thread, which hold no mutex.  The runs put all of these before or after the step: the places of \<open>Rws_Run\<close> are a choice of
  granularity.  \<open>racing_appends_lose_frame\<close> shows what a text in the middle of a section can do.  Not modelled either is the
  short time in which a new thread runs before \<open>work_thread\<close> is stored; and \<open>%f\<close> is read as a decimal number
  only, not as \<open>inf\<close>, \<open>nan\<close> or a hexadecimal one.  The whole library is covered otherwise; the lines outside are
  declarations, macros, comments and the branches for Windows.  Files left out entirely: the empty units
  \<open>librws.c\<close> and \<open>rws_common.c\<close>, \<open>rws_common.h\<close> (platform macros), the Objective-C wrapper in
  \<open>src/contrib\<close>, tests and build files.
\<close>

end
